(* ===== verification/Bv_Prelude.thy ===== *)
theory Bv_Prelude
  imports Main "HOL-Library.Word" "HOL-Library.Code_Target_Nat"
begin

text \<open>
  The prelude of the development: names for the C integer types of
  \<^verbatim>\<open>include/share/vmm_types.h\<close>, the result type of code that may stop the
  hypervisor, C strings, and the generic facts on words and lists that the component
  theories share.

  Conventions used by every component theory:
  \<^item> an unsigned C integer of width \<open>w\<close> is a \<open>w word\<close>; a signed one is the same
    word read with \<open>sint\<close>; the data model is LP64 (\<open>unsigned long\<close> has 64 bits),
    as on the x86-64 and AArch64 targets;
  \<^item> code that can reach \<open>panic ()\<close>, a failing \<open>ASSERT ()\<close> or an access outside
    an object returns \<open>'a res\<close>: \<open>Inl\<close> of the fault, or \<open>Inr\<close> of the result;
  \<^item> a C string is the list of its bytes before the terminating NUL.
\<close>

unbundle bit_operations_syntax

section \<open>Types\<close>

type_synonym u8 = "8 word"
type_synonym u16 = "16 word"
type_synonym u32 = "32 word"
type_synonym u64 = "64 word"

text \<open>What stops the hypervisor: a failing assertion, a \<open>panic ()\<close> with its message, a
  memory access outside the object the code works on, waiting for a lock that is never
  released.\<close>

datatype fault = Assert_fail | Panic string | Out_of_bounds | Deadlock

type_synonym 'a res = "fault + 'a"

definition res_bind :: "'a res \<Rightarrow> ('a \<Rightarrow> 'b res) \<Rightarrow> 'b res" where
  "res_bind x f = (case x of Inl e \<Rightarrow> Inl e | Inr y \<Rightarrow> f y)"

lemma res_bind_simps [simp]:
  "res_bind (Inl e) f = Inl e"
  "res_bind (Inr y) f = f y"
  by (simp_all add: res_bind_def)

lemma res_bind_Inr_iff: "res_bind x f = Inr z \<longleftrightarrow> (\<exists>y. x = Inr y \<and> f y = Inr z)"
  by (cases x) auto

lemma res_bind_assoc: "res_bind (res_bind x f) g = res_bind x (\<lambda>y. res_bind (f y) g)"
  by (cases x) simp_all

lemma res_bind_cong [fundef_cong]:
  "x = x' \<Longrightarrow> (\<And>y. x' = Inr y \<Longrightarrow> f y = g y) \<Longrightarrow> res_bind x f = res_bind x' g"
  by (cases x') auto

definition assert_res :: "bool \<Rightarrow> unit res" where
  "assert_res b = (if b then Inr () else Inl Assert_fail)"

lemma assert_res_simps [simp]:
  "assert_res True = Inr ()"
  "assert_res False = Inl Assert_fail"
  by (simp_all add: assert_res_def)

lemma assert_res_Inr [simp]: "assert_res b = Inr u \<longleftrightarrow> b"
  by (simp add: assert_res_def)

section \<open>C strings\<close>

type_synonym cstr = "u8 list"

text \<open>The byte a string pointer points at: the NUL at the end of the string.\<close>

definition cur :: "cstr \<Rightarrow> u8" where
  "cur s = (case s of [] \<Rightarrow> 0 | c # _ \<Rightarrow> c)"

lemma cur_simps [simp]: "cur [] = 0" "cur (c # s) = c"
  by (simp_all add: cur_def)

definition cstr_ok :: "cstr \<Rightarrow> bool" where
  "cstr_ok s \<longleftrightarrow> 0 \<notin> set s"

definition bytes :: "string \<Rightarrow> cstr" where
  "bytes s = map (\<lambda>c. word_of_nat (of_char c)) s"

section \<open>Words\<close>

text \<open>The proofs read words as natural numbers, so \<open>int (unat w)\<close> is left as it is.\<close>

declare of_nat_unat [simp del]

lemma word_of_nat_unat [simp]: "(word_of_nat (unat w) :: 'w::len word) = w"
  by (simp add: of_nat_unat)

named_theorems word_unat \<open>facts that move word arithmetic to the naturals\<close>

lemma unat_mult_add_exact [word_unat]:
  fixes a b c :: "'w::len word"
  assumes "unat a * unat b + unat c < 2 ^ LENGTH('w)"
  shows "unat (a * b + c) = unat a * unat b + unat c"
  using assms by (simp add: unat_word_ariths mod_add_left_eq)

lemma unat_add_exact [word_unat]:
  fixes a b :: "'w::len word"
  assumes "unat a + unat b < 2 ^ LENGTH('w)"
  shows "unat (a + b) = unat a + unat b"
  using assms by (simp add: unat_word_ariths)

lemma unat_sub_exact [word_unat]:
  fixes a b :: "'w::len word"
  assumes "b \<le> a"
  shows "unat (a - b) = unat a - unat b"
  using assms by (rule unat_sub)

lemma sint_small:
  fixes w :: "'w::len word"
  assumes "unat w < 2 ^ (LENGTH('w) - Suc 0)"
  shows "sint w = int (unat w)"
proof -
  have "uint w < 2 ^ (LENGTH('w) - Suc 0)"
    using assms by (metis of_nat_less_iff of_nat_numeral of_nat_power uint_nat)
  moreover have "- (2 ^ (LENGTH('w) - Suc 0)) \<le> uint w"
    by (rule order_trans [of _ 0]) simp_all
  ultimately have "signed_take_bit (LENGTH('w) - Suc 0) (uint w) = uint w"
    by (intro signed_take_bit_int_eq_self)
  then show ?thesis by (simp add: sint_uint uint_nat)
qed

lemma unat_ucast_up [simp]:
  "unat (ucast (w :: u8) :: u16) = unat w"
  "unat (ucast (w :: u8) :: u32) = unat w"
  "unat (ucast (w :: u8) :: u64) = unat w"
  "unat (ucast (x :: u16) :: u32) = unat x"
  "unat (ucast (x :: u16) :: u64) = unat x"
  "unat (ucast (y :: u32) :: u64) = unat y"
  by (simp_all add: unsigned_ucast_eq take_bit_nat_eq_self unsigned_less [THEN less_le_trans])

lemma word_eq_of_nat: "unat w = n \<Longrightarrow> w = word_of_nat n"
  by (metis of_nat_unat ucast_id)

lemma unat_u64_less: "unat (w :: u64) < 2 ^ 64"
  using unsigned_less [of w] by simp

lemma unat_u32_less: "unat (w :: u32) < 2 ^ 32"
  using unsigned_less [of w] by simp

lemma unat_of_nat_exact: "n < 2 ^ LENGTH('w) \<Longrightarrow> unat (word_of_nat n :: 'w::len word) = n"
  by (simp add: unat_of_nat)

text \<open>Masks.\<close>

lemma and_not_mask_eq: "w AND NOT (mask n) = push_bit n (drop_bit n (w :: 'w::len word))"
  by (rule bit_eqI) (auto simp: bit_simps)

lemma unat_and_not_mask: "unat (w AND NOT (mask n) :: 'w::len word) = unat w div 2 ^ n * 2 ^ n"
proof -
  have "unat w div 2 ^ n * 2 ^ n \<le> unat w" by simp
  also have "\<dots> < 2 ^ LENGTH('w)" by (rule unsigned_less)
  finally have "unat w div 2 ^ n * 2 ^ n < 2 ^ LENGTH('w)" .
  then show ?thesis
    unfolding and_not_mask_eq unsigned_push_bit_eq
    by (subst unat_drop_bit_eq) (simp add: drop_bit_eq_div push_bit_eq_mult take_bit_nat_eq_self)
qed

lemma unat_and_mask: "unat (w AND mask n :: 'w::len word) = unat w mod 2 ^ n"
  unfolding take_bit_eq_mask [symmetric] unsigned_take_bit_eq by (rule take_bit_eq_mod)

lemma unat_drop_bit: "unat (drop_bit n w :: 'w::len word) = unat w div 2 ^ n"
  by (subst unat_drop_bit_eq) (simp add: drop_bit_eq_div)

lemma unat_push_bit_exact:
  "unat w * 2 ^ n < 2 ^ LENGTH('w) \<Longrightarrow> unat (push_bit n w :: 'w::len word) = unat w * 2 ^ n"
  unfolding unsigned_push_bit_eq by (simp only: push_bit_eq_mult take_bit_nat_eq_self)

lemma unat_ucast_exact:
  "unat w < 2 ^ LENGTH('v) \<Longrightarrow> unat (ucast (w :: 'w::len word) :: 'v::len word) = unat w"
  by (simp add: unsigned_ucast_eq take_bit_nat_eq_self)

end
