(* ===== verification/List1.thy ===== *)
theory List1
  imports Bv_Prelude
begin

text \<open>
  The intrusive lists of \<^verbatim>\<open>include/core/list.h\<close> (\<open>LIST1_*\<close>), which the page
  allocator, the timers, the threads, the messages and the MMIO tables are built on.

  A list element holds two fields: \<open>next\<close>, the element after it, and \<open>pnext\<close>, the
  address of the \<open>next\<close> field that points at it. The list head holds the same two
  fields: \<open>next\<close> is the first element and \<open>pnext\<close> the address of the last \<open>next\<close>
  field. A \<open>cell\<close> names such a pair of fields; the heap gives the two fields of every
  cell.

  The theory shows that the pointer code implements the operations on sequences
  \<open>xs @ [d]\<close>, \<open>d # xs\<close> and \<open>remove1 d xs\<close>, which the other theories use for it.
\<close>

section \<open>The pointer code\<close>

datatype 'a cell = Head | Node 'a

record 'a list1 =
  nxt :: "'a cell \<Rightarrow> 'a option"   \<comment> \<open>\<open>None\<close> is \<open>NULL\<close>\<close>
  pnxt :: "'a cell \<Rightarrow> 'a cell"    \<comment> \<open>the cell whose \<open>next\<close> field is pointed at\<close>

text \<open>The four stores of \<open>list1_insert\<close>, in the order of the source.\<close>

definition list1_insert :: "'a cell \<Rightarrow> 'a \<Rightarrow> 'a option \<Rightarrow> 'a cell \<Rightarrow> 'a list1 \<Rightarrow> 'a list1" where
  "list1_insert p_n d n n_pn h =
     (let h = h\<lparr>nxt := (nxt h)(p_n := Some d)\<rparr>;
          h = h\<lparr>pnxt := (pnxt h)(Node d := p_n)\<rparr>;
          h = h\<lparr>nxt := (nxt h)(Node d := n)\<rparr>
      in h\<lparr>pnxt := (pnxt h)(n_pn := Node d)\<rparr>)"

definition list1_delete :: "'a cell \<Rightarrow> 'a option \<Rightarrow> 'a cell \<Rightarrow> 'a list1 \<Rightarrow> 'a list1" where
  "list1_delete p_n n n_pn h =
     (let h = h\<lparr>nxt := (nxt h)(p_n := n)\<rparr>
      in h\<lparr>pnxt := (pnxt h)(n_pn := p_n)\<rparr>)"

definition list1_head_init :: "'a list1 \<Rightarrow> 'a list1" where
  "list1_head_init h = h\<lparr>pnxt := (pnxt h)(Head := Head), nxt := (nxt h)(Head := None)\<rparr>"

definition list1_nextpnext :: "'a list1 \<Rightarrow> 'a cell \<Rightarrow> 'a cell" where
  "list1_nextpnext h c = (case nxt h c of Some n \<Rightarrow> Node n | None \<Rightarrow> Head)"

definition LIST1_ADD :: "'a \<Rightarrow> 'a list1 \<Rightarrow> 'a list1" where
  "LIST1_ADD d h = list1_insert (pnxt h Head) d None Head h"

definition LIST1_PUSH :: "'a \<Rightarrow> 'a list1 \<Rightarrow> 'a list1" where
  "LIST1_PUSH d h = list1_insert Head d (nxt h Head) (list1_nextpnext h Head) h"

definition LIST1_DEL :: "'a \<Rightarrow> 'a list1 \<Rightarrow> 'a list1" where
  "LIST1_DEL d h =
     list1_delete (pnxt h (Node d)) (nxt h (Node d)) (list1_nextpnext h (Node d)) h"

definition LIST1_POP :: "'a list1 \<Rightarrow> 'a option \<times> 'a list1" where
  "LIST1_POP h = (case nxt h Head of None \<Rightarrow> (None, h) | Some d \<Rightarrow> (Some d, LIST1_DEL d h))"

definition LIST1_INSERT :: "'a option \<Rightarrow> 'a \<Rightarrow> 'a list1 \<Rightarrow> 'a list1" where
  "LIST1_INSERT nextd d h = (case nextd of
       Some n \<Rightarrow> list1_insert (pnxt h (Node n)) d (Some n) (Node n) h
     | None \<Rightarrow> LIST1_ADD d h)"

section \<open>The sequence a heap represents\<close>

text \<open>\<open>chain h p xs\<close>: from the cell \<open>p\<close> on, the \<open>next\<close> fields run through \<open>xs\<close> to
  \<open>NULL\<close>, and each \<open>pnext\<close> field names the cell before it.\<close>

fun chain :: "'a list1 \<Rightarrow> 'a cell \<Rightarrow> 'a list \<Rightarrow> bool" where
  "chain h p [] \<longleftrightarrow> nxt h p = None \<and> pnxt h Head = p"
| "chain h p (x # xs) \<longleftrightarrow> nxt h p = Some x \<and> pnxt h (Node x) = p \<and> chain h (Node x) xs"

definition list1_rep :: "'a list1 \<Rightarrow> 'a list \<Rightarrow> bool" where
  "list1_rep h xs \<longleftrightarrow> distinct xs \<and> chain h Head xs"

text \<open>The cell whose \<open>next\<close> field points behind a sequence.\<close>

definition last_cell :: "'a cell \<Rightarrow> 'a list \<Rightarrow> 'a cell" where
  "last_cell p xs = (if xs = [] then p else Node (last xs))"

lemma last_cell_Cons [simp]: "last_cell p (x # xs) = last_cell (Node x) xs"
  by (simp add: last_cell_def)

lemma last_cell_Nil [simp]: "last_cell p [] = p"
  by (simp add: last_cell_def)

text \<open>A path of cells without a condition on where it ends.\<close>

fun links :: "'a list1 \<Rightarrow> 'a cell \<Rightarrow> 'a list \<Rightarrow> bool" where
  "links h p [] \<longleftrightarrow> True"
| "links h p (x # xs) \<longleftrightarrow> nxt h p = Some x \<and> pnxt h (Node x) = p \<and> links h (Node x) xs"

lemma links_append:
  "links h p (xs @ ys) \<longleftrightarrow> links h p xs \<and> links h (last_cell p xs) ys"
  by (induction xs arbitrary: p) auto

lemma chain_links:
  "chain h p xs \<longleftrightarrow> links h p xs \<and> nxt h (last_cell p xs) = None \<and> pnxt h Head = last_cell p xs"
  by (induction xs arbitrary: p) auto

lemma links_frame:
  assumes "links h p xs" "distinct xs"
    and "\<And>c. c = p \<or> c \<in> Node ` set (butlast xs) \<Longrightarrow> xs \<noteq> [] \<Longrightarrow> nxt h' c = nxt h c"
    and "\<And>x. x \<in> set xs \<Longrightarrow> pnxt h' (Node x) = pnxt h (Node x)"
  shows "links h' p xs"
  using assms
proof (induction xs arbitrary: p)
  case (Cons x xs)
  have "links h' (Node x) xs"
    using Cons.prems by (intro Cons.IH) (auto split: if_splits)
  with Cons.prems show ?case by auto
qed simp

lemma last_cell_mem: "last_cell Head xs = Node d \<Longrightarrow> d \<in> set xs"
  by (auto simp: last_cell_def split: if_splits)

lemma last_cell_fresh: "d \<notin> set xs \<Longrightarrow> last_cell Head xs \<noteq> Node d"
  using last_cell_mem by metis

lemma last_cell_disjoint:
  "set xs \<inter> set ys = {} \<Longrightarrow> c \<in> Node ` set ys \<Longrightarrow> c \<noteq> last_cell Head xs"
  by (auto simp: last_cell_def dest: last_in_set split: if_splits)

lemma butlast_last_cell:
  "distinct xs \<Longrightarrow> xs \<noteq> [] \<Longrightarrow> c = Head \<or> c \<in> Node ` set (butlast xs) \<Longrightarrow> c \<noteq> last_cell Head xs"
  by (cases xs rule: rev_cases) (auto simp: last_cell_def)

lemmas list1_defs = list1_insert_def list1_delete_def Let_def

lemma list1_head_init_rep: "list1_rep (list1_head_init h) []"
  by (simp add: list1_rep_def list1_head_init_def)

lemma list1_rep_unique: "list1_rep h xs \<Longrightarrow> list1_rep h ys \<Longrightarrow> xs = ys"
proof -
  have "chain h p xs \<Longrightarrow> chain h p ys \<Longrightarrow> xs = ys" for p
    by (induction xs arbitrary: p ys; case_tac ys) auto
  then show "list1_rep h xs \<Longrightarrow> list1_rep h ys \<Longrightarrow> xs = ys"
    by (auto simp: list1_rep_def)
qed

text \<open>One lemma for the three insertions: between \<open>xs\<close> and \<open>ys\<close>.\<close>

lemma list1_insert_rep:
  assumes rep: "list1_rep h (xs @ ys)" and d: "d \<notin> set (xs @ ys)"
    and p: "p_n = last_cell Head xs"
    and n: "n = (case ys of [] \<Rightarrow> None | y # _ \<Rightarrow> Some y)"
    and n_pn: "n_pn = (case ys of [] \<Rightarrow> Head | y # _ \<Rightarrow> Node y)"
  shows "list1_rep (list1_insert p_n d n n_pn h) (xs @ d # ys)"
proof -
  let ?h = "list1_insert p_n d n n_pn h"
  have dist: "distinct xs" "distinct ys" "set xs \<inter> set ys = {}" and dx: "d \<notin> set xs" "d \<notin> set ys"
    using rep d by (auto simp: list1_rep_def)
  have l: "links h Head xs" "links h p_n ys"
    and e: "nxt h (last_cell p_n ys) = None" "pnxt h Head = last_cell p_n ys"
    using rep by (auto simp: list1_rep_def chain_links links_append p last_cell_def)
  have pd: "p_n \<noteq> Node d" using dx by (simp add: p last_cell_fresh)
  have 1: "links ?h Head xs"
  proof (rule links_frame [OF l(1) dist(1)])
    fix c assume "c = Head \<or> c \<in> Node ` set (butlast xs)" "xs \<noteq> []"
    then have "c \<noteq> p_n" "c \<noteq> Node d"
      using butlast_last_cell [OF dist(1)] dx p by (auto dest: in_set_butlastD)
    then show "nxt ?h c = nxt h c" by (simp add: list1_defs)
  next
    fix x assume "x \<in> set xs"
    then show "pnxt ?h (Node x) = pnxt h (Node x)"
      using dx dist(3) by (cases ys) (auto simp: list1_defs n_pn)
  qed
  have 2: "links ?h p_n [d]" using pd dx by (auto simp: list1_defs n_pn split: list.splits)
  have 3: "chain ?h (Node d) ys"
  proof (cases ys)
    case Nil
    then show ?thesis by (simp add: list1_defs n n_pn)
  next
    case (Cons y zs)
    have "links h (Node y) zs" using l(2) Cons by simp
    then have "links ?h (Node y) zs"
    proof (rule links_frame)
      show "distinct zs" using dist Cons by simp
    next
      fix c assume "c = Node y \<or> c \<in> Node ` set (butlast zs)" "zs \<noteq> []"
      then have "c \<in> Node ` set ys" using Cons by (auto dest: in_set_butlastD)
      then have "c \<noteq> p_n" "c \<noteq> Node d"
        using last_cell_disjoint [OF dist(3)] dx p by auto
      then show "nxt ?h c = nxt h c" by (simp add: list1_defs)
    next
      fix x assume "x \<in> set zs"
      then show "pnxt ?h (Node x) = pnxt h (Node x)"
        using dx dist(2) Cons by (auto simp: list1_defs n_pn)
    qed
    moreover have "nxt ?h (last_cell (Node y) zs) = None"
    proof -
      have "last_cell (Node y) zs \<in> Node ` set ys" using Cons by (simp add: last_cell_def)
      then have "last_cell (Node y) zs \<noteq> p_n" "last_cell (Node y) zs \<noteq> Node d"
        using last_cell_disjoint [OF dist(3)] dx p by auto
      then show ?thesis using e(1) Cons by (simp add: list1_defs)
    qed
    ultimately show ?thesis
      using e(2) Cons pd dx by (auto simp: chain_links list1_defs n n_pn)
  qed
  show ?thesis
    using 1 2 3 d rep
    by (auto simp: list1_rep_def chain_links links_append p last_cell_def)
qed

text \<open>Deletion of the element between \<open>xs\<close> and \<open>ys\<close>.\<close>

lemma list1_delete_rep:
  assumes rep: "list1_rep h (xs @ d # ys)"
  shows "list1_rep (LIST1_DEL d h) (xs @ ys)"
proof -
  let ?p = "last_cell Head xs" and ?h = "LIST1_DEL d h"
  have dist: "distinct xs" "distinct ys" "set xs \<inter> set ys = {}" and dx: "d \<notin> set xs" "d \<notin> set ys"
    using rep by (auto simp: list1_rep_def)
  have l: "links h Head xs" "links h (Node d) ys" "pnxt h (Node d) = ?p"
    and e: "nxt h (last_cell (Node d) ys) = None" "pnxt h Head = last_cell (Node d) ys"
    using rep by (auto simp: list1_rep_def chain_links links_append last_cell_def)
  have np: "c \<in> Node ` set ys \<Longrightarrow> c \<noteq> ?p" for c
    using last_cell_disjoint [OF dist(3)] by auto
  have hd: "nxt h (Node d) = (case ys of [] \<Rightarrow> None | y # _ \<Rightarrow> Some y)"
    using l(2) e by (cases ys) auto
  have h: "?h = list1_delete ?p (nxt h (Node d)) (case ys of [] \<Rightarrow> Head | y # _ \<Rightarrow> Node y) h"
    using hd by (cases ys) (auto simp: LIST1_DEL_def list1_nextpnext_def l(3))
  have 1: "links ?h Head xs"
  proof (rule links_frame [OF l(1) dist(1)])
    fix c assume "c = Head \<or> c \<in> Node ` set (butlast xs)" "xs \<noteq> []"
    then have "c \<noteq> ?p" using butlast_last_cell [OF dist(1)] by auto
    then show "nxt ?h c = nxt h c" by (simp add: h list1_defs)
  next
    fix x assume "x \<in> set xs"
    then show "pnxt ?h (Node x) = pnxt h (Node x)"
      using dist(3) by (cases ys) (auto simp: h list1_defs)
  qed
  have 2: "chain ?h ?p ys"
  proof (cases ys)
    case Nil
    then show ?thesis using hd by (simp add: h list1_defs)
  next
    case (Cons y zs)
    have "links h (Node y) zs" using l(2) Cons by simp
    then have "links ?h (Node y) zs"
    proof (rule links_frame)
      show "distinct zs" using dist Cons by simp
    next
      fix c assume "c = Node y \<or> c \<in> Node ` set (butlast zs)" "zs \<noteq> []"
      then have "c \<noteq> ?p" using Cons by (intro np) (auto dest: in_set_butlastD)
      then show "nxt ?h c = nxt h c" by (simp add: h list1_defs)
    next
      fix x assume "x \<in> set zs"
      then show "pnxt ?h (Node x) = pnxt h (Node x)"
        using dist(2) Cons by (auto simp: h list1_defs)
    qed
    moreover have "last_cell (Node y) zs \<noteq> ?p" using Cons by (intro np) (simp add: last_cell_def)
    ultimately show ?thesis
      using e hd Cons by (auto simp: chain_links h list1_defs)
  qed
  show ?thesis
    using 1 2 rep by (auto simp: list1_rep_def chain_links links_append last_cell_def)
qed

section \<open>The operations on sequences\<close>

lemma LIST1_ADD_rep:
  assumes "list1_rep h xs" "d \<notin> set xs"
  shows "list1_rep (LIST1_ADD d h) (xs @ [d])"
  using list1_insert_rep [of h xs "[]" d "pnxt h Head" None Head] assms
  by (simp add: LIST1_ADD_def list1_rep_def chain_links)

lemma LIST1_PUSH_rep:
  assumes "list1_rep h xs" "d \<notin> set xs"
  shows "list1_rep (LIST1_PUSH d h) (d # xs)"
proof -
  have "nxt h Head = (case xs of [] \<Rightarrow> None | y # _ \<Rightarrow> Some y)"
    using assms(1) by (cases xs) (auto simp: list1_rep_def)
  then show ?thesis
    using list1_insert_rep [of h "[]" xs d Head] assms
    by (cases xs) (simp_all add: LIST1_PUSH_def list1_nextpnext_def)
qed

lemma LIST1_DEL_rep:
  assumes "list1_rep h xs" "d \<in> set xs"
  shows "list1_rep (LIST1_DEL d h) (remove1 d xs)"
proof -
  obtain ys zs where xs: "xs = ys @ d # zs" "d \<notin> set ys"
    using assms(2) by (meson split_list_first)
  then show ?thesis
    using list1_delete_rep [of h ys d zs] assms(1) by (simp add: remove1_append)
qed

lemma LIST1_POP_rep:
  assumes "list1_rep h xs"
  shows "case LIST1_POP h of (r, h') \<Rightarrow>
           (case xs of [] \<Rightarrow> r = None \<and> h' = h | x # ys \<Rightarrow> r = Some x \<and> list1_rep h' ys)"
proof (cases xs)
  case Nil
  then show ?thesis using assms by (simp add: list1_rep_def LIST1_POP_def)
next
  case (Cons x ys)
  then show ?thesis
    using assms list1_delete_rep [of h "[]" x ys] by (simp add: list1_rep_def LIST1_POP_def)
qed

lemma LIST1_INSERT_rep:
  assumes "list1_rep h (xs @ ys)" "d \<notin> set (xs @ ys)"
    and "nextd = (case ys of [] \<Rightarrow> None | y # _ \<Rightarrow> Some y)"
  shows "list1_rep (LIST1_INSERT nextd d h) (xs @ d # ys)"
proof (cases ys)
  case Nil
  then show ?thesis using assms LIST1_ADD_rep by (simp add: LIST1_INSERT_def)
next
  case (Cons y zs)
  have "pnxt h (Node y) = last_cell Head xs"
    using assms(1) Cons by (auto simp: list1_rep_def chain_links links_append)
  then show ?thesis
    using list1_insert_rep [OF assms(1,2)] assms(3) Cons by (simp add: LIST1_INSERT_def)
qed

section \<open>The interface of the list macros\<close>

text \<open>What the users of the macros rely on: a heap represents one sequence, and each macro
  changes the sequence the way its name says.\<close>

locale intrusive_list =
  fixes rep :: "'h \<Rightarrow> 'a list \<Rightarrow> bool"
    and add :: "'a \<Rightarrow> 'h \<Rightarrow> 'h"
    and push :: "'a \<Rightarrow> 'h \<Rightarrow> 'h"
    and del :: "'a \<Rightarrow> 'h \<Rightarrow> 'h"
    and pop :: "'h \<Rightarrow> 'a option \<times> 'h"
  assumes rep_unique: "rep h xs \<Longrightarrow> rep h ys \<Longrightarrow> xs = ys"
    and rep_add: "rep h xs \<Longrightarrow> d \<notin> set xs \<Longrightarrow> rep (add d h) (xs @ [d])"
    and rep_push: "rep h xs \<Longrightarrow> d \<notin> set xs \<Longrightarrow> rep (push d h) (d # xs)"
    and rep_del: "rep h xs \<Longrightarrow> d \<in> set xs \<Longrightarrow> rep (del d h) (remove1 d xs)"
    and rep_pop_Nil: "rep h [] \<Longrightarrow> pop h = (None, h)"
    and rep_pop_Cons: "rep h (x # xs) \<Longrightarrow> fst (pop h) = Some x \<and> rep (snd (pop h)) xs"
begin

lemma rep_fold_add:
  "rep h xs \<Longrightarrow> distinct (xs @ ds) \<Longrightarrow> rep (fold add ds h) (xs @ ds)"
proof (induction ds arbitrary: h xs)
  case (Cons d ds)
  then show ?case using Cons.IH [of "add d h" "xs @ [d]"] rep_add by auto
qed simp

lemma rep_fold_push:
  "rep h xs \<Longrightarrow> distinct (xs @ ds) \<Longrightarrow> rep (fold push ds h) (rev ds @ xs)"
proof (induction ds arbitrary: h xs)
  case (Cons d ds)
  then show ?case using Cons.IH [of "push d h" "d # xs"] rep_push by auto
qed simp

text \<open>A queue: what is added comes out in the order it went in.\<close>

lemma add_then_pop:
  assumes "rep h xs" "d \<notin> set xs"
  shows "fst (pop (add d h)) = Some (hd (xs @ [d])) \<and> rep (snd (pop (add d h))) (tl (xs @ [d]))"
  using rep_pop_Cons [of "add d h" "hd (xs @ [d])" "tl (xs @ [d])"] rep_add [OF assms]
  by (cases xs) auto

text \<open>A stack: a push is undone by the next pop.\<close>

lemma push_then_pop:
  assumes "rep h xs" "d \<notin> set xs"
  shows "fst (pop (push d h)) = Some d \<and> rep (snd (pop (push d h))) xs"
  using rep_pop_Cons [OF rep_push [OF assms]] .

lemma del_undoes_add:
  assumes "rep h xs" "d \<notin> set xs"
  shows "rep (del d (add d h)) xs"
  using rep_del [OF rep_add [OF assms], of d] assms(2) by (simp add: remove1_append remove1_idem)

end

interpretation LIST1: intrusive_list list1_rep LIST1_ADD LIST1_PUSH LIST1_DEL LIST1_POP
proof unfold_locales
  fix h :: "'a list1" and x :: 'a and xs :: "'a list"
  show "list1_rep h (x # xs) \<Longrightarrow> fst (LIST1_POP h) = Some x \<and> list1_rep (snd (LIST1_POP h)) xs"
    using LIST1_POP_rep [of h "x # xs"] by (auto split: prod.splits)
  show "list1_rep h [] \<Longrightarrow> LIST1_POP h = (None, h)"
    using LIST1_POP_rep [of h "[]"] by (auto split: prod.splits)
qed (simp_all add: LIST1_ADD_rep LIST1_PUSH_rep LIST1_DEL_rep, metis list1_rep_unique)

section \<open>Whole runs\<close>

datatype 'a list_op = Add 'a | Push 'a | Del 'a | Insert "'a option" 'a | Pop

fun heap_op :: "'a list_op \<Rightarrow> 'a list1 \<Rightarrow> 'a option \<times> 'a list1" where
  "heap_op (Add d) h = (None, LIST1_ADD d h)"
| "heap_op (Push d) h = (None, LIST1_PUSH d h)"
| "heap_op (Del d) h = (None, LIST1_DEL d h)"
| "heap_op (Insert n d) h = (None, LIST1_INSERT n d h)"
| "heap_op Pop h = LIST1_POP h"

text \<open>The specification: the same operations on sequences, and when they may be used.\<close>

fun insert_before :: "'a option \<Rightarrow> 'a \<Rightarrow> 'a list \<Rightarrow> 'a list" where
  "insert_before n d [] = [d]"
| "insert_before n d (x # xs) = (if n = Some x then d # x # xs else x # insert_before n d xs)"

fun seq_op :: "'a list_op \<Rightarrow> 'a list \<Rightarrow> 'a option \<times> 'a list" where
  "seq_op (Add d) xs = (None, xs @ [d])"
| "seq_op (Push d) xs = (None, d # xs)"
| "seq_op (Del d) xs = (None, remove1 d xs)"
| "seq_op (Insert n d) xs = (None, insert_before n d xs)"
| "seq_op Pop [] = (None, [])"
| "seq_op Pop (x # xs) = (Some x, xs)"

fun op_ok :: "'a list_op \<Rightarrow> 'a list \<Rightarrow> bool" where
  "op_ok (Add d) xs \<longleftrightarrow> d \<notin> set xs"
| "op_ok (Push d) xs \<longleftrightarrow> d \<notin> set xs"
| "op_ok (Del d) xs \<longleftrightarrow> d \<in> set xs"
| "op_ok (Insert n d) xs \<longleftrightarrow> d \<notin> set xs \<and> (case n of None \<Rightarrow> True | Some x \<Rightarrow> x \<in> set xs)"
| "op_ok Pop xs \<longleftrightarrow> True"

fun run_ops :: "('o \<Rightarrow> 's \<Rightarrow> 'r \<times> 's) \<Rightarrow> 'o list \<Rightarrow> 's \<Rightarrow> 'r list \<times> 's" where
  "run_ops f [] s = ([], s)"
| "run_ops f (p # ps) s = (case f p s of (r, s) \<Rightarrow> case run_ops f ps s of (rs, s) \<Rightarrow> (r # rs, s))"

fun ops_ok :: "'a list_op list \<Rightarrow> 'a list \<Rightarrow> bool" where
  "ops_ok [] xs \<longleftrightarrow> True"
| "ops_ok (p # ps) xs \<longleftrightarrow> op_ok p xs \<and> ops_ok ps (snd (seq_op p xs))"

lemma insert_before_split:
  assumes "case n of None \<Rightarrow> True | Some x \<Rightarrow> x \<in> set zs"
  shows "\<exists>xs ys. zs = xs @ ys \<and> n = (case ys of [] \<Rightarrow> None | y # _ \<Rightarrow> Some y) \<and>
           insert_before n d zs = xs @ d # ys"
  using assms
proof (induction zs)
  case Nil
  then show ?case by (auto split: option.splits)
next
  case (Cons z zs)
  show ?case
  proof (cases "n = Some z")
    case True
    then show ?thesis by (intro exI [of _ "[]"] exI [of _ "z # zs"]) simp
  next
    case False
    then have "case n of None \<Rightarrow> True | Some x \<Rightarrow> x \<in> set zs" using Cons.prems by (auto split: option.splits)
    then obtain xs ys where "zs = xs @ ys" "n = (case ys of [] \<Rightarrow> None | y # _ \<Rightarrow> Some y)"
        "insert_before n d zs = xs @ d # ys"
      using Cons.IH by blast
    then show ?thesis using False by (intro exI [of _ "z # xs"] exI [of _ ys]) simp
  qed
qed

lemma heap_op_refines:
  assumes rep: "list1_rep h xs" and ok: "op_ok p xs"
  shows "fst (heap_op p h) = fst (seq_op p xs) \<and> list1_rep (snd (heap_op p h)) (snd (seq_op p xs))"
proof (cases p)
  case (Insert n d)
  obtain as bs where *: "xs = as @ bs" "n = (case bs of [] \<Rightarrow> None | y # _ \<Rightarrow> Some y)"
      "insert_before n d xs = as @ d # bs"
    using insert_before_split ok Insert by (metis op_ok.simps(4))
  then show ?thesis using LIST1_INSERT_rep [of h as bs d n] rep ok Insert by simp
next
  case Pop
  then show ?thesis
    using rep LIST1.rep_pop_Nil [of h] LIST1.rep_pop_Cons [of h "hd xs" "tl xs"] by (cases xs) auto
qed (use assms in \<open>auto intro: LIST1_ADD_rep LIST1_PUSH_rep LIST1_DEL_rep\<close>)

text \<open>
  C7. The intrusive list is a sequence: for every run of insertions at either end, before an
  element, deletions and pops that uses each element's links in one list at a time, the
  pointer code returns the same elements as the operations on sequences and ends in a heap
  that represents the resulting sequence.
\<close>

theorem list1_refines_sequence:
  assumes "list1_rep h xs" "ops_ok ops xs"
  shows "fst (run_ops heap_op ops h) = fst (run_ops seq_op ops xs) \<and>
         list1_rep (snd (run_ops heap_op ops h)) (snd (run_ops seq_op ops xs))"
  using assms
proof (induction ops arbitrary: h xs)
  case (Cons p ps)
  have p: "fst (heap_op p h) = fst (seq_op p xs)" "list1_rep (snd (heap_op p h)) (snd (seq_op p xs))"
    using heap_op_refines Cons.prems by auto
  moreover have "ops_ok ps (snd (seq_op p xs))" using Cons.prems by simp
  ultimately show ?case
    using Cons.IH [of "snd (heap_op p h)" "snd (seq_op p xs)"] by (simp add: case_prod_beta)
qed simp

theorem list1_refines_sequence_witness:
  "let h = list1_head_init \<lparr>nxt = (\<lambda>_. None), pnxt = (\<lambda>_. Head)\<rparr>;
       ops = [Add (1 :: nat), Push 2, Insert (Some 1) 3, Del 2, Pop, Add 4]
   in fst (run_ops heap_op ops h) = [None, None, None, None, Some 3, None] \<and>
      list1_rep (snd (run_ops heap_op ops h)) [1, 4]"
proof -
  let ?h = "list1_head_init \<lparr>nxt = (\<lambda>_. None), pnxt = (\<lambda>_. Head)\<rparr>"
  let ?ops = "[Add (1 :: nat), Push 2, Insert (Some 1) 3, Del 2, Pop, Add 4]"
  have "ops_ok ?ops []" by simp
  moreover have "run_ops seq_op ?ops [] = ([None, None, None, None, Some 3, None], [1, 4])" by simp
  ultimately show ?thesis
    using list1_refines_sequence [OF list1_head_init_rep, of ?ops "\<lparr>nxt = (\<lambda>_. None), pnxt = (\<lambda>_. Head)\<rparr>"]
    by (simp add: Let_def)
qed

end
