(* ===== verification/Strtol.thy ===== *)
theory Strtol
  imports Bv_Prelude
begin

text \<open>
  Number parsing, \<^verbatim>\<open>core/strtol.c\<close>. The string pointer is the suffix of the
  string that is left to read; reading past the terminating NUL is \<open>Out_of_bounds\<close>. The
  result is the returned bit pattern and the suffix stored through \<open>e\<close>.
\<close>

section \<open>The code\<close>

definition ULONG_MAX :: u64 where "ULONG_MAX = NOT 0"
definition LONG_MAX :: u64 where "LONG_MAX = drop_bit 1 ULONG_MAX"

definition c_isblank :: "u8 \<Rightarrow> bool" where
  "c_isblank c \<longleftrightarrow> c = 0x20 \<or> c = 0x09"

definition c_isspace :: "u8 \<Rightarrow> bool" where
  "c_isspace c \<longleftrightarrow> c_isblank c \<or> c = 0x0C \<or> c = 0x0A \<or> c = 0x0D \<or> c = 0x0B"

text \<open>\<open>digit_to_num\<close>: \<open>n >= base\<close> compares an unsigned with a signed integer, so as
  unsigned; \<open>base < 2 || base > 36\<close> compares signed integers.\<close>

definition digit_to_num :: "u8 \<Rightarrow> u32 \<Rightarrow> u32" where
  "digit_to_num c base =
     (let n = (if 0x30 \<le> c \<and> c \<le> 0x39 then ucast c - 0x30
               else if 0x41 \<le> c \<and> c \<le> 0x5A then ucast c - 0x41 + 10
               else if 0x61 \<le> c \<and> c \<le> 0x7A then ucast c - 0x61 + 10
               else base);
          n = (if base \<le> n then base else n)
      in if sint base < 2 \<or> sint base > 36 then base else n)"

datatype sign = SIGN_NONE | SIGN_PLUS | SIGN_MINUS

text \<open>The digit loop: how it ends (the accumulated value, or the \<open>goto\<close> to
  \<open>overflow_or_underflow\<close>) and the suffix at that point.\<close>

datatype loop_end = Digits u64 | Overflow

fun strtol_loop :: "u32 \<Rightarrow> u64 \<Rightarrow> u64 \<Rightarrow> cstr \<Rightarrow> (loop_end \<times> cstr) res" where
  "strtol_loop base valmax val s =
     (let c = ucast (digit_to_num (cur s) base) in
      if c = scast base then Inr (Digits val, s)
      else if val > valmax div scast base then Inr (Overflow, s)
      else let val = val * scast base + c in
           if val > valmax then Inr (Overflow, s)
           else (case s of [] \<Rightarrow> Inl Out_of_bounds
                 | _ # s' \<Rightarrow> strtol_loop base valmax val s'))"

declare strtol_loop.simps [simp del]

definition strtol_base :: "u32 \<Rightarrow> cstr \<Rightarrow> u32 \<times> cstr" where
  "strtol_base base s =
     (let b = (if cur s = 0x30 then (if cur (tl s) = 0x58 \<or> cur (tl s) = 0x78 then 16 else 8)
               else 10);
          base = (if base = 0 then b else base)
      in (base, if base = 16 \<and> b = 16 then drop 2 s else s))"

definition strtol :: "cstr \<Rightarrow> u32 \<Rightarrow> (u64 \<times> cstr) res" where
  "strtol s base =
     (let s = dropWhile c_isspace s;
          (sign, s, valmax) =
            (if cur s = 0x2B then (SIGN_PLUS, tl s, LONG_MAX)
             else if cur s = 0x2D then (SIGN_MINUS, tl s, LONG_MAX + 1)
             else (SIGN_NONE, s, ULONG_MAX));
          (base, s) = strtol_base base s
      in res_bind (strtol_loop base valmax 0 s) (\<lambda>(r, e).
           Inr (case r of
                  Digits val \<Rightarrow> (if sign = SIGN_MINUS then - val else val, e)
                | Overflow \<Rightarrow> (if sign = SIGN_MINUS then - valmax else valmax, e))))"

definition strtoul :: "cstr \<Rightarrow> u32 \<Rightarrow> (u64 \<times> cstr) res" where
  "strtoul s base = strtol s base"

section \<open>What a numeral denotes\<close>

text \<open>The value of an alphanumeric digit, and of a sequence of digits in a base, over the
  natural numbers.\<close>

definition digit_val :: "u8 \<Rightarrow> nat option" where
  "digit_val c =
     (if 0x30 \<le> c \<and> c \<le> 0x39 then Some (unat c - 48)
      else if 0x41 \<le> c \<and> c \<le> 0x5A then Some (unat c - 55)
      else if 0x61 \<le> c \<and> c \<le> 0x7A then Some (unat c - 87)
      else None)"

definition is_digit :: "nat \<Rightarrow> u8 \<Rightarrow> bool" where
  "is_digit b c \<longleftrightarrow> (case digit_val c of Some d \<Rightarrow> d < b | None \<Rightarrow> False)"

definition numeral_val :: "nat \<Rightarrow> cstr \<Rightarrow> nat" where
  "numeral_val b ds = foldl (\<lambda>v c. v * b + the (digit_val c)) 0 ds"

lemma numeral_val_Nil [simp]: "numeral_val b [] = 0"
  by (simp add: numeral_val_def)

lemma numeral_val_snoc [simp]:
  "numeral_val b (ds @ [c]) = numeral_val b ds * b + the (digit_val c)"
  by (simp add: numeral_val_def)

lemma numeral_val_mono:
  assumes "0 < b"
  shows "numeral_val b ds \<le> numeral_val b (ds @ es)"
proof (induction es rule: rev_induct)
  case (snoc e es)
  have "numeral_val b (ds @ es) \<le> numeral_val b (ds @ es) * b" using assms by simp
  also have "\<dots> \<le> numeral_val b ((ds @ es) @ [e])" by (simp only: numeral_val_snoc)
  finally show ?case using snoc by simp
qed simp

section \<open>The digit loop computes the numeral\<close>

lemma small_base:
  fixes base :: u32
  assumes "unat base \<le> 36"
  shows "sint base = int (unat base)" "(scast base :: u64) = ucast base"
proof -
  show u: "sint base = int (unat base)" by (rule sint_small) (use assms in simp)
  then show "(scast base :: u64) = ucast base"
    by (simp only: scast_eq ucast_eq uint_nat)
qed

lemma digit_to_num_eq:
  assumes b: "2 \<le> unat base" "unat base \<le> 36"
  shows "unat (digit_to_num c base) =
           (if is_digit (unat base) c then the (digit_val c) else unat base)"
proof -
  have s: "\<not> sint base < 2" "\<not> 36 < sint base" using small_base(1) [OF b(2)] b by linarith+
  have 1: "unat (ucast c - 0x30 :: u32) = unat c - 48" if "0x30 \<le> unat c"
    using that by (subst unat_sub) (simp_all add: word_le_nat_alt)
  have 2: "unat (ucast c - 0x41 + 10 :: u32) = unat c - 55" if "0x41 \<le> unat c" "unat c \<le> 0x5A"
    using that by (subst unat_add_exact; subst unat_sub) (simp_all add: word_le_nat_alt)
  have 3: "unat (ucast c - 0x61 + 10 :: u32) = unat c - 87" if "0x61 \<le> unat c" "unat c \<le> 0x7A"
    using that by (subst unat_add_exact; subst unat_sub) (simp_all add: word_le_nat_alt)
  show ?thesis
    unfolding digit_to_num_def digit_val_def is_digit_def Let_def
    using 1 2 3 s by (simp add: word_le_nat_alt del: diff_add_eq)
qed

lemma loop_stop:
  assumes b: "2 \<le> unat base" "unat base \<le> 36" and "\<not> is_digit (unat base) (cur s)"
  shows "strtol_loop base valmax val s = Inr (Digits val, s)"
proof -
  have "digit_to_num (cur s) base = base"
    using digit_to_num_eq [OF b, of "cur s"] assms(3) by (simp add: word_unat_eq_iff)
  then show ?thesis
    by (simp add: strtol_loop.simps [of _ _ _ s] small_base(2) [OF b(2)])
qed

lemma loop_digit:
  assumes b: "2 \<le> unat base" "unat base \<le> 36" and dig: "is_digit (unat base) c"
    and d: "d = the (digit_val c)"
    and wrap: "unat val \<le> unat valmax div unat base \<Longrightarrow> unat val * unat base + d < 2 ^ 64"
  shows "strtol_loop base valmax val (c # s) =
           (if unat val * unat base + d \<le> unat valmax
            then strtol_loop base valmax (word_of_nat (unat val * unat base + d)) s
            else Inr (Overflow, c # s))"
proof -
  let ?c = "ucast (digit_to_num c base) :: u64" and ?B = "scast base :: u64"
  have c: "unat ?c = d" "d < unat base"
    using digit_to_num_eq [OF b, of c] dig d by (auto simp: is_digit_def split: option.splits)
  have B: "unat ?B = unat base" by (simp add: small_base(2) [OF b(2)])
  have ne: "?c \<noteq> ?B" using c B by (metis less_irrefl)
  have q: "valmax div ?B < val \<longleftrightarrow> unat valmax div unat base < unat val"
    by (simp add: word_less_nat_alt unat_div B)
  show ?thesis
  proof (cases "unat valmax div unat base < unat val")
    case True
    then have "unat valmax < unat val * unat base"
      using b by (simp add: div_less_iff_less_mult)
    then show ?thesis using True ne q by (simp add: strtol_loop.simps [of _ _ _ "c # s"] Let_def)
  next
    case False
    then have nw: "unat val * unat base + d < 2 ^ 64" using wrap by simp
    have v: "unat (val * ?B + ?c) = unat val * unat base + d"
      by (subst unat_mult_add_exact) (use nw B c in simp_all)
    have w: "val * ?B + ?c = word_of_nat (unat val * unat base + d)"
      by (rule word_eq_of_nat [OF v])
    show ?thesis
      unfolding w [symmetric] using False ne q v
      by (simp add: strtol_loop.simps [of _ _ _ "c # s"] Let_def word_less_nat_alt not_less)
  qed
qed

text \<open>Any numeral that fits is read exactly, with the pointer behind it.\<close>

lemma loop_exact:
  assumes b: "2 \<le> unat base" "unat base \<le> 36"
    and "\<forall>c \<in> set ds. is_digit (unat base) c" "\<not> is_digit (unat base) (cur rest)"
    and "unat val = numeral_val (unat base) pre"
    and "numeral_val (unat base) (pre @ ds) \<le> unat valmax"
  shows "strtol_loop base valmax val (ds @ rest) =
           Inr (Digits (word_of_nat (numeral_val (unat base) (pre @ ds))), rest)"
  using assms(3-)
proof (induction ds arbitrary: val pre)
  case Nil
  then have "val = word_of_nat (numeral_val (unat base) pre)" by (intro word_eq_of_nat)
  with Nil show ?case by (simp add: loop_stop [OF b])
next
  case (Cons c ds)
  let ?b = "unat base" and ?d = "the (digit_val c)"
  have step: "unat val * ?b + ?d = numeral_val ?b (pre @ [c])" using Cons.prems by simp
  have le: "numeral_val ?b (pre @ [c]) \<le> unat valmax"
    using numeral_val_mono [of ?b "pre @ [c]" ds] Cons.prems(4) b by simp
  then have nw: "numeral_val ?b (pre @ [c]) < 2 ^ 64"
    using unat_u64_less [of valmax] by simp
  have "strtol_loop base valmax val (c # (ds @ rest)) =
        strtol_loop base valmax (word_of_nat (numeral_val ?b (pre @ [c]))) (ds @ rest)"
    using loop_digit [OF b, of c ?d val valmax "ds @ rest"] Cons.prems(1) nw le by (simp add: step)
  also have "\<dots> = Inr (Digits (word_of_nat (numeral_val ?b ((pre @ [c]) @ ds))), rest)"
    using Cons.prems unat_of_nat_exact [where 'w = 64] nw by (intro Cons.IH) (simp_all del: numeral_val_snoc)
  finally show ?case by simp
qed

text \<open>With a signed limit a numeral that does not fit is always caught: the product and the
  sum of the loop body stay below \<open>2 ^ 64\<close>.\<close>

lemma loop_overflow:
  assumes b: "2 \<le> unat base" "unat base \<le> 36"
    and "\<forall>c \<in> set ds. is_digit (unat base) c"
    and "unat val = numeral_val (unat base) pre" "unat val \<le> unat valmax"
    and "unat valmax < numeral_val (unat base) (pre @ ds)" and vm: "unat valmax \<le> 2 ^ 63"
  shows "\<exists>e. strtol_loop base valmax val (ds @ rest) = Inr (Overflow, e)"
  using assms(3-6)
proof (induction ds arbitrary: val pre)
  case Nil
  then show ?case by simp
next
  case (Cons c ds)
  let ?b = "unat base" and ?d = "the (digit_val c)"
  have step: "unat val * ?b + ?d = numeral_val ?b (pre @ [c])" using Cons.prems by simp
  have dlt: "?d < ?b" using Cons.prems(1) by (auto simp: is_digit_def split: option.splits)
  have "unat val * ?b + ?d < 2 ^ 64" if "unat val \<le> unat valmax div ?b"
  proof -
    have "unat val * ?b \<le> unat valmax" using that b by (simp add: less_eq_div_iff_mult_less_eq)
    then show ?thesis using vm dlt b by simp
  qed
  note eq = loop_digit [OF b, of c ?d val valmax "ds @ rest", OF _ refl this]
  show ?case
  proof (cases "numeral_val ?b (pre @ [c]) \<le> unat valmax")
    case True
    then have nw: "numeral_val ?b (pre @ [c]) < 2 ^ 64"
      using unat_u64_less [of valmax] by simp
    have "\<exists>e. strtol_loop base valmax (word_of_nat (numeral_val ?b (pre @ [c]))) (ds @ rest) = Inr (Overflow, e)"
      using Cons.prems True unat_of_nat_exact [where 'w = 64] nw
      by (intro Cons.IH [of _ "pre @ [c]"]) (simp_all del: numeral_val_snoc)
    then show ?thesis using eq True Cons.prems(1) by (simp add: step)
  next
    case False
    then show ?thesis using eq Cons.prems(1) by (simp add: step)
  qed
qed

section \<open>The whole function\<close>

lemma unat_limits: "unat LONG_MAX = 2 ^ 63 - 1" "unat (LONG_MAX + 1) = 2 ^ 63" "unat ULONG_MAX = 2 ^ 64 - 1"
  by (simp_all add: LONG_MAX_def ULONG_MAX_def mask_eq_exp_minus_1 unsigned_minus_1_eq_mask)

definition sign_chars :: "sign \<Rightarrow> cstr" where
  "sign_chars sg = (case sg of SIGN_NONE \<Rightarrow> [] | SIGN_PLUS \<Rightarrow> [0x2B] | SIGN_MINUS \<Rightarrow> [0x2D])"

definition sign_limit :: "sign \<Rightarrow> u64" where
  "sign_limit sg = (case sg of SIGN_NONE \<Rightarrow> ULONG_MAX | SIGN_PLUS \<Rightarrow> LONG_MAX | SIGN_MINUS \<Rightarrow> LONG_MAX + 1)"

lemma is_digit_not_special:
  assumes "is_digit b c"
  shows "\<not> c_isspace c" "c \<noteq> 0x2B" "c \<noteq> 0x2D" "c \<noteq> 0"
  using assms by (auto simp: is_digit_def digit_val_def c_isspace_def c_isblank_def)

lemma strtol_base_plain:
  assumes "ds \<noteq> []" "unat base \<noteq> 0" "\<forall>c \<in> set ds. is_digit (unat base) c"
    and "\<not> (base = 16 \<and> ds = [0x30] \<and> (cur rest = 0x58 \<or> cur rest = 0x78))"
  shows "strtol_base base (ds @ rest) = (base, ds @ rest)"
proof -
  have x: "\<not> is_digit 16 0x58" "\<not> is_digit 16 0x78" by (simp_all add: is_digit_def digit_val_def)
  obtain c ds' where ds: "ds = c # ds'" using assms(1) by (cases ds) auto
  have nz: "base \<noteq> 0" using assms(2) by auto
  show ?thesis
  proof (cases "base = 16")
    case True
    then show ?thesis using assms x nz ds
      by (cases ds') (auto simp: strtol_base_def Let_def)
  next
    case False
    then show ?thesis using nz by (simp add: strtol_base_def Let_def)
  qed
qed

text \<open>Behind white space and a sign the function is its digit loop.\<close>

lemma strtol_to_loop:
  assumes "\<forall>c \<in> set sp. c_isspace c" "ds \<noteq> []" "unat base \<noteq> 0"
    and "\<forall>c \<in> set ds. is_digit (unat base) c"
    and "\<not> (base = 16 \<and> ds = [0x30] \<and> (cur rest = 0x58 \<or> cur rest = 0x78))"
  shows "strtol (sp @ sign_chars sg @ ds @ rest) base =
           res_bind (strtol_loop base (sign_limit sg) 0 (ds @ rest)) (\<lambda>(r, e).
             Inr (case r of Digits val \<Rightarrow> (if sg = SIGN_MINUS then - val else val, e)
                  | Overflow \<Rightarrow> (if sg = SIGN_MINUS then - sign_limit sg else sign_limit sg, e)))"
proof -
  obtain c ds' where ds: "ds = c # ds'" using assms(2) by (cases ds) auto
  have c: "\<not> c_isspace c" "c \<noteq> 0x2B" "c \<noteq> 0x2D" using is_digit_not_special [of "unat base" c] assms(4) ds by auto
  have sp: "dropWhile c_isspace (sp @ xs) = dropWhile c_isspace xs" for xs
    using assms(1) by simp
  have nsp: "\<not> c_isspace 0x2B" "\<not> c_isspace 0x2D" by (simp_all add: c_isspace_def c_isblank_def)
  have drp: "dropWhile c_isspace (sign_chars sg @ ds @ rest) = sign_chars sg @ ds @ rest"
    using c nsp ds by (cases sg) (simp_all add: sign_chars_def)
  show ?thesis
    unfolding strtol_def sp drp
    using strtol_base_plain [OF assms(2-5)] c ds
    by (cases sg) (simp_all add: sign_chars_def sign_limit_def cong: loop_end.case_cong)
qed

text \<open>
  The value \<open>strtol\<close> is specified to return for a signed numeral: the number, or the limit
  of \<open>long\<close> on its side when it does not fit.
\<close>

definition signed_value :: "sign \<Rightarrow> nat \<Rightarrow> int" where
  "signed_value sg n =
     (if sg = SIGN_MINUS then - int (min n (2 ^ 63)) else int (min n (2 ^ 63 - 1)))"

lemma sint_minus_limited:
  fixes w :: u64
  assumes "unat w \<le> 2 ^ 63"
  shows "sint (- w) = - int (unat w)"
proof (cases "unat w = 2 ^ 63")
  case True
  then have w: "w = word_of_nat (2 ^ 63)" by (rule word_eq_of_nat)
  show ?thesis unfolding w by simp
next
  case False
  then have lt: "unat w < 2 ^ 63" using assms by simp
  then have s: "sint w = int (unat w)" by (intro sint_small) simp
  then have "signed_take_bit 63 (- sint w) = - sint w"
    using lt by (intro signed_take_bit_int_eq_self) simp_all
  then show ?thesis using s by (simp add: sint_word_minus)
qed

text \<open>
  C8. A signed numeral is read with saturation. For white space, a sign \<open>+\<close> or \<open>-\<close> and
  one or more digits of a base from 2 to 36, followed by anything that is not a digit,
  \<open>strtol\<close> returns the number when it fits in a \<open>long\<close> and the limit of \<open>long\<close> on its
  side otherwise; when it fits, the end pointer is left behind the last digit. (For base 16 a
  lone \<open>0\<close> followed by \<open>x\<close> is the prefix and is excluded.)
\<close>

theorem strtol_signed_saturates:
  assumes "\<forall>c \<in> set sp. c_isspace c" "ds \<noteq> []" "2 \<le> unat base" "unat base \<le> 36"
    and "\<forall>c \<in> set ds. is_digit (unat base) c" "\<not> is_digit (unat base) (cur rest)"
    and "\<not> (base = 16 \<and> ds = [0x30] \<and> (cur rest = 0x58 \<or> cur rest = 0x78))"
    and "sg \<noteq> SIGN_NONE"
  shows "\<exists>r e. strtol (sp @ sign_chars sg @ ds @ rest) base = Inr (r, e) \<and>
               sint r = signed_value sg (numeral_val (unat base) ds) \<and>
               (numeral_val (unat base) ds \<le> unat (sign_limit sg) \<longrightarrow> e = rest)"
proof -
  let ?V = "numeral_val (unat base) ds" and ?L = "sign_limit sg"
  have L: "unat ?L = (if sg = SIGN_MINUS then 2 ^ 63 else 2 ^ 63 - 1)"
    using assms(8) by (cases sg) (simp_all add: sign_limit_def unat_limits)
  note eq = strtol_to_loop [OF assms(1,2) _ assms(5,7), of sg]
  show ?thesis
  proof (cases "?V \<le> unat ?L")
    case True
    then have "strtol_loop base ?L 0 (ds @ rest) = Inr (Digits (word_of_nat ?V), rest)"
      using loop_exact [OF assms(3-6), of 0 "[]" ?L] by simp
    moreover have u: "unat (word_of_nat ?V :: u64) = ?V"
      using True L by (intro unat_of_nat_exact) (simp split: if_splits)
    moreover have "sint (- (word_of_nat ?V) :: u64) = - int ?V" if "sg = SIGN_MINUS"
      using sint_minus_limited [of "word_of_nat ?V"] u True L that by simp
    moreover have "sint (word_of_nat ?V :: u64) = int ?V" if "sg = SIGN_PLUS"
      using sint_small [of "word_of_nat ?V :: u64"] u True L that by simp
    ultimately show ?thesis
      using eq assms(3,8) True L by (cases sg) (simp_all add: signed_value_def)
  next
    case False
    then obtain e where "strtol_loop base ?L 0 (ds @ rest) = Inr (Overflow, e)"
      using loop_overflow [OF assms(3-5), of 0 "[]" ?L rest] L by (auto split: if_splits)
    moreover have "sint (- ?L) = - int (unat ?L)" if "sg = SIGN_MINUS"
      using sint_minus_limited [of ?L] L that by simp
    moreover have "sint ?L = int (unat ?L)" if "sg = SIGN_PLUS"
      using sint_small [of ?L] L that by simp
    ultimately show ?thesis
      using eq assms(3,8) False L by (cases sg) (simp_all add: signed_value_def)
  qed
qed

theorem strtol_signed_saturates_witness:
  "\<exists>r e. strtol ([0x20] @ sign_chars SIGN_MINUS @ [0x31, 0x32] @ [0x78]) 10 = Inr (r, e) \<and>
         sint r = - 12 \<and> e = [0x78]"
  using strtol_signed_saturates [of "[0x20]" "[0x31, 0x32]" 10 "[0x78]" SIGN_MINUS]
  by (simp add: c_isspace_def c_isblank_def is_digit_def digit_val_def numeral_val_def
      signed_value_def sign_limit_def unat_limits)

text \<open>
  C9. A numeral without a sign that fits in an \<open>unsigned long\<close> is read exactly by
  \<open>strtoul\<close>, and the end pointer is left behind its last digit.
\<close>

theorem strtoul_exact:
  assumes "\<forall>c \<in> set sp. c_isspace c" "ds \<noteq> []" "2 \<le> unat base" "unat base \<le> 36"
    and "\<forall>c \<in> set ds. is_digit (unat base) c" "\<not> is_digit (unat base) (cur rest)"
    and "\<not> (base = 16 \<and> ds = [0x30] \<and> (cur rest = 0x58 \<or> cur rest = 0x78))"
    and "numeral_val (unat base) ds < 2 ^ 64"
  shows "strtoul (sp @ ds @ rest) base = Inr (word_of_nat (numeral_val (unat base) ds), rest)"
proof -
  have "strtol_loop base ULONG_MAX 0 (ds @ rest) =
          Inr (Digits (word_of_nat (numeral_val (unat base) ds)), rest)"
    using loop_exact [OF assms(3-6), of 0 "[]" ULONG_MAX] assms(8) by (simp add: unat_limits)
  then show ?thesis
    using strtol_to_loop [OF assms(1,2) _ assms(5,7), of SIGN_NONE] assms(3)
    by (simp add: strtoul_def sign_chars_def sign_limit_def)
qed

theorem strtoul_exact_witness:
  "strtoul ([] @ [0x66, 0x46] @ []) 16 = Inr (255, [])"
  using strtoul_exact [of "[]" "[0x66, 0x46]" 16 "[]"]
  by (simp add: is_digit_def digit_val_def numeral_val_def)


end
