(* ===== verification/CString.thy ===== *)
theory CString
  imports Bv_Prelude
begin

text \<open>
  The memory and string routines of \<^verbatim>\<open>core/string.c\<close>. Memory is a function from
  addresses to bytes; an address is a natural number. The routines work a byte at a time up
  to an aligned address, then \<open>UL_LEN\<close> bytes at a time through \<open>unsigned long\<close> accesses
  (little endian, 8 bytes), then a byte at a time for the rest. The theory shows that each
  optimised routine computes the byte-wise reference definition \<open>moved\<close>, \<open>filled\<close> or
  first-occurrence search, for overlapping and unaligned arguments too.
\<close>

section \<open>Memory and unsigned long accesses\<close>

type_synonym mem = "nat \<Rightarrow> u8"

abbreviation UL_LEN :: nat where "UL_LEN \<equiv> 8"

definition ADDR_LOW_UL_RESIDUE :: "nat \<Rightarrow> nat" where
  "ADDR_LOW_UL_RESIDUE addr = addr mod UL_LEN"

fun load_le :: "mem \<Rightarrow> nat \<Rightarrow> nat \<Rightarrow> u64" where
  "load_le m a 0 = 0"
| "load_le m a (Suc n) = ucast (m a) OR push_bit 8 (load_le m (Suc a) n)"

fun store_le :: "mem \<Rightarrow> nat \<Rightarrow> nat \<Rightarrow> u64 \<Rightarrow> mem" where
  "store_le m a 0 v = m"
| "store_le m a (Suc n) v = store_le (m(a := ucast v)) (Suc a) n (drop_bit 8 v)"

definition load_ul :: "mem \<Rightarrow> nat \<Rightarrow> u64" where
  "load_ul m a = load_le m a UL_LEN"

definition store_ul :: "mem \<Rightarrow> nat \<Rightarrow> u64 \<Rightarrow> mem" where
  "store_ul m a v = store_le m a UL_LEN v"

section \<open>The routines\<close>

text \<open>The byte loops \<open>*p++ = val\<close> and \<open>*p++ = *q++\<close>, and the \<open>unsigned long\<close> loops; the
  backward loops take the ends of the regions.\<close>

fun fill_bytes :: "nat \<Rightarrow> u8 \<Rightarrow> mem \<times> nat \<Rightarrow> mem \<times> nat" where
  "fill_bytes 0 v (m, p) = (m, p)"
| "fill_bytes (Suc i) v (m, p) = fill_bytes i v (m(p := v), p + 1)"

fun fill_ul :: "nat \<Rightarrow> u64 \<Rightarrow> mem \<times> nat \<Rightarrow> mem \<times> nat" where
  "fill_ul 0 v (m, p) = (m, p)"
| "fill_ul (Suc i) v (m, p) = fill_ul i v (store_ul m p v, p + UL_LEN)"

fun copy_bytes :: "nat \<Rightarrow> mem \<times> nat \<times> nat \<Rightarrow> mem \<times> nat \<times> nat" where
  "copy_bytes 0 (m, p, q) = (m, p, q)"
| "copy_bytes (Suc i) (m, p, q) = copy_bytes i (m(p := m q), p + 1, q + 1)"

fun copy_ul :: "nat \<Rightarrow> mem \<times> nat \<times> nat \<Rightarrow> mem \<times> nat \<times> nat" where
  "copy_ul 0 (m, p, q) = (m, p, q)"
| "copy_ul (Suc i) (m, p, q) = copy_ul i (store_ul m p (load_ul m q), p + UL_LEN, q + UL_LEN)"

fun copy_bytes_back :: "nat \<Rightarrow> mem \<times> nat \<times> nat \<Rightarrow> mem \<times> nat \<times> nat" where
  "copy_bytes_back 0 (m, p, q) = (m, p, q)"
| "copy_bytes_back (Suc i) (m, p, q) = copy_bytes_back i (m(p - 1 := m (q - 1)), p - 1, q - 1)"

fun copy_ul_back :: "nat \<Rightarrow> mem \<times> nat \<times> nat \<Rightarrow> mem \<times> nat \<times> nat" where
  "copy_ul_back 0 (m, p, q) = (m, p, q)"
| "copy_ul_back (Suc i) (m, p, q) =
     copy_ul_back i (store_ul m (p - UL_LEN) (load_ul m (q - UL_LEN)), p - UL_LEN, q - UL_LEN)"

definition memset :: "mem \<Rightarrow> nat \<Rightarrow> u8 \<Rightarrow> nat \<Rightarrow> mem" where
  "memset m addr val len =
     (if len = 0 then m else
      let residue = ADDR_LOW_UL_RESIDUE addr;
          j = (if residue \<noteq> 0 then min (UL_LEN - residue) len else 0);
          (m, p) = fill_bytes j val (m, addr);
          len = len - j;
          v = ucast val * 0x0101010101010101;
          j = len div UL_LEN;
          (m, p) = fill_ul j v (m, p);
          len = len - j * UL_LEN;
          (m, p) = fill_bytes len val (m, p)
      in m)"

definition memcpy :: "mem \<Rightarrow> nat \<Rightarrow> nat \<Rightarrow> nat \<Rightarrow> mem" where
  "memcpy m dest src len =
     (if src = dest \<or> len = 0 then m else
      let residue = ADDR_LOW_UL_RESIDUE src;
          j = (if residue \<noteq> 0 \<and> residue = ADDR_LOW_UL_RESIDUE dest
               then min (UL_LEN - residue) len else 0);
          (m, p, q) = copy_bytes j (m, dest, src);
          len = len - j;
          j = len div UL_LEN;
          (m, p, q) = copy_ul j (m, p, q);
          len = len - j * UL_LEN;
          (m, p, q) = copy_bytes len (m, p, q)
      in m)"

definition memmove :: "mem \<Rightarrow> nat \<Rightarrow> nat \<Rightarrow> nat \<Rightarrow> mem" where
  "memmove m dest src len =
     (if src = dest \<or> len = 0 then m
      else if src > dest \<or> src + len \<le> dest then memcpy m dest src len
      else
      let residue = ADDR_LOW_UL_RESIDUE src;
          j = (if residue \<noteq> 0 \<and> residue = ADDR_LOW_UL_RESIDUE dest
               then min (residue + 1) len else 0);
          (m, p, q) = copy_bytes_back j (m, dest + len, src + len);
          len = len - j;
          j = len div UL_LEN;
          (m, p, q) = copy_ul_back j (m, p, q);
          len = len - j * UL_LEN;
          (m, p, q) = copy_bytes_back len (m, p, q)
      in m)"

text \<open>Searching: \<open>None\<close> is \<open>NULL\<close>. The byte loop returns the address of a match, or where
  the search goes on.\<close>

fun scan_bytes :: "mem \<Rightarrow> u8 \<Rightarrow> nat \<Rightarrow> nat \<Rightarrow> nat option" where
  "scan_bytes m uc 0 s = None"
| "scan_bytes m uc (Suc i) s = (if m s = uc then Some s else scan_bytes m uc i (s + 1))"

text \<open>One \<open>unsigned long\<close>: its bytes from the low end, shifted out one by one.\<close>

fun scan_val :: "u64 \<Rightarrow> u8 \<Rightarrow> nat \<Rightarrow> nat \<Rightarrow> nat option" where
  "scan_val val uc 0 s = None"
| "scan_val val uc (Suc k) s =
     (if val AND 0xFF = ucast uc then Some s else scan_val (drop_bit 8 val) uc k (s + 1))"

fun scan_ul :: "mem \<Rightarrow> u8 \<Rightarrow> nat \<Rightarrow> nat \<Rightarrow> nat option" where
  "scan_ul m uc 0 s = None"
| "scan_ul m uc (Suc i) s =
     (case scan_val (load_ul m s) uc UL_LEN s of
        Some a \<Rightarrow> Some a
      | None \<Rightarrow> scan_ul m uc i (s + UL_LEN))"

definition memchr :: "mem \<Rightarrow> nat \<Rightarrow> u8 \<Rightarrow> nat \<Rightarrow> nat option" where
  "memchr m src uc len =
     (let residue = ADDR_LOW_UL_RESIDUE src;
          residue = (if residue > len then len else residue)
      in case scan_bytes m uc residue src of
           Some a \<Rightarrow> Some a
         | None \<Rightarrow>
            (let s = src + residue;
                 len = len - residue;
                 j = len div UL_LEN
             in case scan_ul m uc j s of
                  Some a \<Rightarrow> Some a
                | None \<Rightarrow> scan_bytes m uc (len - j * UL_LEN) (s + j * UL_LEN)))"

definition strnlen :: "mem \<Rightarrow> nat \<Rightarrow> nat \<Rightarrow> nat" where
  "strnlen m p max_len = (case memchr m p 0 max_len of Some q \<Rightarrow> q - p | None \<Rightarrow> max_len)"

text \<open>The comparisons return an \<open>int\<close>: the difference of two bytes. \<open>memcmp\<close> reads its two
  operands by index.\<close>

fun memcmp_loop :: "(nat \<Rightarrow> u8) \<Rightarrow> (nat \<Rightarrow> u8) \<Rightarrow> nat \<Rightarrow> nat \<Rightarrow> int" where
  "memcmp_loop q1 q2 i 0 = 0"
| "memcmp_loop q1 q2 i (Suc n) =
     (let r = uint (q1 i) - uint (q2 i) in if r \<noteq> 0 then r else memcmp_loop q1 q2 (i + 1) n)"

definition memcmp :: "(nat \<Rightarrow> u8) \<Rightarrow> (nat \<Rightarrow> u8) \<Rightarrow> nat \<Rightarrow> int" where
  "memcmp q1 q2 len = memcmp_loop q1 q2 0 len"

function strcmp :: "cstr \<Rightarrow> cstr \<Rightarrow> int" where
  "strcmp s1 s2 =
     (let c1 = cur s1; c2 = cur s2; r = uint c1 - uint c2
      in if r = 0 \<and> c1 \<noteq> 0 then strcmp (tl s1) (tl s2) else r)"
  by pat_completeness auto
termination by (relation "measure (\<lambda>(s1, s2). length s1)") (auto simp: cur_def split: list.splits)

declare strcmp.simps [simp del]

function strncmp_loop :: "cstr \<Rightarrow> cstr \<Rightarrow> nat \<Rightarrow> int" where
  "strncmp_loop s1 s2 len =
     (let c1 = cur s1; c2 = cur s2; r = uint c1 - uint c2
      in if r = 0 \<and> c1 \<noteq> 0 \<and> len - 1 > 0 then strncmp_loop (tl s1) (tl s2) (len - 1) else r)"
  by pat_completeness auto
termination by (relation "measure (\<lambda>(s1, s2, len). len)") auto

declare strncmp_loop.simps [simp del]

definition strncmp :: "cstr \<Rightarrow> cstr \<Rightarrow> nat \<Rightarrow> int" where
  "strncmp s1 s2 len = (if len = 0 then 0 else strncmp_loop s1 s2 len)"

function strlen :: "cstr \<Rightarrow> nat" where
  "strlen p = (if cur p \<noteq> 0 then Suc (strlen (tl p)) else 0)"
  by pat_completeness auto
termination by (relation "measure length") (auto simp: cur_def split: list.splits)

declare strlen.simps [simp del]

text \<open>\<open>strrchr\<close>: the suffix at the last match, the terminating NUL included.\<close>

fun strrchr_loop :: "cstr \<Rightarrow> u8 \<Rightarrow> cstr option \<Rightarrow> cstr option" where
  "strrchr_loop [] c ret = (if 0 = c then Some [] else ret)"
| "strrchr_loop (x # s) c ret =
     (let ret = (if x = c then Some (x # s) else ret)
      in if x = 0 then ret else strrchr_loop s c ret)"

definition strrchr :: "cstr \<Rightarrow> u8 \<Rightarrow> cstr option" where
  "strrchr s c = strrchr_loop s c None"

section \<open>Bytes of words\<close>

lemma bit_load_le:
  "n \<le> 8 \<Longrightarrow> bit (load_le m a n) k \<longleftrightarrow> k < 8 * n \<and> bit (m (a + k div 8)) (k mod 8)"
proof (induction n arbitrary: a k)
  case (Suc n)
  show ?case
  proof (cases "k < 8")
    case True
    then show ?thesis by (simp add: bit_simps)
  next
    case False
    then obtain j where k: "k = 8 + j" by (metis le_add_diff_inverse not_less)
    have "bit (load_le m a (Suc n)) k \<longleftrightarrow> j < 56 \<and> bit (load_le m (Suc a) n) j"
      by (auto simp: bit_simps k dest: bit_imp_le_length)
    moreover have "(8 + j) div 8 = Suc (j div 8)" "(8 + j) mod 8 = j mod 8" by simp_all
    ultimately show ?thesis using Suc by (auto simp: k)
  qed
qed simp

lemma byte_load_ul: "i < 8 \<Longrightarrow> ucast (drop_bit (8 * i) (load_ul m a)) = m (a + i)"
  by (rule bit_eqI) (auto simp: load_ul_def bit_load_le bit_simps)

lemma store_le_at:
  "store_le m a n v x = (if a \<le> x \<and> x < a + n then ucast (drop_bit (8 * (x - a)) v) else m x)"
proof (induction n arbitrary: m a v)
  case (Suc n)
  have e: "8 * (x - a) = 8 * (x - Suc a) + 8" if "Suc a \<le> x" using that by simp
  show ?case by (auto simp: Suc drop_bit_drop_bit e)
qed auto

section \<open>Copying\<close>

text \<open>The reference definition: the bytes of the source as they were before the call.\<close>

definition moved :: "mem \<Rightarrow> nat \<Rightarrow> nat \<Rightarrow> nat \<Rightarrow> mem" where
  "moved m d s n = (\<lambda>a. if d \<le> a \<and> a < d + n then m (s + (a - d)) else m a)"

lemma moved_0 [simp]: "moved m d s 0 = m"
  by (auto simp: moved_def fun_eq_iff)

lemma moved_same [simp]: "moved m d d n = m"
  by (auto simp: moved_def fun_eq_iff)

lemma copy_ul_moved: "store_ul m p (load_ul m q) = moved m p q UL_LEN"
  by (auto simp: store_ul_def moved_def store_le_at byte_load_ul fun_eq_iff)

lemma copy_byte_moved: "m(p := m q) = moved m p q 1"
  by (auto simp: moved_def)

text \<open>Going up is right when the destination is not inside the source; going down when the
  source does not lie above the destination.\<close>

lemma moved_up:
  assumes "d \<le> s \<or> s + (a + b) \<le> d"
  shows "moved (moved m d s a) (d + a) (s + a) b = moved m d s (a + b)"
  using assms by (fastforce simp: moved_def fun_eq_iff)

lemma moved_down:
  assumes "s \<le> d"
  shows "moved (moved m (d + a) (s + a) b) d s a = moved m d s (a + b)"
  using assms by (fastforce simp: moved_def fun_eq_iff)

lemma copy_bytes_moved:
  "p \<le> q \<or> q + i \<le> p \<Longrightarrow> copy_bytes i (m, p, q) = (moved m p q i, p + i, q + i)"
proof (induction i arbitrary: m p q)
  case (Suc i)
  then show ?case using moved_up [of p q 1 i m] by (auto simp: copy_byte_moved)
qed simp

lemma copy_ul_loop_moved:
  "p \<le> q \<or> q + i * UL_LEN \<le> p \<Longrightarrow>
     copy_ul i (m, p, q) = (moved m p q (i * UL_LEN), p + i * UL_LEN, q + i * UL_LEN)"
proof (induction i arbitrary: m p q)
  case (Suc i)
  then show ?case using moved_up [of p q UL_LEN "i * UL_LEN" m] by (auto simp: copy_ul_moved)
qed simp

lemma copy_bytes_back_moved:
  "q \<le> p \<Longrightarrow> copy_bytes_back i (m, p + i, q + i) = (moved m p q i, p, q)"
proof (induction i arbitrary: m)
  case (Suc i)
  then show ?case using moved_down [of q p m i 1] by (simp add: copy_byte_moved)
qed simp

lemma copy_ul_back_moved:
  "q \<le> p \<Longrightarrow> copy_ul_back i (m, p + i * UL_LEN, q + i * UL_LEN) = (moved m p q (i * UL_LEN), p, q)"
proof (induction i arbitrary: m)
  case (Suc i)
  have e: "p + Suc i * UL_LEN - UL_LEN = p + i * UL_LEN" "q + Suc i * UL_LEN - UL_LEN = q + i * UL_LEN"
    by simp_all
  show ?case
    using Suc moved_down [of q p m "i * UL_LEN" UL_LEN]
    by (simp only: copy_ul_back.simps e copy_ul_moved) (simp add: algebra_simps)
qed simp

text \<open>
  \<open>memcpy\<close> copies: for every alignment of the two pointers the destination region holds
  what the source region held and nothing else changes, as long as the destination does not
  start inside the source region.
\<close>

lemma memcpy_moved:
  assumes "dest \<le> src \<or> src + len \<le> dest"
  shows "memcpy m dest src len = moved m dest src len"
proof (cases "src = dest \<or> len = 0")
  case True
  then show ?thesis by (auto simp: memcpy_def)
next
  case False
  let ?r = "ADDR_LOW_UL_RESIDUE src"
  define j where "j = (if ?r \<noteq> 0 \<and> ?r = ADDR_LOW_UL_RESIDUE dest then min (UL_LEN - ?r) len else 0)"
  define k where "k = (len - j) div UL_LEN * UL_LEN"
  define t where "t = len - j - k"
  have jk: "j \<le> len" "k \<le> len - j" by (simp_all add: j_def k_def)
  then have len: "len = j + (k + t)" by (simp add: t_def)
  have 1: "copy_bytes j (m, dest, src) = (moved m dest src j, dest + j, src + j)"
    using assms len by (intro copy_bytes_moved) auto
  have 2: "copy_ul ((len - j) div UL_LEN) (m', dest + j, src + j) =
             (moved m' (dest + j) (src + j) k, dest + j + k, src + j + k)" for m'
    unfolding k_def using assms jk k_def by (intro copy_ul_loop_moved) auto
  have 3: "copy_bytes t (m', dest + j + k, src + j + k) =
             (moved m' (dest + j + k) (src + j + k) t, dest + j + k + t, src + j + k + t)" for m'
    using assms len by (intro copy_bytes_moved) auto
  have "memcpy m dest src len = fst (copy_bytes t (copy_ul ((len - j) div UL_LEN) (copy_bytes j (m, dest, src))))"
    using False unfolding memcpy_def Let_def j_def [symmetric] t_def k_def by (simp add: case_prod_beta)
  also have "\<dots> = moved (moved (moved m dest src j) (dest + j) (src + j) k) (dest + j + k) (src + j + k) t"
    by (simp add: 1 2 3)
  also have "\<dots> = moved m dest src len"
  proof -
    have "dest \<le> src \<or> src + (j + k) \<le> dest" using assms len by auto
    then show ?thesis
      using assms len moved_up [of dest src j k m] moved_up [of dest src "j + k" t m]
      by (simp add: add.assoc)
  qed
  finally show ?thesis .
qed

text \<open>
  C10. \<open>memmove\<close> copies for every pair of regions, overlapping or not, and every alignment:
  the destination holds what the source held before the call and nothing else changes.
\<close>

theorem memmove_correct: "memmove m dest src len = moved m dest src len"
proof (cases "src = dest \<or> len = 0 \<or> src > dest \<or> src + len \<le> dest")
  case True
  then show ?thesis using memcpy_moved [of dest src len m] by (auto simp: memmove_def)
next
  case False
  let ?r = "ADDR_LOW_UL_RESIDUE src"
  define j where "j = (if ?r \<noteq> 0 \<and> ?r = ADDR_LOW_UL_RESIDUE dest then min (?r + 1) len else 0)"
  define n where "n = (len - j) div UL_LEN"
  define t where "t = len - j - n * UL_LEN"
  have jn: "j \<le> len" "n * UL_LEN \<le> len - j" by (simp_all add: j_def n_def)
  then have len: "len = t + n * UL_LEN + j" by (simp add: t_def)
  have sd: "src \<le> dest" using False by simp
  have 1: "copy_bytes_back j (m, dest + len, src + len) =
             (moved m (dest + (t + n * UL_LEN)) (src + (t + n * UL_LEN)) j,
              dest + (t + n * UL_LEN), src + (t + n * UL_LEN))"
    using copy_bytes_back_moved [of "src + (t + n * UL_LEN)" "dest + (t + n * UL_LEN)" j m] sd
    by (simp add: len add.assoc)
  have 2: "copy_ul_back n (m', dest + (t + n * UL_LEN), src + (t + n * UL_LEN)) =
             (moved m' (dest + t) (src + t) (n * UL_LEN), dest + t, src + t)" for m'
    using copy_ul_back_moved [of "src + t" "dest + t" n m'] sd by (simp add: add.assoc)
  have 3: "copy_bytes_back t (m', dest + t, src + t) = (moved m' dest src t, dest, src)" for m'
    using sd by (rule copy_bytes_back_moved)
  have "memmove m dest src len =
          fst (copy_bytes_back t (copy_ul_back n (copy_bytes_back j (m, dest + len, src + len))))"
    using False unfolding memmove_def Let_def j_def [symmetric] t_def n_def by (simp add: case_prod_beta)
  also have "\<dots> = moved (moved (moved m (dest + (t + n * UL_LEN)) (src + (t + n * UL_LEN)) j)
                          (dest + t) (src + t) (n * UL_LEN)) dest src t"
    unfolding 1 2 3 by simp
  also have "\<dots> = moved m dest src len"
    using moved_down [of "src + t" "dest + t" m "n * UL_LEN" j]
      moved_down [of src dest m t "n * UL_LEN + j"] sd
    by (simp add: len add.assoc)
  finally show ?thesis .
qed

section \<open>Filling\<close>

definition filled :: "mem \<Rightarrow> nat \<Rightarrow> u8 \<Rightarrow> nat \<Rightarrow> mem" where
  "filled m d v n = (\<lambda>a. if d \<le> a \<and> a < d + n then v else m a)"

lemma filled_0 [simp]: "filled m d v 0 = m"
  by (auto simp: filled_def fun_eq_iff)

lemma filled_filled: "filled (filled m d v a) (d + a) v b = filled m d v (a + b)"
  by (auto simp: filled_def fun_eq_iff)

lemma fill_bytes_filled: "fill_bytes i v (m, p) = (filled m p v i, p + i)"
proof (induction i arbitrary: m p)
  case (Suc i)
  have "m(p := v) = filled m p v 1" by (auto simp: filled_def fun_eq_iff)
  then show ?case using filled_filled [of m p v 1 i] by (simp add: Suc)
qed simp

text \<open>Multiplication by \<open>0x01...01\<close> repeats a byte.\<close>

lemma repeat_byte_nat:
  assumes v: "(v :: nat) < 256" and i: "i < 8"
  shows "(v * 0x0101010101010101) div 2 ^ (8 * i) mod 256 = v"
proof -
  define ones :: "nat \<Rightarrow> nat" where "ones n = (\<Sum>j\<leftarrow>[0..<n]. 256 ^ j)" for n
  have K: "0x0101010101010101 = ones i + 256 ^ i + 256 ^ i * 256 * ones (7 - i)"
  proof -
    have "i \<in> {0, 1, 2, 3, 4, 5, 6, 7}" using i by auto
    then show ?thesis by (elim insertE emptyE) (simp_all add: ones_def upt_conv_Cons)
  qed
  have lo: "255 * ones n < 256 ^ n" for n
    by (induction n) (simp_all add: ones_def algebra_simps)
  have "v * ones i \<le> 255 * ones i" using v by simp
  then have vlo: "v * ones i < 256 ^ i" using lo [of i] by linarith
  have p: "(2 :: nat) ^ (8 * i) = 256 ^ i" by (simp add: power_mult)
  have "v * 0x0101010101010101 = v * ones i + 256 ^ i * (v + 256 * (v * ones (7 - i)))"
    unfolding K by (simp add: algebra_simps)
  then have "(v * 0x0101010101010101) div 256 ^ i = v + 256 * (v * ones (7 - i))"
    using vlo by simp
  then show ?thesis using v by (simp add: p)
qed

lemma repeat_byte:
  assumes "i < 8"
  shows "ucast (drop_bit (8 * i) (ucast v * 0x0101010101010101 :: u64)) = (v :: u8)"
proof -
  have v: "unat v < 256" using unsigned_less [of v] by simp
  have m: "unat (ucast v * 0x0101010101010101 :: u64) = unat v * 0x0101010101010101"
    using v by (simp add: unat_word_ariths)
  have "unat (drop_bit (8 * i) (ucast v * 0x0101010101010101 :: u64)) =
          (unat v * 0x0101010101010101) div 2 ^ (8 * i)"
    by (subst unat_drop_bit_eq) (simp only: m drop_bit_eq_div)
  then have "unat (ucast (drop_bit (8 * i) (ucast v * 0x0101010101010101 :: u64)) :: u8) = unat v"
    using repeat_byte_nat [OF v assms] by (simp add: unsigned_ucast_eq take_bit_eq_mod)
  then show ?thesis by (simp add: word_unat_eq_iff)
qed

lemma store_ul_filled: "store_ul m p (ucast v * 0x0101010101010101) = filled m p v UL_LEN"
  by (auto simp: store_ul_def filled_def store_le_at repeat_byte fun_eq_iff)

lemma fill_ul_filled:
  "fill_ul i (ucast v * 0x0101010101010101) (m, p) = (filled m p v (i * UL_LEN), p + i * UL_LEN)"
proof (induction i arbitrary: m p)
  case (Suc i)
  show ?case
    using filled_filled [of m p v UL_LEN "i * UL_LEN"] by (simp add: store_ul_filled Suc)
qed simp


section \<open>Searching\<close>

text \<open>The reference definition: the first address of the region that holds the byte.\<close>

definition first_at :: "mem \<Rightarrow> nat \<Rightarrow> u8 \<Rightarrow> nat \<Rightarrow> nat option" where
  "first_at m s c n = find (\<lambda>a. m a = c) [s..<s + n]"

lemma first_at_0 [simp]: "first_at m s c 0 = None"
  by (simp add: first_at_def)

lemma find_append: "find P (xs @ ys) = (case find P xs of None \<Rightarrow> find P ys | Some x \<Rightarrow> Some x)"
  by (induction xs) auto

lemma first_at_add:
  "first_at m s c (a + b) =
     (case first_at m s c a of None \<Rightarrow> first_at m (s + a) c b | Some x \<Rightarrow> Some x)"
  unfolding first_at_def add.assoc [symmetric] by (subst upt_add_eq_append) (simp_all add: find_append)

lemma first_at_Suc:
  "first_at m s c (Suc n) = (if m s = c then Some s else first_at m (Suc s) c n)"
  by (simp add: first_at_def upt_conv_Cons del: upt_Suc)

lemma scan_bytes_first: "scan_bytes m c n s = first_at m s c n"
  by (induction n arbitrary: s) (simp_all add: first_at_Suc)

lemma low_byte_eq: "(w :: u64) AND 0xFF = ucast (c :: u8) \<longleftrightarrow> ucast w = c"
proof -
  have m: "0xFF = (mask 8 :: u64)" by (simp add: mask_eq_exp_minus_1)
  have w: "w AND 0xFF = ucast (ucast w :: u8)"
    unfolding m by (rule bit_eqI) (auto simp: bit_simps)
  have c: "ucast (ucast c :: u64) = c" for c :: u8 by (rule bit_eqI) (auto simp: bit_simps)
  show ?thesis unfolding w by (metis c)
qed

lemma scan_val_first:
  "(\<And>i. i < n \<Longrightarrow> ucast (drop_bit (8 * i) v) = m (s + i)) \<Longrightarrow> scan_val v c n s = first_at m s c n"
proof (induction n arbitrary: v s)
  case (Suc n)
  have 0: "ucast v = m s" using Suc.prems [of 0] by simp
  have "ucast (drop_bit (8 * i) (drop_bit 8 v)) = m (s + 1 + i)" if "i < n" for i
    using Suc.prems [of "Suc i"] that by (simp add: drop_bit_drop_bit add.commute)
  then have "scan_val (drop_bit 8 v) c n (s + 1) = first_at m (s + 1) c n" by (rule Suc.IH)
  then show ?case by (simp add: low_byte_eq 0 first_at_Suc)
qed simp

lemma scan_ul_first: "scan_ul m c n s = first_at m s c (n * UL_LEN)"
proof (induction n arbitrary: s)
  case (Suc n)
  have "scan_val (load_ul m s) c UL_LEN s = first_at m s c UL_LEN"
    by (rule scan_val_first) (rule byte_load_ul)
  then show ?case
    using first_at_add [of m s c UL_LEN "n * UL_LEN"] by (simp add: Suc split: option.splits)
qed simp

text \<open>
  \<open>memchr\<close> returns the first address of the region that holds the byte, and \<open>NULL\<close>
  when there is none, for every alignment.
\<close>

lemma memchr_first: "memchr m src c len = first_at m src c len"
proof -
  define r where "r = min (ADDR_LOW_UL_RESIDUE src) len"
  define n where "n = (len - r) div UL_LEN"
  have len: "len = r + (n * UL_LEN + (len - r - n * UL_LEN))"
  proof -
    have "r \<le> len" "n * UL_LEN \<le> len - r" by (simp_all add: r_def n_def)
    then show ?thesis by simp
  qed
  have r: "(if ADDR_LOW_UL_RESIDUE src > len then len else ADDR_LOW_UL_RESIDUE src) = r"
    by (simp add: r_def min_def)
  have "memchr m src c len =
          (case first_at m src c r of Some a \<Rightarrow> Some a | None \<Rightarrow>
             (case first_at m (src + r) c (n * UL_LEN) of Some a \<Rightarrow> Some a | None \<Rightarrow>
                first_at m (src + r + n * UL_LEN) c (len - r - n * UL_LEN)))"
    unfolding memchr_def Let_def r scan_bytes_first scan_ul_first n_def ..
  also have "\<dots> = first_at m src c len"
    using first_at_add [of m src c r "n * UL_LEN + (len - r - n * UL_LEN)"]
      first_at_add [of m "src + r" c "n * UL_LEN" "len - r - n * UL_LEN"] len
    by (simp split: option.splits)
  finally show ?thesis .
qed

lemma strnlen_le: "strnlen m p n \<le> n"
  and strnlen_no_nul: "i < strnlen m p n \<Longrightarrow> m (p + i) \<noteq> 0"
  and strnlen_nul: "strnlen m p n < n \<Longrightarrow> m (p + strnlen m p n) = 0"
proof -
  have *: "first_at m p 0 n = None \<and> (\<forall>i < n. m (p + i) \<noteq> 0) \<or>
        (\<exists>k < n. first_at m p 0 n = Some (p + k) \<and> m (p + k) = 0 \<and> (\<forall>i < k. m (p + i) \<noteq> 0))"
  proof (induction n arbitrary: p)
    case (Suc n)
    show ?case
    proof (cases "m p = 0")
      case True
      then show ?thesis by (auto simp: first_at_Suc intro: exI [of _ 0])
    next
      case False
      from Suc [of "Suc p"] show ?thesis
      proof (elim disjE exE conjE)
        assume "first_at m (Suc p) 0 n = None" "\<forall>i<n. m (Suc p + i) \<noteq> 0"
        then have "\<forall>i < Suc n. m (p + i) \<noteq> 0" using False by (auto simp: less_Suc_eq_0_disj)
        then show ?thesis using False \<open>first_at m (Suc p) 0 n = None\<close> by (simp add: first_at_Suc)
      next
        fix k assume "k < n" "first_at m (Suc p) 0 n = Some (Suc p + k)" "m (Suc p + k) = 0"
          "\<forall>i<k. m (Suc p + i) \<noteq> 0"
        then show ?thesis using False
          by (intro disjI2 exI [of _ "Suc k"]) (auto simp: first_at_Suc less_Suc_eq_0_disj)
      qed
    qed
  qed simp
  show "strnlen m p n \<le> n" "i < strnlen m p n \<Longrightarrow> m (p + i) \<noteq> 0"
    "strnlen m p n < n \<Longrightarrow> m (p + strnlen m p n) = 0"
    using * by (auto simp: strnlen_def memchr_first)
qed

section \<open>Comparing\<close>

lemma strlen_length: "cstr_ok s \<Longrightarrow> strlen s = length s"
proof (induction s)
  case Nil
  then show ?case by (simp add: strlen.simps)
next
  case (Cons c s)
  then show ?case by (subst strlen.simps) (auto simp: cstr_ok_def)
qed

lemma cstr_ok_Cons [simp]: "cstr_ok (c # s) \<longleftrightarrow> c \<noteq> 0 \<and> cstr_ok s"
  by (auto simp: cstr_ok_def)

lemma cstr_ok_Nil [simp]: "cstr_ok []"
  by (simp add: cstr_ok_def)

lemma strcmp_rec:
  "strcmp [] [] = 0"
  "strcmp [] (d # t) = - uint d"
  "c \<noteq> 0 \<Longrightarrow> strcmp (c # s) [] = uint c"
  "strcmp (c # s) (d # t) = (if c = d \<and> c \<noteq> 0 then strcmp s t else uint c - uint d)"
  by (subst strcmp.simps, simp add: Let_def word_uint_eq_iff)+

lemma uint_pos: "c \<noteq> 0 \<Longrightarrow> 0 < uint (c :: u8)"
  by (simp add: word_neq_0_conv word_less_def)

lemma strcmp_eq_0: "cstr_ok s \<Longrightarrow> cstr_ok t \<Longrightarrow> strcmp s t = 0 \<longleftrightarrow> s = t"
proof (induction s arbitrary: t)
  case Nil
  then show ?case by (cases t) (auto simp: strcmp_rec dest: uint_pos)
next
  case (Cons c s)
  then show ?case
    by (cases t) (auto simp: strcmp_rec word_uint_eq_iff [symmetric] dest: uint_pos)
qed

lemma strcmp_swap: "cstr_ok s \<Longrightarrow> cstr_ok t \<Longrightarrow> strcmp t s = - strcmp s t"
proof (induction s arbitrary: t)
  case Nil
  then show ?case by (cases t) (auto simp: strcmp_rec)
next
  case (Cons c s)
  then show ?case by (cases t) (auto simp: strcmp_rec)
qed

lemma strcmp_trans:
  "cstr_ok s \<Longrightarrow> cstr_ok t \<Longrightarrow> cstr_ok u \<Longrightarrow> strcmp s t \<le> 0 \<Longrightarrow> strcmp t u \<le> 0 \<Longrightarrow> strcmp s u \<le> 0"
proof (induction s arbitrary: t u)
  case Nil
  then show ?case by (cases u) (auto simp: strcmp_rec)
next
  case (Cons c s)
  then obtain d t' where t: "t = d # t'" using uint_pos [of c] by (cases t) (auto simp: strcmp_rec)
  then obtain e u' where u: "u = e # u'" using Cons.prems uint_pos [of d] by (cases u) (auto simp: strcmp_rec)
  show ?case
    using Cons.prems Cons.IH [of t' u'] t u
    by (auto simp: strcmp_rec word_uint_eq_iff split: if_splits)
qed

lemma strncmp_Suc:
  "strncmp s t (Suc n) =
     (if cur s = cur t \<and> cur s \<noteq> 0 then strncmp (tl s) (tl t) n else uint (cur s) - uint (cur t))"
proof -
  have "cur s = cur t \<longleftrightarrow> uint (cur s) - uint (cur t) = 0" by (simp add: word_uint_eq_iff)
  then show ?thesis
    by (simp add: strncmp_def strncmp_loop.simps [of s t "Suc n"] Let_def)
qed

lemma strncmp_take:
  "cstr_ok s \<Longrightarrow> cstr_ok t \<Longrightarrow> strncmp s t n = strcmp (take n s) (take n t)"
proof (induction n arbitrary: s t)
  case 0
  then show ?case by (simp add: strncmp_def strcmp_rec)
next
  case (Suc n)
  then show ?case
    by (cases s; cases t) (auto simp: strncmp_Suc strcmp_rec)
qed

lemma memcmp_loop_eq_0: "memcmp_loop a b i n = 0 \<longleftrightarrow> (\<forall>k < n. a (i + k) = b (i + k))"
proof (induction n arbitrary: i)
  case (Suc n)
  have "(\<forall>k < Suc n. a (i + k) = b (i + k)) \<longleftrightarrow> a i = b i \<and> (\<forall>k < n. a (i + 1 + k) = b (i + 1 + k))"
    by (auto simp: less_Suc_eq_0_disj)
  then show ?case by (simp add: Suc Let_def word_uint_eq_iff)
qed simp

lemma memcmp_eq_0: "memcmp a b n = 0 \<longleftrightarrow> (\<forall>k < n. a k = b k)"
  by (simp add: memcmp_def memcmp_loop_eq_0)

end
