(* ===== verification/Qsort.thy ===== *)
theory Qsort
  imports Bv_Prelude "HOL-Library.Multiset"
begin

text \<open>
  The sort routine, \<^verbatim>\<open>core/qsort.c\<close>. The array is a list; the two recursive calls
  sort its two contiguous parts, so the result is the concatenation of their results. The
  comparison function is an argument; indices are natural numbers, and decrementing the index
  0 (the next access is outside the array) is \<open>Out_of_bounds\<close>. The loops end and the parts
  get shorter for every comparison function; sortedness and the absence of faults are shown
  in the locale \<open>qsort_order\<close>, whose assumptions are the contract in the source's comment.
\<close>

section \<open>The code\<close>

definition swap :: "nat \<Rightarrow> nat \<Rightarrow> 'a list \<Rightarrow> 'a list" where
  "swap i j xs = xs[i := xs ! j, j := xs ! i]"

text \<open>\<open>while (hi != m && cmp (&p[hi], &p[m]) > 0) hi--\<close>\<close>

fun scan_hi :: "('a \<Rightarrow> 'a \<Rightarrow> int) \<Rightarrow> 'a list \<Rightarrow> nat \<Rightarrow> nat \<Rightarrow> nat res" where
  "scan_hi cmp p m hi =
     (if hi \<noteq> m \<and> cmp (p ! hi) (p ! m) > 0
      then (case hi of 0 \<Rightarrow> Inl Out_of_bounds | Suc h \<Rightarrow> scan_hi cmp p m h)
      else Inr hi)"

declare scan_hi.simps [simp del]

text \<open>\<open>while (lo < hi && lo != m && cmp (&p[lo], &p[m]) < 0) lo++\<close>\<close>

function scan_lo :: "('a \<Rightarrow> 'a \<Rightarrow> int) \<Rightarrow> 'a list \<Rightarrow> nat \<Rightarrow> nat \<Rightarrow> nat \<Rightarrow> nat" where
  "scan_lo cmp p m hi lo =
     (if lo < hi \<and> lo \<noteq> m \<and> cmp (p ! lo) (p ! m) < 0 then scan_lo cmp p m hi (lo + 1) else lo)"
  by pat_completeness auto
termination by (relation "measure (\<lambda>(cmp, p, m, hi, lo). hi - lo)") auto

declare scan_lo.simps [simp del]

lemma scan_hi_le: "scan_hi cmp p m hi = Inr h \<Longrightarrow> h \<le> hi"
proof (induction hi)
  case 0
  then show ?case by (simp add: scan_hi.simps split: if_splits)
next
  case (Suc hi)
  then show ?case by (auto simp: scan_hi.simps [of _ _ _ "Suc hi"] split: if_splits)
qed

lemma scan_lo_ge: "lo \<le> scan_lo cmp p m hi lo"
proof (induction cmp p m hi lo rule: scan_lo.induct)
  case (1 cmp p m hi lo)
  show ?case
  proof (cases "lo < hi \<and> lo \<noteq> m \<and> cmp (p ! lo) (p ! m) < 0")
    case True
    then show ?thesis using 1 by (simp add: scan_lo.simps [of _ _ _ _ lo])
  next
    case False
    then show ?thesis by (auto simp: scan_lo.simps [of _ _ _ _ lo])
  qed
qed

text \<open>The partition loop: the array and the index \<open>hi + 1\<close> where the second part starts.\<close>

function partition_loop ::
    "('a \<Rightarrow> 'a \<Rightarrow> int) \<Rightarrow> 'a list \<Rightarrow> nat \<Rightarrow> nat \<Rightarrow> nat \<Rightarrow> ('a list \<times> nat) res" where
  "partition_loop cmp p m lo hi =
     res_bind (scan_hi cmp p m hi) (\<lambda>h.
       let l = scan_lo cmp p m h lo in
       if l \<ge> h then Inr (p, h + 1)
       else partition_loop cmp (swap l h p) (if l = m then h else if h = m then l else m)
              (l + 1) (h - 1))"
  by pat_completeness auto
termination
proof (relation "measure (\<lambda>(cmp, p, m, lo, hi). hi - lo)", goal_cases)
  case (2 cmp p m lo hi h l)
  have "h \<le> hi" "lo \<le> l" using scan_hi_le scan_lo_ge 2 by auto
  then show ?case using 2 by auto
qed simp

declare partition_loop.simps [simp del]

lemma swap_length [simp]: "length (swap i j xs) = length xs"
  by (simp add: swap_def)

lemma partition_loop_bounds:
  assumes "partition_loop cmp p m lo hi = Inr (q, n)"
  shows "length q = length p \<and> 1 \<le> n \<and> n \<le> hi + 1"
  using assms
proof (induction cmp p m lo hi rule: partition_loop.induct)
  case (1 cmp p m lo hi)
  obtain h where h: "scan_hi cmp p m hi = Inr h"
    using "1.prems" by (auto simp: partition_loop.simps [of _ p] res_bind_Inr_iff)
  let ?l = "scan_lo cmp p m h lo"
  show ?case
  proof (cases "?l \<ge> h")
    case True
    then show ?thesis using "1.prems" h scan_hi_le [OF h] by (auto simp: partition_loop.simps [of _ p])
  next
    case False
    then show ?thesis
      using "1.IH" [OF h refl] "1.prems" h scan_hi_le [OF h] by (fastforce simp: partition_loop.simps [of _ p] Let_def)
  qed
qed

text \<open>With at least three elements the pivot starts below the last index, so the first round
  moves \<open>hi\<close> down: both parts are shorter than the array.\<close>

lemma scan_lo_le_pivot: "lo \<le> m \<Longrightarrow> scan_lo cmp p m hi lo \<le> m"
proof (induction cmp p m hi lo rule: scan_lo.induct)
  case (1 cmp p m hi lo)
  then show ?case by (auto simp: scan_lo.simps [of _ _ _ _ lo])
qed

lemma partition_loop_first:
  assumes "partition_loop cmp p m 0 hi = Inr (q, n)" "m < hi"
  shows "n \<le> hi"
proof -
  obtain h where h: "scan_hi cmp p m hi = Inr h"
    using assms by (auto simp: partition_loop.simps [of _ p] res_bind_Inr_iff)
  let ?l = "scan_lo cmp p m h 0"
  have le: "h \<le> hi" "?l \<le> m" using h by (auto intro: scan_hi_le scan_lo_le_pivot)
  show ?thesis
  proof (cases "?l \<ge> h")
    case True
    then show ?thesis using assms h le by (auto simp: partition_loop.simps [of _ p])
  next
    case False
    then have "n \<le> (h - 1) + 1"
      using assms(1) h partition_loop_bounds by (fastforce simp: partition_loop.simps [of _ p] Let_def)
    then show ?thesis using False le by simp
  qed
qed

function qsort :: "('a \<Rightarrow> 'a \<Rightarrow> int) \<Rightarrow> 'a list \<Rightarrow> 'a list res" where
  "qsort cmp p =
     (let nmemb = length p in
      if nmemb \<le> 1 then Inr p
      else if nmemb = 2 then Inr (if cmp (p ! 0) (p ! 1) > 0 then swap 0 1 p else p)
      else res_bind (partition_loop cmp p ((nmemb - 1) div 2) 0 (nmemb - 1)) (\<lambda>(q, np).
             res_bind (qsort cmp (take np q)) (\<lambda>a.
             res_bind (qsort cmp (drop np q)) (\<lambda>b. Inr (a @ b)))))"
  by pat_completeness auto
termination
proof (relation "measure (\<lambda>(cmp, p). length p)", goal_cases)
  case (2 cmp p n r q np)
  then show ?case
    using partition_loop_bounds [of cmp p "(length p - 1) div 2" 0 "length p - 1" q np]
      partition_loop_first [of cmp p "(length p - 1) div 2" "length p - 1" q np] by auto
next
  case (3 cmp p n r q np a)
  then show ?case
    using partition_loop_bounds [of cmp p "(length p - 1) div 2" 0 "length p - 1" q np] by auto
qed simp

declare qsort.simps [simp del]

lemma swap_mset: "i < length xs \<Longrightarrow> j < length xs \<Longrightarrow> mset (swap i j xs) = mset xs"
  unfolding swap_def by (rule mset_swap)

lemma swap_nth:
  "i < length xs \<Longrightarrow> j < length xs \<Longrightarrow>
     swap i j xs ! k = (if k = j then xs ! i else if k = i then xs ! j else xs ! k)"
  by (auto simp: swap_def nth_list_update)

section \<open>The contract of the comparison function\<close>

locale qsort_order =
  fixes cmp :: "'a \<Rightarrow> 'a \<Rightarrow> int" and elem :: "'a \<Rightarrow> bool"
  assumes cmp_swap: "elem x \<Longrightarrow> elem y \<Longrightarrow> cmp x y < 0 \<longleftrightarrow> cmp y x > 0"
    and cmp_trans: "elem x \<Longrightarrow> elem y \<Longrightarrow> elem z \<Longrightarrow> cmp x y \<le> 0 \<Longrightarrow> cmp y z \<le> 0 \<Longrightarrow> cmp x z \<le> 0"
begin

lemma cmp_refl: "elem x \<Longrightarrow> cmp x x \<le> 0"
  using cmp_swap [of x x] by linarith

lemma cmp_le_ge: "elem x \<Longrightarrow> elem y \<Longrightarrow> 0 \<le> cmp x y \<longleftrightarrow> cmp y x \<le> 0"
  using cmp_swap [of x y] by linarith

text \<open>The two scans.\<close>

lemma scan_hi_stops:
  assumes "k \<le> hi" "k = m \<or> cmp (p ! k) (p ! m) \<le> 0"
  shows "\<exists>h. scan_hi cmp p m hi = Inr h \<and> k \<le> h \<and> h \<le> hi \<and> (h = m \<or> cmp (p ! h) (p ! m) \<le> 0) \<and>
           (\<forall>i. h < i \<and> i \<le> hi \<longrightarrow> cmp (p ! i) (p ! m) > 0)"
  using assms(1)
proof (induction hi)
  case 0
  then show ?case using assms(2) by (auto simp: scan_hi.simps)
next
  case (Suc hi)
  show ?case
  proof (cases "Suc hi \<noteq> m \<and> cmp (p ! Suc hi) (p ! m) > 0")
    case True
    then have "k \<le> hi" using Suc.prems assms(2) by (cases "k = Suc hi") auto
    then obtain h where "scan_hi cmp p m hi = Inr h" "k \<le> h" "h \<le> hi"
        "h = m \<or> cmp (p ! h) (p ! m) \<le> 0" "\<forall>i. h < i \<and> i \<le> hi \<longrightarrow> cmp (p ! i) (p ! m) > 0"
      using Suc.IH by blast
    then show ?thesis using True
      by (intro exI [of _ h]) (auto simp: scan_hi.simps [of _ _ _ "Suc hi"] le_Suc_eq)
  next
    case False
    then show ?thesis using Suc.prems
      by (intro exI [of _ "Suc hi"]) (auto simp: scan_hi.simps [of _ _ _ "Suc hi"])
  qed
qed

lemma scan_lo_stops:
  "(\<forall>i. lo \<le> i \<and> i < scan_lo cmp p m hi lo \<longrightarrow> cmp (p ! i) (p ! m) < 0) \<and>
   (scan_lo cmp p m hi lo < hi \<longrightarrow>
      scan_lo cmp p m hi lo = m \<or> 0 \<le> cmp (p ! scan_lo cmp p m hi lo) (p ! m))"
proof (induction cmp p m hi lo rule: scan_lo.induct)
  case (1 cmp p m hi lo)
  show ?case
  proof (cases "lo < hi \<and> lo \<noteq> m \<and> cmp (p ! lo) (p ! m) < 0")
    case True
    have "lo \<le> i \<longleftrightarrow> i = lo \<or> lo + 1 \<le> i" for i by auto
    then show ?thesis using 1 [OF True] True by (auto simp: scan_lo.simps [of _ _ _ _ lo])
  next
    case False
    then show ?thesis by (auto simp: scan_lo.simps [of _ _ _ _ lo])
  qed
qed

text \<open>The invariant of the partition loop: what lies below \<open>lo\<close> is at most the pivot, what lies
  above \<open>hi\<close> at least the pivot, and some index up to \<open>hi\<close> stops the scan from above.\<close>

definition part_inv :: "'a list \<Rightarrow> nat \<Rightarrow> nat \<Rightarrow> nat \<Rightarrow> bool" where
  "part_inv p m lo hi \<longleftrightarrow>
     m < length p \<and> hi < length p \<and> lo \<le> hi + 1 \<and> (m \<le> hi \<or> 0 < lo) \<and> (\<forall>x \<in> set p. elem x) \<and>
     (\<forall>i < lo. cmp (p ! i) (p ! m) \<le> 0) \<and>
     (\<forall>i. hi < i \<and> i < length p \<longrightarrow> cmp (p ! m) (p ! i) \<le> 0)"

lemma above:
  assumes "part_inv p m lo hi" "\<forall>i. h < i \<and> i \<le> hi \<longrightarrow> cmp (p ! i) (p ! m) > 0" "h < i" "i < length p"
  shows "cmp (p ! m) (p ! i) \<le> 0"
proof (cases "i \<le> hi")
  case True
  then have "0 < cmp (p ! i) (p ! m)" using assms by blast
  moreover have "elem (p ! i)" "elem (p ! m)" using assms by (auto simp: part_inv_def)
  ultimately show ?thesis using cmp_swap [of "p ! m" "p ! i"] by simp
next
  case False
  then show ?thesis using assms by (simp add: part_inv_def)
qed

lemma part_inv_swap:
  assumes inv: "part_inv p m lo hi" and lh: "lo \<le> l" "l < h" "h \<le> hi"
    and h: "h = m \<or> cmp (p ! h) (p ! m) \<le> 0" "\<forall>i. h < i \<and> i \<le> hi \<longrightarrow> cmp (p ! i) (p ! m) > 0"
    and l: "l = m \<or> 0 \<le> cmp (p ! l) (p ! m)" "\<forall>i. lo \<le> i \<and> i < l \<longrightarrow> cmp (p ! i) (p ! m) < 0"
    and m': "m' = (if l = m then h else if h = m then l else m)"
  shows "part_inv (swap l h p) m' (l + 1) (h - 1)"
proof -
  let ?p = "swap l h p"
  have len: "l < length p" "h < length p" "m < length p" using inv lh by (auto simp: part_inv_def)
  have el: "elem (p ! i)" if "i < length p" for i using inv that by (auto simp: part_inv_def)
  have v: "?p ! m' = p ! m" using len m' by (auto simp: swap_nth)
  have "set ?p = set p" using len by (metis mset_eq_setD swap_mset)
  moreover have "cmp (?p ! i) (p ! m) \<le> 0" if "i < l + 1" for i
  proof (cases "i = l")
    case True
    then show ?thesis using h(1) len el cmp_refl lh by (auto simp: swap_nth)
  next
    case False
    then have "i < lo \<or> lo \<le> i \<and> i < l" using that by auto
    then have "cmp (p ! i) (p ! m) \<le> 0" using inv l(2) by (auto simp: part_inv_def intro: less_imp_le)
    then show ?thesis using False that lh len by (auto simp: swap_nth)
  qed
  moreover have "cmp (p ! m) (?p ! i) \<le> 0" if "h - 1 < i" "i < length p" for i
  proof (cases "i = h")
    case True
    then show ?thesis using l(1) len el cmp_refl cmp_le_ge by (auto simp: swap_nth)
  next
    case False
    then have "h < i" using that by simp
    then have "cmp (p ! m) (p ! i) \<le> 0" by (rule above [OF inv h(2) _ that(2)])
    then show ?thesis using False that lh len by (auto simp: swap_nth)
  qed
  moreover have "m' < length p" "h - 1 < length p" "\<forall>x \<in> set p. elem x"
    using inv len m' by (auto simp: part_inv_def)
  ultimately show ?thesis using lh by (simp add: part_inv_def v)
qed

text \<open>A list split by a value: what comes before an index is at most it, the rest at least it.\<close>

definition split_at :: "'a list \<Rightarrow> nat \<Rightarrow> bool" where
  "split_at q n \<longleftrightarrow> (\<exists>v. elem v \<and> (\<forall>i < n. cmp (q ! i) v \<le> 0) \<and>
                       (\<forall>i. n \<le> i \<and> i < length q \<longrightarrow> cmp v (q ! i) \<le> 0))"

lemma partition_loop_correct:
  assumes "part_inv p m lo hi"
  shows "\<exists>q n. partition_loop cmp p m lo hi = Inr (q, n) \<and> mset q = mset p \<and> split_at q n"
  using assms
proof (induction "hi - lo" arbitrary: p m lo hi rule: less_induct)
  case less
  note inv = less.prems
  have el: "elem (p ! i)" if "i < length p" for i using inv that by (auto simp: part_inv_def)
  define k where "k = (if m \<le> hi then if lo \<le> m + 1 then m else lo - 1 else lo - 1)"
  have k: "k \<le> hi" "k = m \<or> cmp (p ! k) (p ! m) \<le> 0" "lo \<le> k + 1"
    using inv by (auto simp: part_inv_def k_def)
  obtain h where h: "scan_hi cmp p m hi = Inr h" "k \<le> h" "h \<le> hi"
      "h = m \<or> cmp (p ! h) (p ! m) \<le> 0" "\<forall>i. h < i \<and> i \<le> hi \<longrightarrow> cmp (p ! i) (p ! m) > 0"
    using scan_hi_stops [OF k(1,2)] by blast
  define l where "l = scan_lo cmp p m h lo"
  have l: "lo \<le> l" "\<forall>i. lo \<le> i \<and> i < l \<longrightarrow> cmp (p ! i) (p ! m) < 0"
      "l < h \<longrightarrow> l = m \<or> 0 \<le> cmp (p ! l) (p ! m)"
    using scan_lo_stops scan_lo_ge by (auto simp: l_def)
  show ?case
  proof (cases "l \<ge> h")
    case True
    have "cmp (p ! i) (p ! m) \<le> 0" if i: "i < h + 1" for i
    proof -
      consider "i < lo" | "i = h" | "lo \<le> i" "i < l" using i True by linarith
      then show ?thesis
      proof cases
        case 1
        then show ?thesis using inv by (simp add: part_inv_def)
      next
        case 2
        then show ?thesis using inv h(4) cmp_refl [OF el] by (auto simp: part_inv_def)
      next
        case 3
        then show ?thesis using l(2) by (simp add: less_imp_le)
      qed
    qed
    moreover have "cmp (p ! m) (p ! i) \<le> 0" if "h + 1 \<le> i" "i < length p" for i
      using above [OF inv h(5) _ that(2)] that(1) by simp
    moreover have "elem (p ! m)" using inv el by (simp add: part_inv_def)
    ultimately have "split_at p (h + 1)" by (auto simp: split_at_def)
    then show ?thesis using h(1) True by (simp add: partition_loop.simps [of _ p] l_def [symmetric])
  next
    case False
    let ?m = "if l = m then h else if h = m then l else m"
    have inv': "part_inv (swap l h p) ?m (l + 1) (h - 1)"
      using False l h by (intro part_inv_swap [OF inv]) auto
    have "h - 1 - (l + 1) < hi - lo" using False h l by auto
    from less.hyps [OF this inv'] have "\<exists>q n. partition_loop cmp (swap l h p) ?m (l + 1) (h - 1) = Inr (q, n) \<and>
        mset q = mset (swap l h p) \<and> split_at q n" .
    moreover have "mset (swap l h p) = mset p"
      using inv False h by (intro swap_mset) (auto simp: part_inv_def)
    ultimately show ?thesis
      using h(1) False by (simp add: partition_loop.simps [of _ p] l_def [symmetric])
  qed
qed

lemma part_inv_start:
  assumes "\<forall>x \<in> set p. elem x" "3 \<le> length p"
  shows "part_inv p ((length p - 1) div 2) 0 (length p - 1)"
  using assms by (auto simp: part_inv_def)

abbreviation sorted_cmp :: "'a list \<Rightarrow> bool" where
  "sorted_cmp \<equiv> sorted_wrt (\<lambda>x y. cmp x y \<le> 0)"

lemma sorted_cmp_append_split:
  assumes "split_at q n" "mset a = mset (take n q)" "mset b = mset (drop n q)"
    and "sorted_cmp a" "sorted_cmp b" "\<forall>x \<in> set q. elem x"
  shows "sorted_cmp (a @ b)"
proof -
  obtain v where v: "elem v" "\<forall>i < n. cmp (q ! i) v \<le> 0" "\<forall>i. n \<le> i \<and> i < length q \<longrightarrow> cmp v (q ! i) \<le> 0"
    using assms(1) by (auto simp: split_at_def)
  have sets: "set a = set (take n q)" "set b = set (drop n q)" using assms(2,3) mset_eq_setD by blast+
  have "cmp x v \<le> 0" if "x \<in> set a" for x
    using that sets v(2) by (auto simp: in_set_conv_nth)
  moreover have "cmp v y \<le> 0" if "y \<in> set b" for y
    using that sets v(3) by (auto simp: in_set_conv_nth)
  moreover have "elem x" if "x \<in> set a \<union> set b" for x
    using that sets assms(6) by (auto dest: in_set_takeD in_set_dropD)
  ultimately show ?thesis
    using assms(4,5) v(1) cmp_trans [of _ v] by (auto simp: sorted_wrt_append)
qed

theorem qsort_correct:
  assumes "\<forall>x \<in> set p. elem x"
  shows "\<exists>q. qsort cmp p = Inr q \<and> mset q = mset p \<and> sorted_cmp q"
  using assms
proof (induction "length p" arbitrary: p rule: less_induct)
  case less
  consider (small) "length p \<le> 1" | (two) "length p = 2" | (big) "3 \<le> length p" by linarith
  then show ?case
  proof cases
    case small
    then have "qsort cmp p = Inr p" by (simp add: qsort.simps [of _ p])
    moreover have "sorted_cmp p" using small by (cases p) auto
    ultimately show ?thesis by blast
  next
    case two
    then obtain x y where p: "p = [x, y]" by (auto simp: numeral_2_eq_2 length_Suc_conv)
    have "qsort cmp p = Inr (if cmp x y > 0 then [y, x] else [x, y])"
      unfolding p by (subst qsort.simps) (simp add: swap_def)
    moreover have "cmp x y > 0 \<Longrightarrow> cmp y x \<le> 0" using less.prems p cmp_swap [of y x] by simp
    ultimately show ?thesis using p by (cases "cmp x y > 0") auto
  next
    case big
    obtain q n where part: "partition_loop cmp p ((length p - 1) div 2) 0 (length p - 1) = Inr (q, n)"
        "mset q = mset p" "split_at q n"
      using partition_loop_correct [OF part_inv_start [OF less.prems big]] by blast
    have b: "length q = length p" "1 \<le> n" "n \<le> length p - 1"
      using partition_loop_bounds [OF part(1)] partition_loop_first [OF part(1)] big by auto
    have el: "\<forall>x \<in> set q. elem x" using less.prems part(2) by (metis mset_eq_setD)
    have "\<exists>r. qsort cmp (take n q) = Inr r \<and> mset r = mset (take n q) \<and> sorted_cmp r"
      using b el big by (intro less.hyps) (auto dest: in_set_takeD)
    then obtain r where r: "qsort cmp (take n q) = Inr r" "mset r = mset (take n q)" "sorted_cmp r" by blast
    have "\<exists>t. qsort cmp (drop n q) = Inr t \<and> mset t = mset (drop n q) \<and> sorted_cmp t"
      using b el big by (intro less.hyps) (auto dest: in_set_dropD)
    then obtain t where t: "qsort cmp (drop n q) = Inr t" "mset t = mset (drop n q)" "sorted_cmp t" by blast
    have "mset (r @ t) = mset (take n q @ drop n q)" using r t by (simp only: mset_append)
    then have "mset (r @ t) = mset p" using part(2) by simp
    moreover have "sorted_cmp (r @ t)" using sorted_cmp_append_split [OF part(3) r(2) t(2) r(3) t(3) el] .
    ultimately show ?thesis
      using part(1) r t big by (simp add: qsort.simps [of _ p] Let_def)
  qed
qed

end

text \<open>
  C25. \<open>qsort\<close> returns, without leaving the array, a sorted permutation of the array for every
  comparison function that orders the elements of the array as a total preorder.
\<close>

theorem qsort_sorts:
  assumes "\<And>x y. x \<in> set p \<Longrightarrow> y \<in> set p \<Longrightarrow> cmp x y < 0 \<longleftrightarrow> cmp y x > 0"
    and "\<And>x y z. x \<in> set p \<Longrightarrow> y \<in> set p \<Longrightarrow> z \<in> set p \<Longrightarrow> cmp x y \<le> 0 \<Longrightarrow> cmp y z \<le> 0 \<Longrightarrow> cmp x z \<le> 0"
  shows "\<exists>q. qsort cmp p = Inr q \<and> mset q = mset p \<and> sorted_wrt (\<lambda>x y. cmp x y \<le> 0) q"
proof -
  have "qsort_order cmp (\<lambda>x. x \<in> set p)" using assms by unfold_locales
  then show ?thesis by (rule qsort_order.qsort_correct) simp
qed

theorem qsort_sorts_witness:
  "\<exists>q. qsort (\<lambda>x y. x - y) [3, 1, 2, 5, 4 :: int] = Inr q \<and> mset q = mset [3, 1, 2, 5, 4] \<and> sorted q"
  using qsort_sorts [of "[3, 1, 2, 5, 4]" "\<lambda>x y :: int. x - y"] by auto

end
