(* ===== verification/Initfunc.thy ===== *)
theory Initfunc
  imports CString Qsort
begin

text \<open>
  The table of initialisation functions, \<^verbatim>\<open>core/initfunc.c\<close> and
  \<^verbatim>\<open>include/core/initfunc.h\<close>: every module registers an entry (source file, phase
  name, function); \<open>initfunc_init\<close> sorts the table once, \<open>call_initfunc\<close> runs the
  entries whose phase starts with the given name. The registered functions change the state
  of the whole hypervisor: \<open>run\<close> and \<open>panic_test_for_initfunc\<close> are parameters that
  transform a state of any type and may fault.
\<close>

section \<open>The code\<close>

record 'f initfunc_data =
  filename :: cstr
  ident :: cstr
  func :: 'f

definition initfunc_sort_cmp :: "'f initfunc_data \<Rightarrow> 'f initfunc_data \<Rightarrow> int" where
  "initfunc_sort_cmp p q =
     (let diff = strcmp (ident p) (ident q) in if diff \<noteq> 0 then diff else strcmp (filename p) (filename q))"

definition initfunc_init :: "'f initfunc_data list \<Rightarrow> 'f initfunc_data list res" where
  "initfunc_init table = qsort initfunc_sort_cmp table"

text \<open>The bytes at a string pointer: the string, its NUL, and whatever the memory holds
  behind it.\<close>

definition cstr_at :: "(nat \<Rightarrow> u8) \<Rightarrow> cstr \<Rightarrow> nat \<Rightarrow> u8" where
  "cstr_at behind s k = (if k < length s then s ! k else if k = length s then 0 else behind k)"

definition do_call ::
    "('f \<Rightarrow> 's \<Rightarrow> 's res) \<Rightarrow> ('s \<Rightarrow> 's res) \<Rightarrow> 'f initfunc_data \<Rightarrow> 's \<Rightarrow> 's res" where
  "do_call run panic_test_for_initfunc p s = res_bind (run (func p) s) panic_test_for_initfunc"

fun call_initfunc_loop ::
    "('f \<Rightarrow> 's \<Rightarrow> 's res) \<Rightarrow> ('s \<Rightarrow> 's res) \<Rightarrow> (cstr \<Rightarrow> nat \<Rightarrow> u8) \<Rightarrow> cstr \<Rightarrow> nat \<Rightarrow>
     'f initfunc_data list \<Rightarrow> 's \<Rightarrow> 's res" where
  "call_initfunc_loop run panic_test behind i l [] s = Inr s"
| "call_initfunc_loop run panic_test behind i l (p # ps) s =
     res_bind (if memcmp (cstr_at (behind (ident p)) (ident p)) (cstr_at (behind i) i) l = 0
               then do_call run panic_test p s else Inr s)
       (call_initfunc_loop run panic_test behind i l ps)"

definition call_initfunc ::
    "('f \<Rightarrow> 's \<Rightarrow> 's res) \<Rightarrow> ('s \<Rightarrow> 's res) \<Rightarrow> (cstr \<Rightarrow> nat \<Rightarrow> u8) \<Rightarrow>
     'f initfunc_data list \<Rightarrow> cstr \<Rightarrow> 's \<Rightarrow> 's res" where
  "call_initfunc run panic_test behind table i s =
     call_initfunc_loop run panic_test behind i (strlen i) table s"

section \<open>The comparison meets the contract of the sort\<close>

definition entry_ok :: "'f initfunc_data \<Rightarrow> bool" where
  "entry_ok p \<longleftrightarrow> cstr_ok (ident p) \<and> cstr_ok (filename p)"

lemma initfunc_sort_cmp_swap:
  "entry_ok p \<Longrightarrow> entry_ok q \<Longrightarrow> initfunc_sort_cmp q p = - initfunc_sort_cmp p q"
  using strcmp_swap [of "ident p" "ident q"] strcmp_swap [of "filename p" "filename q"]
  by (simp add: initfunc_sort_cmp_def Let_def entry_ok_def)

text \<open>The order the comparison decides: the phase name first, then the file name.\<close>

lemma initfunc_sort_cmp_le:
  assumes "entry_ok p" "entry_ok q"
  shows "initfunc_sort_cmp p q \<le> 0 \<longleftrightarrow>
           strcmp (ident p) (ident q) < 0 \<or> ident p = ident q \<and> strcmp (filename p) (filename q) \<le> 0"
  using assms strcmp_eq_0 [of "ident p" "ident q"] by (auto simp: initfunc_sort_cmp_def Let_def entry_ok_def)

lemma strcmp_trans_less:
  assumes "cstr_ok s" "cstr_ok t" "cstr_ok u" "strcmp s t \<le> 0" "strcmp t u \<le> 0"
    and "strcmp s t < 0 \<or> strcmp t u < 0"
  shows "strcmp s u < 0"
proof (rule ccontr)
  assume "\<not> strcmp s u < 0"
  then have "strcmp u s \<le> 0" using assms strcmp_swap [of s u] by simp
  then have "strcmp t s \<le> 0" "strcmp u t \<le> 0" using assms strcmp_trans by blast+
  then show False using assms strcmp_swap [of s t] strcmp_swap [of t u] by simp
qed

interpretation initfunc: qsort_order initfunc_sort_cmp entry_ok
proof unfold_locales
  fix p q :: "'f initfunc_data"
  assume "entry_ok p" "entry_ok q"
  then show "initfunc_sort_cmp p q < 0 \<longleftrightarrow> initfunc_sort_cmp q p > 0"
    using initfunc_sort_cmp_swap [of p q] by simp
next
  fix p q r :: "'f initfunc_data"
  assume *: "entry_ok p" "entry_ok q" "entry_ok r" "initfunc_sort_cmp p q \<le> 0" "initfunc_sort_cmp q r \<le> 0"
  then show "initfunc_sort_cmp p r \<le> 0"
    using strcmp_trans_less [of "ident p" "ident q" "ident r"] strcmp_trans [of "filename p" "filename q" "filename r"]
    by (auto simp: initfunc_sort_cmp_le entry_ok_def)
qed

section \<open>The selection of a phase\<close>

lemma memcmp_prefix:
  assumes "cstr_ok i"
  shows "memcmp (cstr_at a s) (cstr_at b i) (strlen i) = 0 \<longleftrightarrow> (\<exists>t. s = i @ t)"
proof -
  have "memcmp (cstr_at a s) (cstr_at b i) (strlen i) = 0 \<longleftrightarrow> (\<forall>k < length i. cstr_at a s k = i ! k)"
    using assms by (simp add: memcmp_eq_0 strlen_length cstr_at_def)
  also have "\<dots> \<longleftrightarrow> length i \<le> length s \<and> (\<forall>k < length i. s ! k = i ! k)"
  proof
    assume *: "\<forall>k < length i. cstr_at a s k = i ! k"
    have "length i \<le> length s"
    proof (rule ccontr)
      assume "\<not> length i \<le> length s"
      then have "i ! length s = 0" using *[rule_format, of "length s"] by (simp add: cstr_at_def)
      then show False using assms \<open>\<not> length i \<le> length s\<close> by (metis cstr_ok_def not_le nth_mem)
    qed
    then show "length i \<le> length s \<and> (\<forall>k < length i. s ! k = i ! k)" using * by (simp add: cstr_at_def)
  qed (simp add: cstr_at_def)
  also have "\<dots> \<longleftrightarrow> take (length i) s = i" by (auto simp: list_eq_iff_nth_eq)
  also have "\<dots> \<longleftrightarrow> (\<exists>t. s = i @ t)" by (metis append_eq_conv_conj append_take_drop_id)
  finally show ?thesis .
qed

definition in_phase :: "cstr \<Rightarrow> 'f initfunc_data \<Rightarrow> bool" where
  "in_phase i p \<longleftrightarrow> take (length i) (ident p) = i"

lemma in_phase_iff: "in_phase i p \<longleftrightarrow> (\<exists>t. ident p = i @ t)"
  unfolding in_phase_def by (metis append_eq_conv_conj append_take_drop_id)

fun run_all :: "('f \<Rightarrow> 's \<Rightarrow> 's res) \<Rightarrow> ('s \<Rightarrow> 's res) \<Rightarrow> 'f initfunc_data list \<Rightarrow> 's \<Rightarrow> 's res" where
  "run_all run panic_test [] s = Inr s"
| "run_all run panic_test (p # ps) s = res_bind (do_call run panic_test p s) (run_all run panic_test ps)"

lemma call_initfunc_run_all:
  assumes "cstr_ok i"
  shows "call_initfunc run panic_test behind table i s =
           run_all run panic_test (filter (in_phase i) table) s"
proof -
  have "call_initfunc_loop run panic_test behind i (strlen i) table s =
          run_all run panic_test (filter (in_phase i) table) s"
    using assms
    by (induction table arbitrary: s)
      (auto simp: memcmp_prefix in_phase_iff res_bind_def split: sum.splits)
  then show ?thesis by (simp add: call_initfunc_def)
qed

text \<open>
  C6. The initialisation order. Sorting the table never faults and keeps its entries; a call
  for a phase then runs exactly the entries whose phase name starts with the given name, in
  the order of their full phase names and, for equal names, of their file names, and stops at
  the first fault.
\<close>

theorem initfunc_order:
  assumes "\<forall>p \<in> set table. entry_ok p" "cstr_ok i"
  shows "\<exists>sorted ps. initfunc_init table = Inr sorted \<and>
           mset ps = filter_mset (in_phase i) (mset table) \<and>
           sorted_wrt (\<lambda>p q. strcmp (ident p) (ident q) < 0 \<or>
                             ident p = ident q \<and> strcmp (filename p) (filename q) \<le> 0) ps \<and>
           (\<forall>run panic_test behind s.
              call_initfunc run panic_test behind sorted i s = run_all run panic_test ps s)"
proof -
  obtain q where q: "initfunc_init table = Inr q" "mset q = mset table"
      "sorted_wrt (\<lambda>x y. initfunc_sort_cmp x y \<le> 0) q"
    using initfunc.qsort_correct [OF assms(1)] by (auto simp: initfunc_init_def)
  let ?ps = "filter (in_phase i) q"
  have ok: "\<forall>p \<in> set ?ps. entry_ok p" using assms(1) q(2) by (auto dest: mset_eq_setD)
  have "sorted_wrt (\<lambda>p q. strcmp (ident p) (ident q) < 0 \<or>
                     ident p = ident q \<and> strcmp (filename p) (filename q) \<le> 0) ?ps"
    using sorted_wrt_filter [OF q(3), of "in_phase i"] ok
    by (auto simp: initfunc_sort_cmp_le elim!: sorted_wrt_mono_rel [rotated])
  then show ?thesis
    using q call_initfunc_run_all [OF assms(2)] by (intro exI [of _ q] exI [of _ ?ps]) auto
qed

theorem initfunc_order_witness:
  "let table = [\<lparr>filename = bytes ''b.c'', ident = bytes ''global3'', func = (1 :: nat)\<rparr>,
                \<lparr>filename = bytes ''a.c'', ident = bytes ''bsp0'', func = 2\<rparr>,
                \<lparr>filename = bytes ''a.c'', ident = bytes ''global1'', func = 3\<rparr>]
   in (\<exists>sorted ps. initfunc_init table = Inr sorted \<and>
         mset ps = filter_mset (in_phase (bytes ''global'')) (mset table) \<and>
         sorted_wrt (\<lambda>p q. strcmp (ident p) (ident q) < 0 \<or>
                       ident p = ident q \<and> strcmp (filename p) (filename q) \<le> 0) ps \<and>
         (\<forall>run panic_test behind (s :: nat list).
            call_initfunc run panic_test behind sorted (bytes ''global'') s = run_all run panic_test ps s)) \<and>
      res_bind (initfunc_init table) (\<lambda>t.
        call_initfunc (\<lambda>f s. Inr (s @ [f])) Inr (\<lambda>_ _. 0) t (bytes ''global'') []) = Inr [3, 1]"
  unfolding Let_def by (intro conjI initfunc_order) code_simp+

end
