(* ===== verification/Vmm_mem.thy ===== *)
theory Vmm_mem
  imports CString Qsort
begin

text \<open>
  The memory the hypervisor takes for itself and the memory map the guest is shown,
  \<^verbatim>\<open>core/x86/vmm_mem.c\<close>: reading the firmware's memory map (BIOS or UEFI),
  choosing the 128 MiB of the hypervisor, the faked map entries, the allocation of
  memory below 1 MiB and above, and the lookup of single-type regions.

  The static variables of the file are the fields of one record. The firmware is a
  parameter: the BIOS call that returns one map entry is a function from the continuation
  value, the UEFI map is the memory it was written to, the UEFI page allocator is a state
  transformer. A \<open>for (nn = 1; nn; n = nn)\<close> loop follows the continuation values of
  the map, which nothing bounds, so it is a partial function.
\<close>

section \<open>Data\<close>

definition SYSMEMMAP_TYPE_AVAILABLE :: u32 where "SYSMEMMAP_TYPE_AVAILABLE = 1"

definition SYSMEMMAP_TYPE_RESERVED :: u32 where "SYSMEMMAP_TYPE_RESERVED = 2"

definition MAXNUM_OF_SYSMEMMAP :: nat where "MAXNUM_OF_SYSMEMMAP = 256"

definition VMMSIZE_ALL :: nat where "VMMSIZE_ALL = 128 * 1024 * 1024"

text \<open>The same constant as an operand of 32-bit arithmetic.\<close>

definition VMMSIZE_U32 :: u32 where "VMMSIZE_U32 = 128 * 1024 * 1024"

record sysmemmap =
  m_base :: u64
  m_len :: u64
  m_type :: u32

record sysmemmapdata =
  e_n :: u32
  e_nn :: u32
  e_m :: sysmemmap

record vmm_mem =
  vmm_start_phys :: u32
  e801_fake_ax :: u16
  e801_fake_bx :: u16
  memorysize :: u64
  vmmsize :: u64
  e820_vmm_base :: u64
  e820_vmm_fake_len :: u64
  e820_vmm_end :: u64
  sysmemmap_tbl :: "sysmemmapdata list"
  realmodemem_base :: u32
  realmodemem_limit :: u32
  realmodemem_fakelimit :: u32

text \<open>What a lookup returns: the continuation value and the entry.\<close>

type_synonym lookup = "u32 \<times> u64 \<times> u64 \<times> u32"

section \<open>Lookup\<close>

fun getsysmemmap_loop :: "sysmemmapdata list \<Rightarrow> u32 \<Rightarrow> lookup" where
  "getsysmemmap_loop [] n = (0, 0, 0, 0)"
| "getsysmemmap_loop (e # es) n =
     (if e_n e = n then (e_nn e, m_base (e_m e), m_len (e_m e), m_type (e_m e))
      else getsysmemmap_loop es n)"

definition getsysmemmap :: "vmm_mem \<Rightarrow> u32 \<Rightarrow> lookup" where
  "getsysmemmap st n = getsysmemmap_loop (sysmemmap_tbl st) n"

definition fake_entry :: "vmm_mem \<Rightarrow> lookup \<Rightarrow> lookup" where
  "fake_entry st e =
     (let (r, base, len, type) = e in
      if type = SYSMEMMAP_TYPE_AVAILABLE then
        let len = (if base = ucast (realmodemem_base st)
                   then ucast (realmodemem_fakelimit st - realmodemem_base st + 1) else len);
            len = (if base = e820_vmm_base st then e820_vmm_fake_len st else len);
            type = (if base > e820_vmm_base st \<and> base < e820_vmm_end st
                    then SYSMEMMAP_TYPE_RESERVED else type)
        in (r, base, len, type)
      else (r, base, len, type))"

definition getfakesysmemmap :: "vmm_mem \<Rightarrow> u32 \<Rightarrow> lookup" where
  "getfakesysmemmap st n = fake_entry st (getsysmemmap st n)"

text \<open>The loop over the map: \<open>body\<close> is what one round does with an entry. A
  \<open>continue\<close> of the source is a body that returns early; the next round starts at the
  entry's continuation value, and the loop ends after an entry whose value is 0.\<close>

partial_function (option) sysmemmap_loop ::
    "(u32 \<Rightarrow> lookup) \<Rightarrow> (u32 \<Rightarrow> lookup \<Rightarrow> 's \<Rightarrow> 's) \<Rightarrow> u32 \<Rightarrow> 's \<Rightarrow> 's option" where
  "sysmemmap_loop get body n s =
     (let e = get n; s = body n e s in
      if fst e = 0 then Some s else sysmemmap_loop get body (fst e) s)"

declare sysmemmap_loop.simps [code]

section \<open>Reading the firmware's map\<close>

fun getallsysmemmap_bios_loop ::
    "(u32 \<Rightarrow> (sysmemmap \<times> u32) option) \<Rightarrow> nat \<Rightarrow> u32 \<Rightarrow> u32 \<Rightarrow> sysmemmapdata list res" where
  "getallsysmemmap_bios_loop callrealmode_getsysmemmap 0 n nn = Inr []"
| "getallsysmemmap_bios_loop callrealmode_getsysmemmap (Suc rest) n nn =
     (if nn = 0 then Inr []
      else case callrealmode_getsysmemmap n of
        None \<Rightarrow> Inl (Panic ''getsysmemmap failed'')
      | Some (m, nn) \<Rightarrow>
          res_bind (getallsysmemmap_bios_loop callrealmode_getsysmemmap rest nn nn) (\<lambda>es.
            Inr (\<lparr>e_n = n, e_nn = nn, e_m = m\<rparr> # es)))"

definition getallsysmemmap_bios ::
    "(u32 \<Rightarrow> (sysmemmap \<times> u32) option) \<Rightarrow> vmm_mem \<Rightarrow> vmm_mem res" where
  "getallsysmemmap_bios callrealmode_getsysmemmap st =
     res_bind (getallsysmemmap_bios_loop callrealmode_getsysmemmap MAXNUM_OF_SYSMEMMAP 0 1) (\<lambda>es.
       Inr (st\<lparr>sysmemmap_tbl := es\<rparr>))"

definition uefi_type :: "u64 \<Rightarrow> u32" where
  "uefi_type p0 =
     (if p0 AND 0xFFFFFFFF \<in> {1, 2, 3, 4, 5, 6, 7} then SYSMEMMAP_TYPE_AVAILABLE
      else SYSMEMMAP_TYPE_RESERVED)"

text \<open>One descriptor: it extends the last entry when it continues it with the same type, and
  is a new entry otherwise. \<open>i\<close> is the number of entries so far.\<close>

definition uefi_add :: "sysmemmapdata list \<Rightarrow> u32 \<Rightarrow> u64 \<Rightarrow> u64 \<Rightarrow> sysmemmapdata list" where
  "uefi_add es type start pages =
     (let i = length es;
          new = \<lparr>e_n = word_of_nat i, e_nn = 0,
                 e_m = \<lparr>m_base = start, m_len = push_bit 12 pages, m_type = type\<rparr>\<rparr>
      in if i > 0 then
           let prev = es ! (i - 1) in
           if m_type (e_m prev) = type \<and> start = m_base (e_m prev) + m_len (e_m prev)
           then es[i - 1 := prev\<lparr>e_m := (e_m prev)\<lparr>m_len := m_len (e_m prev) + push_bit 12 pages\<rparr>\<rparr>]
           else es[i - 1 := prev\<lparr>e_nn := word_of_nat i\<rparr>] @ [new]
         else es @ [new])"

partial_function (option) getallsysmemmap_uefi_loop ::
    "mem \<Rightarrow> u64 \<Rightarrow> u64 \<Rightarrow> u32 \<Rightarrow> sysmemmapdata list \<Rightarrow> sysmemmapdata list option" where
  "getallsysmemmap_uefi_loop data map_size descsize offset es =
     (if length es < MAXNUM_OF_SYSMEMMAP \<and> ucast (offset + 5 * 8) \<le> map_size then
        let p = unat offset
        in getallsysmemmap_uefi_loop data map_size descsize (offset + ucast descsize)
             (uefi_add es (uefi_type (load_ul data p)) (load_ul data (p + 8)) (load_ul data (p + 24)))
      else Some es)"

declare getallsysmemmap_uefi_loop.simps [code]

definition getallsysmemmap_uefi :: "mem \<Rightarrow> u64 \<Rightarrow> u64 \<Rightarrow> vmm_mem \<Rightarrow> vmm_mem option" where
  "getallsysmemmap_uefi data map_size descsize st =
     map_option (\<lambda>es. st\<lparr>sysmemmap_tbl := es\<rparr>) (getallsysmemmap_uefi_loop data map_size descsize 0 [])"

section \<open>Sorted map and single-type regions\<close>

definition cmp_sysmemmap_by_base :: "sysmemmapdata \<Rightarrow> sysmemmapdata \<Rightarrow> int" where
  "cmp_sysmemmap_by_base a b =
     (if m_base (e_m a) > m_base (e_m b) then 1
      else if m_base (e_m a) < m_base (e_m b) then -1 else 0)"

definition sort_sysmemmap :: "vmm_mem \<Rightarrow> vmm_mem res" where
  "sort_sysmemmap st =
     res_bind (qsort cmp_sysmemmap_by_base (sysmemmap_tbl st)) (\<lambda>es. Inr (st\<lparr>sysmemmap_tbl := es\<rparr>))"

fun extend_region :: "u32 \<Rightarrow> u64 \<Rightarrow> sysmemmapdata list \<Rightarrow> u64" where
  "extend_region region_type region_end [] = region_end"
| "extend_region region_type region_end (e # es) =
     (if m_type (e_m e) = region_type \<and> m_base (e_m e) = region_end
      then extend_region region_type (region_end + m_len (e_m e)) es
      else region_end)"

fun find_region :: "u64 \<Rightarrow> sysmemmapdata list \<Rightarrow> (u64 \<times> u64 \<times> u32) option" where
  "find_region phys [] = None"
| "find_region phys (e # es) =
     (let mbase = m_base (e_m e); mlen = m_len (e_m e) in
      if phys < mbase + mlen
      then Some (mbase, extend_region (m_type (e_m e)) (mbase + mlen) es - mbase, m_type (e_m e))
      else find_region phys es)"

definition vmm_mem_continuous_sysmem_type_region :: "vmm_mem \<Rightarrow> u64 \<Rightarrow> (u64 \<times> u64 \<times> u32) option" where
  "vmm_mem_continuous_sysmem_type_region st phys = find_region phys (sysmemmap_tbl st)"

section \<open>Placing the hypervisor\<close>

definition update_e801_fake :: "u32 \<Rightarrow> vmm_mem \<Rightarrow> vmm_mem" where
  "update_e801_fake limit32 st =
     (let tmp = drop_bit 10 limit32 in
      st\<lparr>e801_fake_ax := (if tmp > 0x3C00 then 0x3C00 else ucast tmp),
         e801_fake_bx := (if limit32 > 0x1000000 then ucast (drop_bit 16 (limit32 - 0x1000000)) else 0)\<rparr>)"

text \<open>One round of \<open>find_vmm_phys\<close>: the address found so far, the sum of the available
  memory, and the variables describing the entry the address lies in.\<close>

definition find_vmm_phys_body ::
    "u32 \<Rightarrow> lookup \<Rightarrow> u32 \<times> u64 \<times> vmm_mem \<Rightarrow> u32 \<times> u64 \<times> vmm_mem" where
  "find_vmm_phys_body n e s =
     (let (nn, base, len, type) = e; (phys, memsize, st) = s in
      if type \<noteq> SYSMEMMAP_TYPE_AVAILABLE then (phys, memsize, st)
      else
        let memsize = memsize + len in
        if base \<ge> 0x100000000 then (phys, memsize, st)
        else
          let limit64 = base + len - 1;
              limit64 = (if limit64 \<ge> 0x100000000 then 0xFFFFFFFF else limit64);
              base32 = ucast base :: u32;
              limit32 = ucast limit64 :: u32
          in if base32 > limit32 \<or> base32 > 0xFFFFFFFF - VMMSIZE_U32 + 1 \<or>
                limit32 < VMMSIZE_U32 then (phys, memsize, st)
             else
               let base32 = (base32 + 0x003FFFFF) AND 0xFFC00000;
                   limit32 = ((limit32 + 1) AND 0xFFC00000) - 1
               in if base32 > limit32 then (phys, memsize, st)
                  else if limit32 - base32 \<ge> VMMSIZE_U32 - 1 \<and>
                          phys < limit32 - (VMMSIZE_U32 - 1)
                  then let phys = limit32 - (VMMSIZE_U32 - 1);
                           fake_len = ucast phys - base
                       in (phys, memsize,
                           st\<lparr>e820_vmm_base := base, e820_vmm_fake_len := fake_len,
                              vmmsize := len - fake_len, e820_vmm_end := base + len\<rparr>)
                  else (phys, memsize, st))"

definition find_vmm_phys :: "vmm_mem \<Rightarrow> (u32 \<times> vmm_mem) option" where
  "find_vmm_phys st =
     (let st = st\<lparr>e801_fake_ax := 0, e801_fake_bx := 0, vmmsize := 128 * 1024 * 1024\<rparr> in
      map_option (\<lambda>(phys, memsize, st'). (phys, update_e801_fake phys (st'\<lparr>memorysize := memsize\<rparr>)))
        (sysmemmap_loop (getsysmemmap st) find_vmm_phys_body 0 (0, 0, st)))"

definition find_realmodemem_body :: "u32 \<Rightarrow> lookup \<Rightarrow> vmm_mem \<Rightarrow> vmm_mem" where
  "find_realmodemem_body n e st =
     (let (nn, base, len, type) = e in
      if type \<noteq> SYSMEMMAP_TYPE_AVAILABLE \<or> base \<ge> 0x100000 then st
      else
        let limit64 = base + len - 1 in
        if limit64 \<ge> 0x100000 then st
        else
          let base32 = ucast base :: u32; limit32 = ucast limit64 :: u32 in
          if base32 > limit32 then st
          else if limit32 - base32 \<ge> realmodemem_limit st - realmodemem_base st
          then st\<lparr>realmodemem_base := base32, realmodemem_limit := limit32,
                  realmodemem_fakelimit := limit32\<rparr>
          else st)"

definition find_realmodemem :: "vmm_mem \<Rightarrow> vmm_mem option" where
  "find_realmodemem st =
     (let st = st\<lparr>realmodemem_base := 0, realmodemem_limit := 0, realmodemem_fakelimit := 0\<rparr>
      in sysmemmap_loop (getsysmemmap st) find_realmodemem_body 0 st)"

section \<open>Allocation below 1 MiB and next to the hypervisor\<close>

text \<open>\<open>int0x12\<close> is the 16-bit word at physical address 0x413, the memory size in KiB
  that the BIOS reports.\<close>

definition alloc_realmodemem_bios :: "u32 \<Rightarrow> vmm_mem \<Rightarrow> u16 \<Rightarrow> (u32 \<times> vmm_mem \<times> u16) res" where
  "alloc_realmodemem_bios len st int0x12 =
     res_bind (assert_res (len > 0)) (\<lambda>_.
     res_bind (assert_res (len < realmodemem_fakelimit st - realmodemem_base st + 1)) (\<lambda>_.
       let fakelimit = realmodemem_fakelimit st - len;
           size = ucast (drop_bit 10 (fakelimit + 1)) :: u16
       in Inr (fakelimit + 1, st\<lparr>realmodemem_fakelimit := fakelimit\<rparr>,
               if int0x12 > size then size else int0x12)))"

definition page_up :: "u32 \<Rightarrow> u32" where
  "page_up len = (len + 0x1000 - 1) AND NOT 0xFFF"

definition vmm_mem_alloc_uppermem :: "bool \<Rightarrow> u32 \<Rightarrow> vmm_mem \<Rightarrow> u32 \<times> vmm_mem" where
  "vmm_mem_alloc_uppermem uefi_booted len st =
     (if uefi_booted then (0, st)
      else
        let len = page_up len in
        if e820_vmm_fake_len st \<le> ucast len then (0, st)
        else
          let fake_len = e820_vmm_fake_len st - ucast len
          in (ucast (e820_vmm_base st + fake_len), st\<lparr>e820_vmm_fake_len := fake_len\<rparr>))"

definition vmm_mem_bios_get_usable_mem :: "bool \<Rightarrow> vmm_mem \<Rightarrow> u64" where
  "vmm_mem_bios_get_usable_mem uefi_booted st =
     (if \<not> uefi_booted \<and> memorysize st > vmmsize st then memorysize st - vmmsize st else 0)"

text \<open>\<open>alloc_realmodemem_uefi\<close>. The UEFI page allocator works on a firmware state; it returns a
  status (0 is success) and, for an allocation, the address found at or below the given one.
  The arithmetic is that of the 32-bit types of the source.\<close>

definition alloc_realmodemem_uefi ::
    "(u32 \<Rightarrow> u64 \<Rightarrow> 'f \<Rightarrow> u32 \<times> u64 \<times> 'f) \<Rightarrow> (u64 \<Rightarrow> u32 \<Rightarrow> 'f \<Rightarrow> u32 \<times> 'f) \<Rightarrow>
     u32 \<Rightarrow> vmm_mem \<Rightarrow> 'f \<Rightarrow> (u32 \<times> vmm_mem \<times> 'f) res" where
  "alloc_realmodemem_uefi call_uefi_allocate_pages call_uefi_free_pages len st f =
     (let limit = realmodemem_limit st;
          remain = limit AND 0xFFF;
          grown =
            (if limit \<noteq> 0 \<and> len > remain then
               let npages = drop_bit 12 (len - remain + 0x1000 - 1);
                   (ret, phys, f) = call_uefi_allocate_pages npages (ucast (limit AND NOT 0xFFF)) f
               in if ret \<noteq> 0 then Inl (Panic ''alloc_realmodemem'')
                  else if phys + ucast (push_bit 12 npages) \<noteq> ucast (limit AND NOT 0xFFF) then
                    (let (ret, f) = call_uefi_free_pages phys npages f
                     in if ret \<noteq> 0 then Inl (Panic ''alloc_realmodemem free'') else Inr (0, remain, f))
                  else Inr (limit, remain + push_bit 12 npages, f)
             else Inr (limit, remain, f));
          fresh = res_bind grown (\<lambda>(limit, remain, f).
            if limit = 0 then
              let npages = drop_bit 12 (len + 0x1000 - 1);
                  (ret, phys, f) = call_uefi_allocate_pages npages 0xFFFFF f;
                  remain = push_bit 12 npages
              in if ret \<noteq> 0 then Inl (Panic ''alloc_realmodemem'')
                 else Inr (ucast (phys + ucast remain), remain, f)
            else Inr (limit, remain, f))
      in res_bind fresh (\<lambda>(limit, remain, f).
           res_bind (assert_res (len \<le> remain)) (\<lambda>_.
             Inr (limit - len, st\<lparr>realmodemem_limit := limit - len\<rparr>, f))))"

section \<open>The map given to the guest\<close>

record e820_data =
  d_n :: u32
  d_base :: u64
  d_len :: u64
  d_type :: u32
  d_nn :: u32

text \<open>One round of the loops of \<open>vmm_mem_bios_prepare_e820_mem\<close>: an entry that differs
  from the firmware's is collected.\<close>

definition e820_body :: "vmm_mem \<Rightarrow> u32 \<Rightarrow> lookup \<Rightarrow> e820_data list \<Rightarrow> e820_data list" where
  "e820_body st n e q =
     (if e = getsysmemmap st n then q
      else let (nn1, b1, l1, t1) = e
           in q @ [\<lparr>d_n = n, d_base = b1, d_len = l1, d_type = t1, d_nn = nn1\<rparr>])"

definition e820_entries :: "vmm_mem \<Rightarrow> e820_data list option" where
  "e820_entries st = sysmemmap_loop (getfakesysmemmap st) (e820_body st) 0 []"

text \<open>The parameters patched into the INT 15h hook, and where its code and data go.\<close>

record int0x15_hook =
  h_code :: u64
  h_data :: u64
  h_fake_ax :: u16
  h_fake_bx :: u16
  h_data_minus0x18 :: u16
  h_end :: u16
  h_table :: "e820_data list"

definition vmm_mem_bios_prepare_e820_mem ::
    "u32 \<Rightarrow> vmm_mem \<Rightarrow> u16 \<Rightarrow> (u32 \<times> int0x15_hook \<times> vmm_mem \<times> u16) res option" where
  "vmm_mem_bios_prepare_e820_mem len1 st int0x12 =
     (case alloc_realmodemem_bios len1 st int0x12 of
        Inl e \<Rightarrow> Some (Inl e)
      | Inr (code, st, int0x12) \<Rightarrow>
          Option.bind (e820_entries st) (\<lambda>counted.
          let count = length counted; len2 = word_of_nat (count * 28) in
          case alloc_realmodemem_bios len2 st int0x12 of
            Inl e \<Rightarrow> Some (Inl e)
          | Inr (data, st, int0x12) \<Rightarrow>
              Option.bind (e820_entries st) (\<lambda>q.
              let int0x15_code = ucast code :: u64; int0x15_data = ucast data :: u64;
                  int0x15_base = (if int0x15_data > int0x15_code then int0x15_code else int0x15_data)
                                   AND 0xFFFF0
              in Some (res_bind (assert_res (length q \<le> count)) (\<lambda>_.
                   Inr (ucast ((int0x15_code - int0x15_base) OR push_bit 12 int0x15_base),
                        \<lparr>h_code = int0x15_code, h_data = int0x15_data,
                         h_fake_ax = e801_fake_ax st, h_fake_bx = e801_fake_bx st,
                         h_data_minus0x18 = ucast (int0x15_data - int0x15_base - 0x18),
                         h_end = ucast (int0x15_data + ucast len2 - int0x15_base),
                         h_table = q\<rparr>, st, int0x12))))))"

text \<open>\<open>vmm_mem_bios_clear_guest_pages\<close>: the regions that are set to zero, in order. A
  region is cleared 1 MiB at a time.\<close>

function clear_chunks :: "u64 \<Rightarrow> u64 \<Rightarrow> (u64 \<times> u64) list" where
  "clear_chunks base len =
     (if len \<ge> 0x100000 then (base, 0x100000) # clear_chunks (base + 0x100000) (len - 0x100000)
      else if len > 0 then [(base, len)] else [])"
  by pat_completeness auto
termination
  by (relation "measure (\<lambda>(base, len). unat len)") (auto simp: unat_sub word_le_nat_alt)

declare clear_chunks.simps [simp del]

definition clear_body :: "u32 \<Rightarrow> lookup \<Rightarrow> (u64 \<times> u64) list \<Rightarrow> (u64 \<times> u64) list" where
  "clear_body n e cleared =
     (let (nn, base, len, type) = e in
      if type \<noteq> SYSMEMMAP_TYPE_AVAILABLE \<or> base < 0x100000 \<or> base + len \<le> 0x100000 then cleared
      else cleared @ clear_chunks base len)"

definition vmm_mem_bios_clear_guest_pages :: "vmm_mem \<Rightarrow> (u64 \<times> u64) list option" where
  "vmm_mem_bios_clear_guest_pages st = sysmemmap_loop (getfakesysmemmap st) clear_body 0 []"

text \<open>\<open>vmm_mem_bios_get_tmp_bootsector_mem\<close>: \<open>bufaddr\<close> is the end of the real-mode
  code; the result is the size of the buffer.\<close>

partial_function (option) tmp_bootsector_loop :: "vmm_mem \<Rightarrow> u32 \<Rightarrow> u32 \<Rightarrow> u32 res option" where
  "tmp_bootsector_loop st bufaddr n =
     (let (n, base, len, type) = getfakesysmemmap st n in
      if type \<noteq> SYSMEMMAP_TYPE_AVAILABLE \<or> base > ucast bufaddr \<or> base + len \<le> ucast bufaddr
      then (if n \<noteq> 0 then tmp_bootsector_loop st bufaddr n else Some (Inl (Panic ''tmpbuf not found'')))
      else let len = (if base + len > 0xA0000 then 0xA0000 - base else len)
           in Some (Inr (ucast (base + len - ucast bufaddr))))"

declare tmp_bootsector_loop.simps [code]

definition vmm_mem_bios_get_tmp_bootsector_mem :: "vmm_mem \<Rightarrow> u32 \<Rightarrow> u32 res option" where
  "vmm_mem_bios_get_tmp_bootsector_mem st bufaddr = tmp_bootsector_loop st bufaddr 0"

text \<open>The BIOS branch of \<open>vmm_mem_init\<close>; moving the running image to its new place is
  assembly code and not part of the model.\<close>

definition vmm_mem_init_bios ::
    "(u32 \<Rightarrow> (sysmemmap \<times> u32) option) \<Rightarrow> vmm_mem \<Rightarrow> vmm_mem res option" where
  "vmm_mem_init_bios callrealmode_getsysmemmap st =
     (case getallsysmemmap_bios callrealmode_getsysmemmap st of
        Inl e \<Rightarrow> Some (Inl e)
      | Inr st \<Rightarrow>
          Option.bind (find_realmodemem st) (\<lambda>st.
          Option.bind (find_vmm_phys st) (\<lambda>(phys, st).
          let st = st\<lparr>vmm_start_phys := phys\<rparr> in
          if phys = 0 then Some (Inl (Panic ''Out of memory.'')) else Some (sort_sysmemmap st))))"

section \<open>Linked maps\<close>

text \<open>A map whose entries are linked by their continuation values in the order of the list.\<close>

fun chained :: "u32 \<Rightarrow> sysmemmapdata list \<Rightarrow> bool" where
  "chained n [] \<longleftrightarrow> False"
| "chained n (e # es) \<longleftrightarrow>
     e_n e = n \<and> (if es = [] then e_nn e = 0 else e_nn e \<noteq> 0 \<and> chained (e_nn e) es)"

definition linked :: "sysmemmapdata list \<Rightarrow> bool" where
  "linked es \<longleftrightarrow> chained 0 es \<and> distinct (map e_n es)"

definition entry :: "sysmemmapdata \<Rightarrow> lookup" where
  "entry e = (e_nn e, m_base (e_m e), m_len (e_m e), m_type (e_m e))"

lemma fst_entry [simp]: "fst (entry e) = e_nn e"
  by (simp add: entry_def)

lemma fst_fake_entry [simp]: "fst (fake_entry st x) = fst x"
  by (cases x) (simp add: fake_entry_def Let_def)

lemma getsysmemmap_loop_entry:
  "distinct (map e_n es) \<Longrightarrow> e \<in> set es \<Longrightarrow> getsysmemmap_loop es (e_n e) = entry e"
  by (induction es) (auto simp: entry_def rev_image_eqI)

text \<open>A lookup does not depend on the order of the map.\<close>

lemma getsysmemmap_loop_perm:
  assumes "distinct (map e_n es)" "mset es' = mset es"
  shows "getsysmemmap_loop es' = getsysmemmap_loop es"
proof
  fix n
  have d: "distinct (map e_n es')" using assms by (metis mset_eq_imp_distinct_iff mset_map)
  have s: "set es' = set es" using assms(2) by (rule mset_eq_setD)
  have none: "n \<notin> e_n ` set xs \<Longrightarrow> getsysmemmap_loop xs n = (0, 0, 0, 0)" for xs
    by (induction xs) auto
  show "getsysmemmap_loop es' n = getsysmemmap_loop es n"
  proof (cases "n \<in> e_n ` set es")
    case True
    then obtain e where "e \<in> set es" "n = e_n e" by auto
    then show ?thesis using assms(1) d s by (simp add: getsysmemmap_loop_entry)
  next
    case False
    then show ?thesis using s by (simp add: none)
  qed
qed

text \<open>On a linked map a loop returns, and has visited every entry in the order of the links.\<close>

lemma sysmemmap_loop_chained:
  assumes "chained n es" "\<forall>e \<in> set es. get (e_n e) = v e \<and> fst (v e) = e_nn e"
  shows "sysmemmap_loop get body n s = Some (fold (\<lambda>e. body (e_n e) (v e)) es s)"
  using assms
proof (induction es arbitrary: n s)
  case (Cons e es)
  show ?case
  proof (cases "es = []")
    case True
    then show ?thesis using Cons.prems by (subst sysmemmap_loop.simps) (auto simp: Let_def)
  next
    case False
    then show ?thesis using Cons by (subst sysmemmap_loop.simps) (auto simp: Let_def)
  qed
qed simp

lemma getsysmemmap_entry:
  assumes "linked es" "mset (sysmemmap_tbl st) = mset es" "e \<in> set es"
  shows "getsysmemmap st (e_n e) = entry e"
  using assms getsysmemmap_loop_perm [of es "sysmemmap_tbl st"]
  by (simp add: getsysmemmap_def getsysmemmap_loop_entry linked_def)

lemma real_loop:
  assumes "linked es" "mset (sysmemmap_tbl st) = mset es"
  shows "sysmemmap_loop (getsysmemmap st) body 0 s = Some (fold (\<lambda>e. body (e_n e) (entry e)) es s)"
  using assms by (intro sysmemmap_loop_chained) (auto simp: linked_def getsysmemmap_entry)

lemma fake_loop:
  assumes "linked es" "mset (sysmemmap_tbl st) = mset es"
  shows "sysmemmap_loop (getfakesysmemmap st) body 0 s =
           Some (fold (\<lambda>e. body (e_n e) (fake_entry st (entry e))) es s)"
  using assms
  by (intro sysmemmap_loop_chained) (auto simp: linked_def getfakesysmemmap_def getsysmemmap_entry)

text \<open>The map read from the BIOS is linked unless it was cut off.\<close>

lemma getallsysmemmap_bios_loop_chained:
  assumes "getallsysmemmap_bios_loop call k n nn = Inr es" "nn \<noteq> 0" "es \<noteq> []" "e_nn (last es) = 0"
  shows "chained n es"
  using assms
proof (induction k arbitrary: n nn es)
  case (Suc k)
  then obtain m nn' es' where *: "getallsysmemmap_bios_loop call k nn' nn' = Inr es'"
      "es = \<lparr>e_n = n, e_nn = nn', e_m = m\<rparr> # es'"
    by (auto simp: res_bind_Inr_iff split: option.splits)
  show ?case
  proof (cases "es' = []")
    case True
    then show ?thesis using Suc.prems * by simp
  next
    case False
    then have "nn' \<noteq> 0" using * by (cases k) auto
    then show ?thesis using Suc.IH [OF *(1)] Suc.prems False * by simp
  qed
qed simp

section \<open>The place is the highest one\<close>

text \<open>The end of the last 4 MiB-aligned place in an entry, below 4 GiB.\<close>

definition win_end :: "nat \<Rightarrow> nat \<Rightarrow> nat" where
  "win_end b l = min (b + l) (2 ^ 32) div 2 ^ 22 * 2 ^ 22"

definition fits :: "nat \<Rightarrow> nat \<Rightarrow> bool" where
  "fits b l \<longleftrightarrow> b + VMMSIZE_ALL \<le> win_end b l"

definition place :: "u64 \<Rightarrow> u64 \<Rightarrow> vmm_mem \<Rightarrow> vmm_mem" where
  "place base len st =
     (let phys = win_end (unat base) (unat len) - VMMSIZE_ALL; fake_len = word_of_nat phys - base in
      st\<lparr>e820_vmm_base := base, e820_vmm_fake_len := fake_len,
         vmmsize := len - fake_len, e820_vmm_end := base + len\<rparr>)"

lemma win_end_bound: "win_end b l \<le> 2 ^ 32" "win_end b l \<le> b + l"
proof -
  have "win_end b l \<le> min (b + l) (2 ^ 32)" unfolding win_end_def by (rule div_times_less_eq_dividend)
  then show "win_end b l \<le> 2 ^ 32" "win_end b l \<le> b + l" by simp_all
qed

lemma align_up_le:
  assumes "(m :: nat) dvd h" "0 < m"
  shows "(b + (m - 1)) div m * m \<le> h \<longleftrightarrow> b \<le> h"
proof -
  obtain k where h: "h = k * m" using assms by (metis dvd_div_mult_self)
  have "(b + (m - 1)) div m * m \<le> k * m \<longleftrightarrow> (b + (m - 1)) div m < Suc k"
    using assms by (simp add: less_Suc_eq_le)
  also have "\<dots> \<longleftrightarrow> b + (m - 1) < Suc k * m" using assms by (simp add: div_less_iff_less_mult)
  also have "\<dots> \<longleftrightarrow> b \<le> k * m" using assms by auto
  finally show ?thesis by (simp add: h)
qed

lemma limit_words:
  fixes base len :: u64
  assumes b: "unat base < 2 ^ 32" and l: "len \<noteq> 0" "unat base + unat len \<le> 2 ^ 64"
  defines "limit64 \<equiv> base + len - 1"
  shows "unat (ucast (if limit64 \<ge> 0x100000000 then 0xFFFFFFFF else limit64) :: u32) + 1 =
           min (unat base + unat len) (2 ^ 32)"
proof -
  have "0 < unat len" using l by (simp add: unat_gt_0)
  have "limit64 = base + (len - 1)" by (simp add: limit64_def)
  moreover have "unat (len - 1) = unat len - 1" using \<open>0 < unat len\<close> by (simp add: unat_sub word_le_nat_alt)
  ultimately have u: "unat limit64 = unat base + unat len - 1"
    using \<open>0 < unat len\<close> l by (simp add: unat_add_exact)
  show ?thesis
  proof (cases "limit64 \<ge> 0x100000000")
    case True
    then show ?thesis using u by (simp add: word_le_nat_alt)
  next
    case False
    then have "unat limit64 < 2 ^ 32" using u by (simp add: word_le_nat_alt)
    then show ?thesis using False u \<open>0 < unat len\<close> by (simp add: unat_ucast_exact)
  qed
qed

lemma VMMSIZE_U32_eq: "VMMSIZE_U32 = word_of_nat VMMSIZE_ALL"
  by (simp add: VMMSIZE_U32_def VMMSIZE_ALL_def)

lemma find_vmm_phys_body_fits:
  fixes base len :: u64
  assumes b: "base \<noteq> 0 \<or> len \<noteq> 0" and l: "unat base + unat len \<le> 2 ^ 64"
  shows "find_vmm_phys_body n (nn, base, len, SYSMEMMAP_TYPE_AVAILABLE) (phys, memsize, st) =
    (if fits (unat base) (unat len) \<and> unat phys < win_end (unat base) (unat len) - VMMSIZE_ALL
     then (word_of_nat (win_end (unat base) (unat len) - VMMSIZE_ALL), memsize + len, place base len st)
     else (phys, memsize + len, st))"
proof (cases "unat base < 2 ^ 32 \<and> len \<noteq> 0")
  case False
  then have "\<not> fits (unat base) (unat len)"
    using win_end_bound [of "unat base" "unat len"] by (auto simp: fits_def VMMSIZE_ALL_def)
  moreover have "find_vmm_phys_body n (nn, base, len, SYSMEMMAP_TYPE_AVAILABLE) (phys, memsize, st) =
                   (phys, memsize + len, st)"
  proof (cases "unat base < 2 ^ 32")
    case True
    then have "len = 0" "0 < unat base" using False b by (auto simp: unat_gt_0)
    moreover from this have "unat (base - 1) = unat base - 1" by (simp add: unat_sub word_le_nat_alt)
    moreover have "\<not> 4294967296 \<le> unat base - Suc 0" using True by simp
    ultimately show ?thesis using True
      by (simp add: find_vmm_phys_body_def VMMSIZE_U32_eq word_le_nat_alt word_less_nat_alt unat_ucast_exact Let_def)
  qed (simp add: find_vmm_phys_body_def VMMSIZE_U32_eq word_le_nat_alt)
  ultimately show ?thesis by simp
next
  case True
  define w where "w = win_end (unat base) (unat len)"
  define limit64 where "limit64 = (let limit64 = base + len - 1 in if limit64 \<ge> 0x100000000 then 0xFFFFFFFF else limit64)"
  define base32 :: u32 where "base32 = ucast base"
  define limit32 :: u32 where "limit32 = ucast limit64"
  have u: "unat base32 = unat base" "unat limit32 + 1 = min (unat base + unat len) (2 ^ 32)"
    using limit_words [of base len] True l
    by (auto simp: base32_def limit32_def limit64_def Let_def unat_ucast_exact)
  have nb: "\<not> base \<ge> 0x100000000" using True by (simp add: word_le_nat_alt)
  define base' where "base' = (base32 + 0x003FFFFF) AND 0xFFC00000"
  define limit' where "limit' = ((limit32 + 1) AND 0xFFC00000) - 1"
  define skip where "skip \<longleftrightarrow> base32 > limit32 \<or> base32 > 0xFFFFFFFF - word_of_nat VMMSIZE_ALL + 1 \<or>
                limit32 < word_of_nat VMMSIZE_ALL"
  have body: "find_vmm_phys_body n (nn, base, len, SYSMEMMAP_TYPE_AVAILABLE) (phys, memsize, st) =
     (if skip then (phys, memsize + len, st)
      else if base' > limit' then (phys, memsize + len, st)
      else if limit' - base' \<ge> word_of_nat VMMSIZE_ALL - 1 \<and>
                          phys < limit' - (word_of_nat VMMSIZE_ALL - 1)
                  then let phys = limit' - (word_of_nat VMMSIZE_ALL - 1);
                           fake_len = ucast phys - base
                       in (phys, memsize + len,
                           st\<lparr>e820_vmm_base := base, e820_vmm_fake_len := fake_len,
                              vmmsize := len - fake_len, e820_vmm_end := base + len\<rparr>)
                  else (phys, memsize + len, st))"
    unfolding find_vmm_phys_body_def VMMSIZE_U32_eq skip_def base'_def limit'_def base32_def limit32_def limit64_def
    using nb by (simp add: Let_def)
  have l32: "unat limit32 < 2 ^ 32" by (rule unat_u32_less)
  have wb: "w \<le> 2 ^ 32" "2 ^ 22 dvd w" by (simp_all add: w_def win_end_bound win_end_def)
  show ?thesis
  proof (cases skip)
    case True
    then have "unat base > unat limit32 \<or> unat base > 2 ^ 32 - VMMSIZE_ALL \<or> unat limit32 < VMMSIZE_ALL"
      using u(1) by (auto simp: skip_def word_less_nat_alt VMMSIZE_ALL_def)
    moreover have "w \<le> unat limit32 + 1" unfolding u(2) w_def win_end_def by (rule div_times_less_eq_dividend)
    ultimately have "\<not> (fits (unat base) (unat len) \<and> unat phys < w - VMMSIZE_ALL)"
      using wb l32 unfolding fits_def w_def [symmetric] by (auto simp: VMMSIZE_ALL_def)
    then show ?thesis unfolding w_def using True by (auto simp only: body if_True if_False)
  next
    case False
    then have c: "unat base \<le> 2 ^ 32 - VMMSIZE_ALL" "VMMSIZE_ALL \<le> unat limit32"
      using u(1) by (auto simp: skip_def word_less_nat_alt VMMSIZE_ALL_def)
    have m: "0xFFC00000 = NOT (mask 22 :: u32)" by (simp add: mask_eq_exp_minus_1)
    have "unat (base32 + 0x003FFFFF) = unat base + (2 ^ 22 - 1)"
      using c u(1) by (subst unat_add_exact) (simp_all add: VMMSIZE_ALL_def)
    then have B: "unat base' = (unat base + (2 ^ 22 - 1)) div 2 ^ 22 * 2 ^ 22"
      by (simp only: base'_def m unat_and_not_mask)
    have w: "w = (unat limit32 + 1) div 2 ^ 22 * 2 ^ 22" by (simp only: w_def win_end_def u)
    have wpos: "VMMSIZE_ALL \<le> w"
    proof -
      have "VMMSIZE_ALL div 2 ^ 22 * 2 ^ 22 \<le> w" unfolding w using c(2) by (intro mult_right_mono div_le_mono) simp_all
      then show ?thesis by (simp add: VMMSIZE_ALL_def)
    qed
    have L: "unat limit' = w - 1"
    proof (cases "unat limit32 + 1 < 2 ^ 32")
      case True
      then have "unat (limit32 + 1) = unat limit32 + 1" by (subst unat_add_exact) simp_all
      then have "unat ((limit32 + 1) AND 0xFFC00000) = w" by (simp only: m unat_and_not_mask w)
      moreover from this have "1 \<le> (limit32 + 1) AND 0xFFC00000"
        using wpos by (simp add: word_le_nat_alt VMMSIZE_ALL_def)
      ultimately show ?thesis by (simp only: limit'_def unat_sub_exact) simp
    next
      case False
      then have max: "unat limit32 + 1 = 2 ^ 32" using l32 by simp
      then have "limit32 + 1 = 0" by (simp add: word_unat_eq_iff unat_word_ariths)
      moreover have "unat (- 1 :: u32) = 2 ^ 32 - 1"
        by (simp add: unsigned_minus_1_eq_mask mask_eq_exp_minus_1)
      ultimately show ?thesis using max by (simp add: limit'_def w)
    qed
    have "unat base' \<le> w - VMMSIZE_ALL \<longleftrightarrow> unat base \<le> w - VMMSIZE_ALL"
      unfolding B using wb by (intro align_up_le) (simp_all add: VMMSIZE_ALL_def)
    then have f: "fits (unat base) (unat len) \<longleftrightarrow> unat base' + VMMSIZE_ALL \<le> w"
      unfolding fits_def w_def [symmetric] using wpos by linarith
    have V: "unat (word_of_nat VMMSIZE_ALL - 1 :: u32) = VMMSIZE_ALL - 1" by (simp add: VMMSIZE_ALL_def)
    have phys: "unat (limit' - (word_of_nat VMMSIZE_ALL - 1)) = w - VMMSIZE_ALL"
      using wpos L V by (subst unat_sub_exact) (auto simp: word_le_nat_alt VMMSIZE_ALL_def)
    have big: "word_of_nat VMMSIZE_ALL - 1 \<le> limit' - base' \<longleftrightarrow> unat base' + VMMSIZE_ALL \<le> w"
      if "\<not> limit' < base'"
      using that L V by (auto simp: word_le_nat_alt word_less_nat_alt unat_sub_exact VMMSIZE_ALL_def)
    have sk: "limit' < base' \<Longrightarrow> \<not> unat base' + VMMSIZE_ALL \<le> w"
      using L by (auto simp: word_less_nat_alt VMMSIZE_ALL_def)
    have e: "limit' - (word_of_nat VMMSIZE_ALL - 1) = word_of_nat (w - VMMSIZE_ALL)"
      using phys by (rule word_eq_of_nat)
    have e64: "ucast (word_of_nat (w - VMMSIZE_ALL) :: u32) = (word_of_nat (w - VMMSIZE_ALL) :: u64)"
    proof -
      have "w - VMMSIZE_ALL < 2 ^ 32" using wb by (simp add: VMMSIZE_ALL_def)
      then show ?thesis by (simp add: word_unat_eq_iff unat_of_nat_exact)
    qed
    show ?thesis
      using False sk big phys unfolding body f w_def [symmetric] place_def e e64 Let_def
      by (cases "limit' < base'") (auto simp: word_less_nat_alt)
  qed
qed

definition avail :: "sysmemmapdata \<Rightarrow> bool" where
  "avail e \<longleftrightarrow> m_type (e_m e) = SYSMEMMAP_TYPE_AVAILABLE"

abbreviation lo :: "sysmemmapdata \<Rightarrow> nat" where
  "lo e \<equiv> unat (m_base (e_m e))"

abbreviation sz :: "sysmemmapdata \<Rightarrow> nat" where
  "sz e \<equiv> unat (m_len (e_m e))"

definition sane :: "sysmemmapdata \<Rightarrow> bool" where
  "sane e \<longleftrightarrow> (m_base (e_m e) \<noteq> 0 \<or> m_len (e_m e) \<noteq> 0) \<and> lo e + sz e < 2 ^ 64"

definition window :: "sysmemmapdata \<Rightarrow> nat \<Rightarrow> bool" where
  "window e p \<longleftrightarrow> avail e \<and> 2 ^ 22 dvd p \<and> lo e \<le> p \<and> p + VMMSIZE_ALL \<le> lo e + sz e \<and> p + VMMSIZE_ALL \<le> 2 ^ 32"

lemma window_top:
  assumes "window e p"
  shows "fits (lo e) (sz e) \<and> p \<le> win_end (lo e) (sz e) - VMMSIZE_ALL"
proof -
  have d: "2 ^ 22 dvd p + VMMSIZE_ALL" using assms by (intro dvd_add) (simp_all add: window_def VMMSIZE_ALL_def)
  then have "p + VMMSIZE_ALL = (p + VMMSIZE_ALL) div 2 ^ 22 * 2 ^ 22" by simp
  also have "\<dots> \<le> win_end (lo e) (sz e)"
    unfolding win_end_def using assms by (intro mult_right_mono div_le_mono) (simp_all add: window_def)
  finally show ?thesis using assms by (auto simp: fits_def window_def)
qed

lemma fits_window:
  assumes "fits (lo e) (sz e)" "avail e"
  shows "window e (win_end (lo e) (sz e) - VMMSIZE_ALL)"
proof -
  have "2 ^ 22 dvd win_end (lo e) (sz e) - VMMSIZE_ALL"
    by (intro dvd_diff_nat) (simp_all add: win_end_def VMMSIZE_ALL_def)
  then show ?thesis using assms win_end_bound [of "lo e" "sz e"] by (auto simp: window_def fits_def)
qed

definition chosen :: "sysmemmapdata \<Rightarrow> nat \<Rightarrow> vmm_mem \<Rightarrow> bool" where
  "chosen e p st \<longleftrightarrow> window e p \<and> 0 < p \<and> e820_vmm_base st = m_base (e_m e) \<and>
     unat (e820_vmm_fake_len st) = p - lo e \<and> e820_vmm_end st = m_base (e_m e) + m_len (e_m e) \<and>
     unat (vmmsize st) = sz e - (p - lo e)"

lemma chosen_place:
  assumes "window e p" "0 < p" "p = win_end (lo e) (sz e) - VMMSIZE_ALL"
  shows "chosen e p (place (m_base (e_m e)) (m_len (e_m e)) st)"
proof -
  have p: "lo e \<le> p" "p < 2 ^ 32" "p - lo e \<le> sz e" using assms by (auto simp: window_def VMMSIZE_ALL_def)
  then have "unat (word_of_nat p :: u64) = p" by (simp add: unat_of_nat_exact)
  then have f: "unat (word_of_nat p - m_base (e_m e)) = p - lo e" using p by (simp add: unat_sub_exact word_le_nat_alt)
  then have "unat (m_len (e_m e) - (word_of_nat p - m_base (e_m e))) = sz e - (p - lo e)"
    using p by (simp add: unat_sub_exact word_le_nat_alt)
  then show ?thesis using assms f by (simp add: chosen_def place_def Let_def)
qed

lemma find_vmm_phys_body_other:
  "\<not> avail e \<Longrightarrow> find_vmm_phys_body n (entry e) s = s"
  unfolding find_vmm_phys_body_def VMMSIZE_U32_eq avail_def entry_def Let_def by (cases s) simp

definition same_map :: "vmm_mem \<Rightarrow> vmm_mem \<Rightarrow> bool" where
  "same_map st st' \<longleftrightarrow> sysmemmap_tbl st' = sysmemmap_tbl st \<and> realmodemem_base st' = realmodemem_base st \<and>
     realmodemem_limit st' = realmodemem_limit st \<and> realmodemem_fakelimit st' = realmodemem_fakelimit st"

lemma find_vmm_phys_fold:
  assumes "\<forall>e \<in> set es. avail e \<longrightarrow> sane e"
    and "fold (\<lambda>e. find_vmm_phys_body (e_n e) (entry e)) es (0, 0, st) = (phys, memsize, st')"
  shows "(\<forall>e \<in> set es. \<forall>p. window e p \<longrightarrow> p \<le> unat phys) \<and>
         (phys \<noteq> 0 \<longrightarrow> (\<exists>e \<in> set es. chosen e (unat phys) st')) \<and> same_map st st' \<and>
         memsize = sum_list (map (\<lambda>e. m_len (e_m e)) (filter avail es))"
  using assms
proof (induction es arbitrary: phys memsize st' rule: rev_induct)
  case Nil
  then show ?case by (simp add: same_map_def)
next
  case (snoc e es)
  obtain phys0 memsize0 st0 where r: "fold (\<lambda>e. find_vmm_phys_body (e_n e) (entry e)) es (0, 0, st) = (phys0, memsize0, st0)"
    using prod_cases3 by blast
  note IH = snoc.IH [OF _ r]
  show ?case
  proof (cases "avail e")
    case False
    then have "\<not> window e p" for p by (simp add: window_def)
    then show ?thesis using False IH snoc.prems r by (auto simp: find_vmm_phys_body_other)
  next
    case True
    let ?w = "win_end (lo e) (sz e) - VMMSIZE_ALL"
    have new: "(phys, memsize, st') =
       (if fits (lo e) (sz e) \<and> unat phys0 < ?w
        then (word_of_nat ?w, memsize0 + m_len (e_m e), place (m_base (e_m e)) (m_len (e_m e)) st0)
        else (phys0, memsize0 + m_len (e_m e), st0))"
      using snoc.prems r True find_vmm_phys_body_fits [of "m_base (e_m e)" "m_len (e_m e)"]
      by (simp add: entry_def avail_def sane_def)
    have w32: "unat (word_of_nat ?w :: u32) = ?w"
      using win_end_bound [of "lo e" "sz e"] by (intro unat_of_nat_exact) (simp add: VMMSIZE_ALL_def)
    have IH': "\<forall>e \<in> set es. \<forall>p. window e p \<longrightarrow> p \<le> unat phys0"
        "phys0 \<noteq> 0 \<longrightarrow> (\<exists>e \<in> set es. chosen e (unat phys0) st0)" "same_map st st0"
        "memsize0 = sum_list (map (\<lambda>e. m_len (e_m e)) (filter avail es))"
      using IH snoc.prems(1) by simp_all
    show ?thesis
    proof (cases "fits (lo e) (sz e) \<and> unat phys0 < ?w")
      case take: True
      then have n: "unat phys = ?w" "st' = place (m_base (e_m e)) (m_len (e_m e)) st0"
          "memsize = memsize0 + m_len (e_m e)"
        using new w32 by simp_all
      have "chosen e (unat phys) st'"
        unfolding n using chosen_place fits_window take True by auto
      moreover have "same_map st st'" using IH'(3) n by (simp add: same_map_def place_def Let_def)
      moreover have "p \<le> unat phys" if "window x p" "x \<in> set (es @ [e])" for x p
      proof (cases "x = e")
        case True
        then show ?thesis using that(1) window_top n(1) by simp
      next
        case False
        then have "p \<le> unat phys0" using that IH'(1) by simp
        then show ?thesis using take n(1) by simp
      qed
      ultimately show ?thesis using IH'(4) n(3) True by (intro conjI) (fastforce, force, assumption, simp)
    next
      case skip: False
      then have n: "phys = phys0" "st' = st0" "memsize = memsize0 + m_len (e_m e)" using new by auto
      have "p \<le> unat phys0" if "window x p" "x \<in> set (es @ [e])" for x p
      proof (cases "x = e")
        case True
        then show ?thesis using that(1) window_top [of e p] skip by auto
      next
        case False
        then show ?thesis using that IH'(1) by simp
      qed
      then show ?thesis unfolding n using IH'(2-4) True by (intro conjI) (fastforce, force, assumption, simp)
    qed
  qed
qed

section \<open>What the guest sees\<close>

definition guest_visible :: "vmm_mem \<Rightarrow> nat \<Rightarrow> bool" where
  "guest_visible st a \<longleftrightarrow>
     (\<exists>n. case getfakesysmemmap st n of (nn, base, len, type) \<Rightarrow>
        type = SYSMEMMAP_TYPE_AVAILABLE \<and> unat base \<le> a \<and> a < unat base + unat len)"

definition overlap :: "sysmemmapdata \<Rightarrow> sysmemmapdata \<Rightarrow> bool" where
  "overlap e e' \<longleftrightarrow> lo e < lo e' + sz e' \<and> lo e' < lo e + sz e"

text \<open>The firmware's map: linked, the available entries sane and disjoint.\<close>

definition map_ok :: "sysmemmapdata list \<Rightarrow> bool" where
  "map_ok es \<longleftrightarrow> linked es \<and> (\<forall>e \<in> set es. avail e \<longrightarrow> sane e) \<and>
     (\<forall>e \<in> set es. \<forall>e' \<in> set es. avail e \<and> avail e' \<and> e \<noteq> e' \<longrightarrow> \<not> overlap e e')"

definition realmode_ok :: "vmm_mem \<Rightarrow> bool" where
  "realmode_ok st \<longleftrightarrow> realmodemem_base st \<le> realmodemem_fakelimit st \<and>
     unat (realmodemem_fakelimit st) < 2 ^ 20"

text \<open>The invariant: the hypervisor lies at \<open>p\<close> in the entry \<open>c\<close>, whose faked length
  ends at or below \<open>p\<close>.\<close>

definition vmm_inv :: "sysmemmapdata list \<Rightarrow> sysmemmapdata \<Rightarrow> nat \<Rightarrow> vmm_mem \<Rightarrow> bool" where
  "vmm_inv es c p st \<longleftrightarrow> map_ok es \<and> mset (sysmemmap_tbl st) = mset es \<and> c \<in> set es \<and>
     window c p \<and> 0 < p \<and> e820_vmm_base st = m_base (e_m c) \<and>
     lo c + unat (e820_vmm_fake_len st) \<le> p \<and> realmode_ok st"

lemma getsysmemmap_cases:
  assumes "linked es" "mset (sysmemmap_tbl st) = mset es"
  obtains e where "e \<in> set es" "e_n e = n" "getsysmemmap st n = entry e"
  | "getsysmemmap st n = (0, 0, 0, 0)"
proof (cases "n \<in> e_n ` set es")
  case True
  then show ?thesis using that(1) getsysmemmap_entry [OF assms] by auto
next
  case False
  have "n \<notin> e_n ` set xs \<Longrightarrow> getsysmemmap_loop xs n = (0, 0, 0, 0)" for xs by (induction xs) auto
  then show ?thesis using that(2) False assms(2) by (metis getsysmemmap_def mset_eq_setD)
qed

lemma hidden:
  assumes inv: "vmm_inv es c p st"
    and a: "lo c + unat (e820_vmm_fake_len st) \<le> a" "a < lo c + sz c" "2 ^ 20 \<le> a"
  shows "\<not> guest_visible st a"
proof
  assume "guest_visible st a"
  then obtain n nn base len where f: "getfakesysmemmap st n = (nn, base, len, SYSMEMMAP_TYPE_AVAILABLE)"
      and in_f: "unat base \<le> a" "a < unat base + unat len"
    by (auto simp: guest_visible_def)
  have m: "linked es" "mset (sysmemmap_tbl st) = mset es" using inv by (auto simp: vmm_inv_def map_ok_def)
  from m show False
  proof (cases rule: getsysmemmap_cases [of es st n])
    case (1 e)
    then have e: "avail e" "base = m_base (e_m e)"
      and len: "len = (if base = e820_vmm_base st then e820_vmm_fake_len st
         else if base = ucast (realmodemem_base st)
         then ucast (realmodemem_fakelimit st - realmodemem_base st + 1) else m_len (e_m e))"
      using f by (auto simp: getfakesysmemmap_def fake_entry_def entry_def avail_def Let_def
          SYSMEMMAP_TYPE_AVAILABLE_def SYSMEMMAP_TYPE_RESERVED_def split: if_splits)
    show False
    proof (cases "base = e820_vmm_base st")
      case True
      then show False using len a in_f inv by (simp add: vmm_inv_def)
    next
      case other: False
      then have "e \<noteq> c" using e inv by (auto simp: vmm_inv_def)
      show False
      proof (cases "base = ucast (realmodemem_base st)")
        case True
        have r: "realmodemem_base st \<le> realmodemem_fakelimit st" "unat (realmodemem_fakelimit st) < 2 ^ 20"
          using inv by (auto simp: vmm_inv_def realmode_ok_def)
        then have "unat (realmodemem_fakelimit st - realmodemem_base st + 1) =
                     unat (realmodemem_fakelimit st) - unat (realmodemem_base st) + 1"
          by (subst unat_add_exact) (simp_all add: unat_sub_exact)
        then have "unat base + unat len = unat (realmodemem_fakelimit st) + 1"
          using len other True r by (simp add: word_le_nat_alt)
        then show False using in_f a r by simp
      next
        case False
        then have "len = m_len (e_m e)" using other len by simp
        then have "overlap e c" using e in_f a by (auto simp: overlap_def)
        then show False using inv 1(1) e \<open>e \<noteq> c\<close>
          unfolding vmm_inv_def map_ok_def window_def by blast
      qed
    qed
  next
    case 2
    then show False using f by (simp add: getfakesysmemmap_def fake_entry_def SYSMEMMAP_TYPE_AVAILABLE_def)
  qed
qed

lemma vmm_hidden:
  assumes "vmm_inv es c p st" "p \<le> a" "a < p + VMMSIZE_ALL"
  shows "\<not> guest_visible st a"
proof -
  have "2 ^ 22 dvd p" "0 < p" "p + VMMSIZE_ALL \<le> lo c + sz c" "lo c + unat (e820_vmm_fake_len st) \<le> p"
    using assms(1) by (auto simp: vmm_inv_def window_def)
  moreover from this have "2 ^ 22 \<le> p" by (auto dest: dvd_imp_le)
  ultimately show ?thesis using assms by (intro hidden) auto
qed

section \<open>The allocations keep the hypervisor hidden\<close>

inductive vmm_step :: "vmm_mem \<Rightarrow> vmm_mem \<Rightarrow> bool" where
  realmode: "alloc_realmodemem_bios len st w = Inr (r, st', w') \<Longrightarrow> vmm_step st st'"
| upper: "vmm_mem_alloc_uppermem uefi len st = (r, st') \<Longrightarrow> vmm_step st st'"

lemma alloc_realmodemem_bios_ok:
  assumes "alloc_realmodemem_bios len st w = Inr (r, st', w')" "realmode_ok st"
  shows "realmode_ok st' \<and> unat r = unat (realmodemem_fakelimit st') + 1 \<and>
         unat r + unat len = unat (realmodemem_fakelimit st) + 1 \<and>
         st' = st\<lparr>realmodemem_fakelimit := realmodemem_fakelimit st - len\<rparr>"
proof -
  let ?b = "realmodemem_base st" and ?f = "realmodemem_fakelimit st"
  have ok: "unat ?b \<le> unat ?f" "unat ?f < 2 ^ 20" using assms(2) by (auto simp: realmode_ok_def word_le_nat_alt)
  have a: "len > 0" "len < ?f - ?b + 1" and r: "r = ?f - len + 1" "st' = st\<lparr>realmodemem_fakelimit := ?f - len\<rparr>"
    using assms(1) by (auto simp: alloc_realmodemem_bios_def res_bind_Inr_iff Let_def)
  have "unat (?f - ?b + 1) = unat ?f - unat ?b + 1"
    using ok by (subst unat_add_exact) (simp_all add: unat_sub_exact word_le_nat_alt)
  then have l: "unat len \<le> unat ?f - unat ?b" using a by (simp add: word_less_nat_alt)
  then have f: "unat (?f - len) = unat ?f - unat len" using ok by (simp add: unat_sub_exact word_le_nat_alt)
  then have "unat r = unat ?f - unat len + 1" using ok r by (simp add: unat_add_exact)
  then show ?thesis using r f l ok by (auto simp: realmode_ok_def word_le_nat_alt)
qed

lemma alloc_uppermem_ok:
  assumes "vmm_mem_alloc_uppermem uefi len st = (r, st')"
  shows "st' = st \<and> r = 0 \<or>
    (\<exists>k. unat (e820_vmm_fake_len st') + unat k = unat (e820_vmm_fake_len st) \<and>
      k = page_up len \<and> r = ucast (e820_vmm_base st + e820_vmm_fake_len st') \<and>
      st' = st\<lparr>e820_vmm_fake_len := e820_vmm_fake_len st'\<rparr>)"
proof (cases "uefi \<or> e820_vmm_fake_len st \<le> ucast (page_up len)")
  case True
  then show ?thesis using assms by (auto simp: vmm_mem_alloc_uppermem_def Let_def split: if_splits)
next
  case False
  let ?k = "page_up len"
  have "ucast ?k \<le> e820_vmm_fake_len st" using False by (auto simp: not_le)
  then have "unat (e820_vmm_fake_len st - ucast ?k) + unat ?k = unat (e820_vmm_fake_len st)"
    by (simp add: unat_sub_exact word_le_nat_alt)
  moreover have "st' = st\<lparr>e820_vmm_fake_len := e820_vmm_fake_len st - ucast ?k\<rparr>"
      "r = ucast (e820_vmm_base st + (e820_vmm_fake_len st - ucast ?k))"
    using False assms by (auto simp: vmm_mem_alloc_uppermem_def Let_def)
  ultimately show ?thesis by (intro disjI2 exI [of _ ?k]) simp
qed

lemma vmm_step_inv:
  assumes "vmm_step st st'" "vmm_inv es c p st"
  shows "vmm_inv es c p st'"
  using assms
proof cases
  case (realmode len w r w')
  then show ?thesis using assms(2) alloc_realmodemem_bios_ok by (fastforce simp: vmm_inv_def)
next
  case (upper uefi len r)
  from alloc_uppermem_ok [OF this] show ?thesis
  proof
    assume "\<exists>k. unat (e820_vmm_fake_len st') + unat k = unat (e820_vmm_fake_len st) \<and>
      k = page_up len \<and> r = ucast (e820_vmm_base st + e820_vmm_fake_len st') \<and>
      st' = st\<lparr>e820_vmm_fake_len := e820_vmm_fake_len st'\<rparr>"
    then have f: "st' = st\<lparr>e820_vmm_fake_len := e820_vmm_fake_len st'\<rparr>"
        "unat (e820_vmm_fake_len st') \<le> unat (e820_vmm_fake_len st)" by auto
    have "sysmemmap_tbl st' = sysmemmap_tbl st" "e820_vmm_base st' = e820_vmm_base st"
        "realmodemem_base st' = realmodemem_base st" "realmodemem_fakelimit st' = realmodemem_fakelimit st"
      by (subst f(1), simp)+
    then show ?thesis using assms(2) f(2) by (auto simp: vmm_inv_def realmode_ok_def)
  qed (use assms(2) in simp)
qed

lemma vmm_steps_inv: "vmm_step\<^sup>*\<^sup>* st st' \<Longrightarrow> vmm_inv es c p st \<Longrightarrow> vmm_inv es c p st'"
  by (induction rule: rtranclp_induct) (auto intro: vmm_step_inv)


lemma find_realmodemem_body_ok:
  assumes "realmode_ok st"
  shows "realmode_ok (find_realmodemem_body n e st)"
proof -
  obtain nn base len type where e: "e = (nn, base, len, type)" using prod_cases4 by blast
  have *: "unat (ucast (base + len - 1) :: u32) < 2 ^ 20" if "\<not> base + len - 1 \<ge> 0x100000"
    using that unat_ucast_exact [of "base + len - 1", where ?'v = 32] by (simp add: word_le_nat_alt)
  show ?thesis
    unfolding find_realmodemem_body_def e Let_def prod.case using assms *
    by (auto simp: realmode_ok_def not_less)
qed

lemma find_realmodemem_body_tbl: "sysmemmap_tbl (find_realmodemem_body n e st) = sysmemmap_tbl st"
  by (cases e) (simp add: find_realmodemem_body_def Let_def)

lemma find_realmodemem_linked:
  assumes "linked (sysmemmap_tbl st)"
  shows "\<exists>st'. find_realmodemem st = Some st' \<and> realmode_ok st' \<and> sysmemmap_tbl st' = sysmemmap_tbl st"
proof -
  let ?st = "st\<lparr>realmodemem_base := 0, realmodemem_limit := 0, realmodemem_fakelimit := 0\<rparr>"
  let ?f = "\<lambda>es. fold (\<lambda>e. find_realmodemem_body (e_n e) (entry e)) es ?st"
  have "realmode_ok (?f es) \<and> sysmemmap_tbl (?f es) = sysmemmap_tbl st" for es
    by (induction es rule: rev_induct)
      (auto simp: find_realmodemem_body_ok find_realmodemem_body_tbl, simp add: realmode_ok_def)
  moreover have "find_realmodemem st = Some (?f (sysmemmap_tbl st))"
    using real_loop [OF assms, of ?st] by (simp add: find_realmodemem_def Let_def)
  ultimately show ?thesis by blast
qed

lemma update_e801_fake_map [simp]:
  "sysmemmap_tbl (update_e801_fake l st) = sysmemmap_tbl st"
  "realmode_ok (update_e801_fake l st) = realmode_ok st"
  "chosen e p (update_e801_fake l st) = chosen e p st"
  "chosen e p (st\<lparr>memorysize := m\<rparr>) = chosen e p st"
  "realmode_ok (st\<lparr>memorysize := m\<rparr>) = realmode_ok st"
  by (simp_all add: update_e801_fake_def Let_def realmode_ok_def chosen_def)

lemma find_vmm_phys_linked:
  assumes "linked (sysmemmap_tbl st)" "\<forall>e \<in> set (sysmemmap_tbl st). avail e \<longrightarrow> sane e"
  shows "\<exists>phys st'. find_vmm_phys st = Some (phys, st') \<and>
           (\<forall>e \<in> set (sysmemmap_tbl st). \<forall>p. window e p \<longrightarrow> p \<le> unat phys) \<and>
           (phys \<noteq> 0 \<longrightarrow> (\<exists>e \<in> set (sysmemmap_tbl st). chosen e (unat phys) st')) \<and>
           memorysize st' = sum_list (map (\<lambda>e. m_len (e_m e)) (filter avail (sysmemmap_tbl st))) \<and>
           sysmemmap_tbl st' = sysmemmap_tbl st \<and> (realmode_ok st \<longrightarrow> realmode_ok st')"
proof -
  let ?st = "st\<lparr>e801_fake_ax := 0, e801_fake_bx := 0, vmmsize := 128 * 1024 * 1024\<rparr>"
  obtain phys memsize st0 where r:
    "fold (\<lambda>e. find_vmm_phys_body (e_n e) (entry e)) (sysmemmap_tbl st) (0, 0, ?st) = (phys, memsize, st0)"
    using prod_cases3 by blast
  have "find_vmm_phys st = Some (phys, update_e801_fake phys (st0\<lparr>memorysize := memsize\<rparr>))"
    using real_loop [OF assms(1), of ?st find_vmm_phys_body "(0, 0, ?st)"] r by (simp add: find_vmm_phys_def Let_def)
  moreover note find_vmm_phys_fold [OF assms(2) r]
  moreover have "memorysize (update_e801_fake phys (st0\<lparr>memorysize := memsize\<rparr>)) = memsize"
    by (simp add: update_e801_fake_def Let_def)
  moreover from calculation(2) have "realmode_ok st \<longrightarrow> realmode_ok st0"
    by (auto simp: same_map_def realmode_ok_def)
  ultimately show ?thesis by (auto simp: same_map_def)
qed

interpretation sysmemmap_order: qsort_order cmp_sysmemmap_by_base "\<lambda>_. True"
  by unfold_locales (auto simp: cmp_sysmemmap_by_base_def split: if_splits)

lemma sort_sysmemmap_ok:
  "\<exists>es. sort_sysmemmap st = Inr (st\<lparr>sysmemmap_tbl := es\<rparr>) \<and> mset es = mset (sysmemmap_tbl st) \<and>
     sorted_wrt (\<lambda>x y. m_base (e_m x) \<le> m_base (e_m y)) es"
proof -
  have "cmp_sysmemmap_by_base x y \<le> 0 \<longleftrightarrow> m_base (e_m x) \<le> m_base (e_m y)" for x y
    by (auto simp: cmp_sysmemmap_by_base_def)
  then show ?thesis
    using sysmemmap_order.qsort_correct [of "sysmemmap_tbl st"] by (auto simp: sort_sysmemmap_def)
qed

lemma vmm_mem_init_bios_inv:
  assumes "getallsysmemmap_bios call st0 = Inr st1" "map_ok (sysmemmap_tbl st1)"
  shows "vmm_mem_init_bios call st0 = Some (Inl (Panic ''Out of memory.'')) \<and>
           (\<forall>e \<in> set (sysmemmap_tbl st1). \<forall>p. window e p \<longrightarrow> p = 0) \<or>
         (\<exists>st c. vmm_mem_init_bios call st0 = Some (Inr st) \<and>
            vmm_inv (sysmemmap_tbl st1) c (unat (vmm_start_phys st)) st \<and>
            (\<forall>e \<in> set (sysmemmap_tbl st1). \<forall>p. window e p \<longrightarrow> p \<le> unat (vmm_start_phys st)) \<and>
            sorted_wrt (\<lambda>x y. m_base (e_m x) \<le> m_base (e_m y)) (sysmemmap_tbl st))"
proof -
  let ?es = "sysmemmap_tbl st1"
  have m: "linked ?es" "\<forall>e \<in> set ?es. avail e \<longrightarrow> sane e" using assms(2) by (auto simp: map_ok_def)
  obtain st2 where st2: "find_realmodemem st1 = Some st2" "realmode_ok st2" "sysmemmap_tbl st2 = ?es"
    using find_realmodemem_linked [OF m(1)] by blast
  obtain phys st3 where st3: "find_vmm_phys st2 = Some (phys, st3)"
      "\<forall>e \<in> set ?es. \<forall>p. window e p \<longrightarrow> p \<le> unat phys"
      "phys \<noteq> 0 \<longrightarrow> (\<exists>e \<in> set ?es. chosen e (unat phys) st3)"
      "sysmemmap_tbl st3 = ?es" "realmode_ok st3"
    using find_vmm_phys_linked [of st2] m st2 by auto
  let ?st = "st3\<lparr>vmm_start_phys := phys\<rparr>"
  obtain es where es: "sort_sysmemmap ?st = Inr (?st\<lparr>sysmemmap_tbl := es\<rparr>)" "mset es = mset ?es"
      "sorted_wrt (\<lambda>x y. m_base (e_m x) \<le> m_base (e_m y)) es"
    using sort_sysmemmap_ok [of ?st] st3(4) by auto
  have init: "vmm_mem_init_bios call st0 =
          (if phys = 0 then Some (Inl (Panic ''Out of memory.'')) else Some (sort_sysmemmap ?st))"
    using assms(1) st2(1) st3(1) by (simp add: vmm_mem_init_bios_def Let_def)
  show ?thesis
  proof (cases "phys = 0")
    case True
    then show ?thesis using init st3(2) by auto
  next
    case False
    then obtain c where "c \<in> set ?es" "chosen c (unat phys) st3" using st3(3) by blast
    then have "vmm_inv ?es c (unat phys) (?st\<lparr>sysmemmap_tbl := es\<rparr>)"
      using assms(2) st3(5) es(2) by (auto simp: vmm_inv_def chosen_def realmode_ok_def window_def)
    then show ?thesis using False init es st3(2) by auto
  qed
qed

section \<open>Clearing the guest's memory\<close>

definition in_chunks :: "(u64 \<times> u64) list \<Rightarrow> nat \<Rightarrow> bool" where
  "in_chunks cs a \<longleftrightarrow> (\<exists>(b, l) \<in> set cs. unat b \<le> a \<and> a < unat b + unat l)"

lemma in_chunks_simps [simp]:
  "in_chunks [] a = False"
  "in_chunks (x # cs) a \<longleftrightarrow> unat (fst x) \<le> a \<and> a < unat (fst x) + unat (snd x) \<or> in_chunks cs a"
  "in_chunks (cs @ ds) a \<longleftrightarrow> in_chunks cs a \<or> in_chunks ds a"
  by (auto simp: in_chunks_def)

lemma clear_chunks_all:
  "unat base + unat len < 2 ^ 64 \<Longrightarrow>
     in_chunks (clear_chunks base len) a \<longleftrightarrow> unat base \<le> a \<and> a < unat base + unat len"
proof (induction base len rule: clear_chunks.induct)
  case (1 base len)
  show ?case
  proof (cases "len \<ge> 0x100000")
    case True
    then have l: "unat (len - 0x100000) = unat len - 0x100000" "0x100000 \<le> unat len"
      by (simp_all add: unat_sub_exact word_le_nat_alt)
    moreover have "unat (base + 0x100000) = unat base + 0x100000"
      using 1(2) l by (subst unat_add_exact) simp_all
    ultimately show ?thesis
      using 1 True by (subst clear_chunks.simps) auto
  next
    case False
    then show ?thesis by (subst clear_chunks.simps) (auto simp: word_less_nat_alt)
  qed
qed

lemma fake_entry_bound:
  assumes "vmm_inv es c p st" "e \<in> set es" "fake_entry st (entry e) = (nn, base, len, SYSMEMMAP_TYPE_AVAILABLE)"
  shows "unat base + unat len < 2 ^ 64"
proof -
  have e: "avail e" "base = m_base (e_m e)"
    and len: "len = (if base = e820_vmm_base st then e820_vmm_fake_len st
         else if base = ucast (realmodemem_base st)
         then ucast (realmodemem_fakelimit st - realmodemem_base st + 1) else m_len (e_m e))"
    using assms(3) by (auto simp: fake_entry_def entry_def avail_def Let_def
          SYSMEMMAP_TYPE_AVAILABLE_def SYSMEMMAP_TYPE_RESERVED_def split: if_splits)
  have "lo c + unat (e820_vmm_fake_len st) < 2 ^ 64" "e820_vmm_base st = m_base (e_m c)"
    using assms(1) by (auto simp: vmm_inv_def window_def VMMSIZE_ALL_def)
  moreover have "unat (ucast (realmodemem_base st) :: u64) +
      unat (ucast (realmodemem_fakelimit st - realmodemem_base st + 1) :: u64) < 2 ^ 64"
    using unat_u32_less [of "realmodemem_base st"]
      unat_u32_less [of "realmodemem_fakelimit st - realmodemem_base st + 1"] by simp
  moreover have "lo e + sz e < 2 ^ 64" using assms(1,2) e by (auto simp: vmm_inv_def map_ok_def sane_def)
  ultimately show ?thesis using len e by (auto split: if_splits)
qed

lemma clear_fold:
  assumes "vmm_inv es c p st" "set xs \<subseteq> set es"
  shows "in_chunks (fold (\<lambda>e. clear_body (e_n e) (fake_entry st (entry e))) xs cs) a \<longleftrightarrow>
           in_chunks cs a \<or>
           (\<exists>e \<in> set xs. case fake_entry st (entry e) of (nn, base, len, type) \<Rightarrow>
              type = SYSMEMMAP_TYPE_AVAILABLE \<and> 0x100000 \<le> base \<and> unat base \<le> a \<and> a < unat base + unat len)"
  using assms(2)
proof (induction xs arbitrary: cs)
  case (Cons e xs)
  obtain nn base len type where f: "fake_entry st (entry e) = (nn, base, len, type)" using prod_cases4 by blast
  have "in_chunks (clear_body (e_n e) (fake_entry st (entry e)) cs) a \<longleftrightarrow> in_chunks cs a \<or>
     (type = SYSMEMMAP_TYPE_AVAILABLE \<and> 0x100000 \<le> base \<and> unat base \<le> a \<and> a < unat base + unat len)"
  proof (cases "type = SYSMEMMAP_TYPE_AVAILABLE \<and> 0x100000 \<le> base")
    case True
    then have b: "unat base + unat len < 2 ^ 64" using fake_entry_bound [OF assms(1)] f Cons.prems by auto
    then have "base + len \<le> 0x100000 \<longleftrightarrow> unat base + unat len \<le> 0x100000"
      by (simp add: word_le_nat_alt unat_add_exact)
    then show ?thesis using True b clear_chunks_all [OF b, of a]
      by (auto simp: clear_body_def f word_le_nat_alt word_less_nat_alt)
  next
    case False
    then show ?thesis by (auto simp: clear_body_def f not_le)
  qed
  then show ?case using Cons by (auto simp: f)
qed simp

lemma visible_entry:
  assumes "vmm_inv es c p st" "e \<in> set es" "fake_entry st (entry e) = (nn, base, len, SYSMEMMAP_TYPE_AVAILABLE)"
    "unat base \<le> a" "a < unat base + unat len"
  shows "guest_visible st a"
proof -
  have "getfakesysmemmap st (e_n e) = fake_entry st (entry e)"
    using assms(1,2) getsysmemmap_entry [of es st e] by (simp add: getfakesysmemmap_def vmm_inv_def map_ok_def)
  then show ?thesis using assms(3-5) unfolding guest_visible_def by (intro exI [of _ "e_n e"]) simp
qed

lemma clear_guest_pages:
  assumes "vmm_inv es c p st"
  shows "\<exists>cs. vmm_mem_bios_clear_guest_pages st = Some cs \<and>
     (\<forall>a. in_chunks cs a \<longrightarrow> guest_visible st a) \<and>
     (\<forall>a. \<forall>e \<in> set es. case fake_entry st (entry e) of (nn, base, len, type) \<Rightarrow>
        type = SYSMEMMAP_TYPE_AVAILABLE \<and> 0x100000 \<le> base \<and> unat base \<le> a \<and> a < unat base + unat len \<longrightarrow>
        in_chunks cs a)"
proof -
  let ?cs = "fold (\<lambda>e. clear_body (e_n e) (fake_entry st (entry e))) es []"
  have "vmm_mem_bios_clear_guest_pages st = Some ?cs"
    unfolding vmm_mem_bios_clear_guest_pages_def
    using assms by (intro fake_loop) (auto simp: vmm_inv_def map_ok_def)
  moreover have "guest_visible st a" if "in_chunks ?cs a" for a
    using that visible_entry [OF assms] by (auto simp: clear_fold [OF assms])
  moreover have "in_chunks ?cs a" if "e \<in> set es" "fake_entry st (entry e) = (nn, base, len, SYSMEMMAP_TYPE_AVAILABLE)"
      "0x100000 \<le> base" "unat base \<le> a" "a < unat base + unat len" for a e nn base len
    unfolding clear_fold [OF assms order_refl] using that by (intro disjI2 bexI [of _ e]) simp_all
  ultimately show ?thesis by (intro exI [of _ ?cs]) auto
qed

section \<open>Single-type regions\<close>

definition regions_ok :: "sysmemmapdata list \<Rightarrow> bool" where
  "regions_ok es \<longleftrightarrow> sorted_wrt (\<lambda>x y. lo x + sz x \<le> lo y) es \<and> (\<forall>e \<in> set es. 0 < sz e \<and> lo e + sz e < 2 ^ 64)"

definition has_type :: "sysmemmapdata list \<Rightarrow> nat \<Rightarrow> u32 \<Rightarrow> bool" where
  "has_type es a t \<longleftrightarrow> (\<exists>e \<in> set es. m_type (e_m e) = t \<and> lo e \<le> a \<and> a < lo e + sz e)"

lemma region_end_unat: "lo e + sz e < 2 ^ 64 \<Longrightarrow> unat (m_base (e_m e) + m_len (e_m e)) = lo e + sz e"
  by (simp add: unat_add_exact)

lemma extend_region_ok:
  assumes "regions_ok es" "\<forall>e \<in> set es. unat r \<le> lo e"
  shows "r \<le> extend_region t r es \<and>
         (\<forall>a. unat r \<le> a \<and> a < unat (extend_region t r es) \<longrightarrow> has_type es a t) \<and>
         (\<forall>e \<in> set es. m_type (e_m e) = t \<longrightarrow> lo e \<noteq> unat (extend_region t r es))"
  using assms
proof (induction es arbitrary: r)
  case (Cons e es)
  have ok: "regions_ok es" "\<forall>x \<in> set es. lo e + sz e \<le> lo x" "0 < sz e" "lo e + sz e < 2 ^ 64"
    using Cons.prems(1) by (auto simp: regions_ok_def)
  show ?case
  proof (cases "m_type (e_m e) = t \<and> m_base (e_m e) = r")
    case True
    let ?q = "m_base (e_m e) + m_len (e_m e)" and ?r = "extend_region t (m_base (e_m e) + m_len (e_m e)) es"
    have q: "unat ?q = lo e + sz e" using ok(4) by (rule region_end_unat)
    have IH: "?q \<le> ?r" "\<forall>a. unat ?q \<le> a \<and> a < unat ?r \<longrightarrow> has_type es a t"
        "\<forall>x \<in> set es. m_type (e_m x) = t \<longrightarrow> lo x \<noteq> unat ?r"
      using Cons.IH [of ?q] ok q by auto
    have "has_type (e # es) a t" if "unat r \<le> a" "a < unat ?r" for a
    proof (cases "a < lo e + sz e")
      case True
      then show ?thesis using that \<open>m_type (e_m e) = t \<and> m_base (e_m e) = r\<close> by (auto simp: has_type_def)
    next
      case False
      then have "has_type es a t" using IH(2) q that by simp
      then show ?thesis by (auto simp: has_type_def)
    qed
    moreover have "lo e \<noteq> unat ?r" using IH(1) q ok(3) by (simp add: word_le_nat_alt)
    moreover have "r \<le> ?r" using IH(1) q True by (simp add: word_le_nat_alt)
    ultimately show ?thesis using True IH(3) by auto
  next
    case False
    have "lo x \<noteq> unat r" if "x \<in> set es" for x using that ok Cons.prems(2) by fastforce
    moreover have "m_type (e_m e) = t \<longrightarrow> lo e \<noteq> unat r" using False by (auto simp: word_unat_eq_iff)
    ultimately show ?thesis using False by auto
  qed
qed auto

lemma find_region_None:
  assumes "regions_ok es"
  shows "find_region phys es = None \<longleftrightarrow> (\<forall>e \<in> set es. lo e + sz e \<le> unat phys)"
  using assms
proof (induction es)
  case (Cons e es)
  then have "unat (m_base (e_m e) + m_len (e_m e)) = lo e + sz e" by (intro region_end_unat) (simp add: regions_ok_def)
  then show ?case using Cons by (auto simp: Let_def word_less_nat_alt regions_ok_def)
qed simp

lemma find_region_Some:
  assumes "regions_ok es" "find_region phys es = Some (start, len, t)"
  shows "unat phys < unat start + unat len \<and> unat start + unat len < 2 ^ 64 \<and>
     (\<forall>a. unat start \<le> a \<and> a < unat start + unat len \<longrightarrow> has_type es a t) \<and>
     (\<forall>e \<in> set es. unat phys < lo e + sz e \<longrightarrow> unat start \<le> lo e) \<and>
     (\<forall>e \<in> set es. m_type (e_m e) = t \<longrightarrow> lo e \<noteq> unat start + unat len)"
  using assms
proof (induction es)
  case (Cons e es)
  have ok: "regions_ok es" "\<forall>x \<in> set es. lo e + sz e \<le> lo x" "0 < sz e" "lo e + sz e < 2 ^ 64"
    using Cons.prems(1) by (auto simp: regions_ok_def)
  note q = region_end_unat [OF ok(4)]
  show ?case
  proof (cases "phys < m_base (e_m e) + m_len (e_m e)")
    case False
    then have "unat phys \<ge> lo e + sz e" using q by (simp add: word_less_nat_alt)
    moreover have f: "find_region phys es = Some (start, len, t)" using False Cons.prems(2) by (simp add: Let_def)
    moreover note IH = Cons.IH [OF ok(1) f]
    moreover have "lo e \<noteq> unat start + unat len" using IH calculation(1) ok(3) by linarith
    ultimately show ?thesis by (auto simp: has_type_def)
  next
    case True
    let ?q = "m_base (e_m e) + m_len (e_m e)" and ?r = "extend_region (m_type (e_m e)) (m_base (e_m e) + m_len (e_m e)) es"
    have s: "start = m_base (e_m e)" "len = ?r - start" "t = m_type (e_m e)"
      using True Cons.prems(2) by (auto simp: Let_def)
    have r: "?q \<le> ?r" "\<forall>a. unat ?q \<le> a \<and> a < unat ?r \<longrightarrow> has_type es a t"
        "\<forall>x \<in> set es. m_type (e_m x) = t \<longrightarrow> lo x \<noteq> unat ?r"
      using extend_region_ok [OF ok(1), of ?q t] ok(2) q s(3) by auto
    have "start \<le> ?r" using r(1) q s(1) by (simp add: word_le_nat_alt)
    then have e: "unat start + unat len = unat ?r" using s by (simp add: unat_sub_exact word_le_nat_alt)
    have "has_type (e # es) a t" if "unat start \<le> a" "a < unat ?r" for a
    proof (cases "a < lo e + sz e")
      case False
      then have "has_type es a t" using r(2) q that by simp
      then show ?thesis by (auto simp: has_type_def)
    qed (use that s in \<open>auto simp: has_type_def\<close>)
    moreover have "lo e \<noteq> unat ?r" using r(1) q ok(3) by (simp add: word_le_nat_alt)
    moreover have "unat phys < unat ?r" using r(1) True by (simp add: word_le_nat_alt word_less_nat_alt)
    ultimately show ?thesis
      unfolding e using r(3) s(1,3) ok(2) unat_u64_less [of ?r] by auto
  qed
qed simp

text \<open>A machine with 1 GiB of memory, used by the witnesses.\<close>

definition example_map :: "sysmemmapdata list" where
  "example_map =
     [\<lparr>e_n = 0, e_nn = 1, e_m = \<lparr>m_base = 0, m_len = 0x9F000, m_type = 1\<rparr>\<rparr>,
      \<lparr>e_n = 1, e_nn = 2, e_m = \<lparr>m_base = 0x100000, m_len = 0x3FF00000, m_type = 1\<rparr>\<rparr>,
      \<lparr>e_n = 2, e_nn = 0, e_m = \<lparr>m_base = 0xFFFC0000, m_len = 0x40000, m_type = 2\<rparr>\<rparr>]"

definition example_bios :: "u32 \<Rightarrow> (sysmemmap \<times> u32) option" where
  "example_bios n = map_option (\<lambda>e. (e_m e, e_nn e)) (find (\<lambda>e. e_n e = n) example_map)"

definition example_mem :: "sysmemmapdata list \<Rightarrow> vmm_mem" where
  "example_mem es =
     \<lparr>vmm_start_phys = 0, e801_fake_ax = 0, e801_fake_bx = 0, memorysize = 0, vmmsize = 0,
      e820_vmm_base = 0, e820_vmm_fake_len = 0, e820_vmm_end = 0, sysmemmap_tbl = es,
      realmodemem_base = 0, realmodemem_limit = 0, realmodemem_fakelimit = 0\<rparr>"

definition example_booted :: vmm_mem where
  "example_booted = (example_mem example_map)\<lparr>vmm_start_phys := 0x38000000, e820_vmm_base := 0x100000,
     e820_vmm_fake_len := 0x37F00000, realmodemem_fakelimit := 0x9EFFF\<rparr>"

lemma example_inv: "vmm_inv example_map (example_map ! 1) 0x38000000 example_booted"
  by (simp add: vmm_inv_def map_ok_def linked_def example_map_def example_booted_def example_mem_def
      avail_def sane_def overlap_def window_def realmode_ok_def VMMSIZE_ALL_def SYSMEMMAP_TYPE_AVAILABLE_def)

section \<open>Properties\<close>

text \<open>
  C1. Start-up on a BIOS machine hides the hypervisor from its guest. When the firmware's map
  is well formed, initialisation ends: it either stops with out of memory, and then no
  available entry below 4 GiB has room for the hypervisor, or it places the 128 MiB at the
  highest 4 MiB-aligned address that has room. From then on, whatever memory is allocated
  below 1 MiB or next to the hypervisor, no entry of the map shown to the guest makes a byte
  of the hypervisor available.
\<close>

theorem vmm_memory_hidden:
  assumes "getallsysmemmap_bios callrealmode_getsysmemmap st0 = Inr st1" "map_ok (sysmemmap_tbl st1)"
  shows "vmm_mem_init_bios callrealmode_getsysmemmap st0 = Some (Inl (Panic ''Out of memory.'')) \<and>
           (\<forall>e \<in> set (sysmemmap_tbl st1). \<forall>p. window e p \<longrightarrow> p = 0) \<or>
         (\<exists>st. vmm_mem_init_bios callrealmode_getsysmemmap st0 = Some (Inr st) \<and>
            (\<exists>e \<in> set (sysmemmap_tbl st1). window e (unat (vmm_start_phys st))) \<and>
            (\<forall>e \<in> set (sysmemmap_tbl st1). \<forall>p. window e p \<longrightarrow> p \<le> unat (vmm_start_phys st)) \<and>
            (\<forall>st' a. vmm_step\<^sup>*\<^sup>* st st' \<and> unat (vmm_start_phys st) \<le> a \<and>
                     a < unat (vmm_start_phys st) + VMMSIZE_ALL \<longrightarrow> \<not> guest_visible st' a))"
  using vmm_mem_init_bios_inv [OF assms]
proof (elim disjE exE conjE)
  fix st c
  assume "vmm_mem_init_bios callrealmode_getsysmemmap st0 = Some (Inr st)"
    and inv: "vmm_inv (sysmemmap_tbl st1) c (unat (vmm_start_phys st)) st"
    and "\<forall>e \<in> set (sysmemmap_tbl st1). \<forall>p. window e p \<longrightarrow> p \<le> unat (vmm_start_phys st)"
  moreover have "\<exists>e \<in> set (sysmemmap_tbl st1). window e (unat (vmm_start_phys st))"
    using inv by (auto simp: vmm_inv_def)
  moreover have "\<not> guest_visible st' a" if "vmm_step\<^sup>*\<^sup>* st st'" "unat (vmm_start_phys st) \<le> a"
      "a < unat (vmm_start_phys st) + VMMSIZE_ALL" for st' a
    using vmm_hidden [OF vmm_steps_inv [OF that(1) inv] that(2,3)] .
  ultimately show ?thesis by blast
qed blast

theorem vmm_memory_hidden_witness:
  "\<exists>st. vmm_mem_init_bios example_bios (example_mem []) = Some (Inr st) \<and>
     unat (vmm_start_phys st) = 0x38000000 \<and> \<not> guest_visible st 0x3FFFFFFF"
proof -
  have "getallsysmemmap_bios example_bios (example_mem []) = Inr (example_mem example_map)"
    by code_simp
  moreover have "map_ok (sysmemmap_tbl (example_mem example_map))"
    using example_inv by (simp add: vmm_inv_def example_mem_def)
  moreover have "map_option (map_sum (\<lambda>_. ()) vmm_start_phys) (vmm_mem_init_bios example_bios (example_mem [])) =
    Some (Inr 0x38000000)" by code_simp
  moreover obtain st where st: "vmm_mem_init_bios example_bios (example_mem []) = Some (Inr st)"
      "vmm_start_phys st = 0x38000000"
    using calculation(3) by (cases "vmm_mem_init_bios example_bios (example_mem [])";
        cases "the (vmm_mem_init_bios example_bios (example_mem []))") auto
  moreover have "\<not> guest_visible st 0x3FFFFFFF"
    using vmm_memory_hidden [OF calculation(1,2)] st by (fastforce simp: VMMSIZE_ALL_def)
  ultimately show ?thesis by auto
qed



text \<open>
  C13. Clearing the guest's memory on reboot (\<open>vmm_mem_bios_clear_guest_pages\<close>) ends, writes
  only to memory the guest sees as available, hence never to the hypervisor, and clears every
  byte of the available entries that start at or above 1 MiB.
\<close>

theorem clear_guest_pages_exact:
  assumes "vmm_inv es c p st"
  shows "\<exists>cs. vmm_mem_bios_clear_guest_pages st = Some cs \<and>
     (\<forall>a. in_chunks cs a \<longrightarrow> guest_visible st a \<and> \<not> (p \<le> a \<and> a < p + VMMSIZE_ALL)) \<and>
     (\<forall>a. \<forall>e \<in> set es. case fake_entry st (entry e) of (nn, base, len, type) \<Rightarrow>
        type = SYSMEMMAP_TYPE_AVAILABLE \<and> 0x100000 \<le> base \<and> unat base \<le> a \<and> a < unat base + unat len \<longrightarrow>
        in_chunks cs a)"
  using clear_guest_pages [OF assms] vmm_hidden [OF assms] by blast

theorem clear_guest_pages_exact_witness:
  "\<exists>cs. vmm_mem_bios_clear_guest_pages example_booted = Some cs \<and>
     in_chunks cs 0x37FFFFFF \<and> \<not> in_chunks cs 0x38000000"
proof -
  have "case fake_entry example_booted (entry (example_map ! 1)) of (nn, base, len, type) \<Rightarrow>
    type = SYSMEMMAP_TYPE_AVAILABLE \<and> 0x100000 \<le> base \<and> unat base \<le> 0x37FFFFFF \<and> 0x37FFFFFF < unat base + unat len"
    by (simp add: example_booted_def example_mem_def example_map_def fake_entry_def entry_def
        SYSMEMMAP_TYPE_AVAILABLE_def SYSMEMMAP_TYPE_RESERVED_def)
  moreover have "example_map ! 1 \<in> set example_map" by (simp add: example_map_def)
  ultimately show ?thesis
    using clear_guest_pages_exact [OF example_inv] by (fastforce simp: VMMSIZE_ALL_def)
qed

text \<open>
  C14. \<open>vmm_mem_continuous_sysmem_type_region\<close> on a sorted map: it fails exactly when no
  entry ends above the address; otherwise the region ends above the address, every byte of it
  has the returned type, no entry that ends above the address starts before it, and no
  further entry of the same type continues it.
\<close>

theorem continuous_region_correct:
  assumes "regions_ok (sysmemmap_tbl st)"
  shows "case vmm_mem_continuous_sysmem_type_region st phys of
      None \<Rightarrow> \<forall>e \<in> set (sysmemmap_tbl st). lo e + sz e \<le> unat phys
    | Some (start, len, t) \<Rightarrow>
        unat phys < unat start + unat len \<and> unat start + unat len < 2 ^ 64 \<and>
        (\<forall>a. unat start \<le> a \<and> a < unat start + unat len \<longrightarrow> has_type (sysmemmap_tbl st) a t) \<and>
        (\<forall>e \<in> set (sysmemmap_tbl st). unat phys < lo e + sz e \<longrightarrow> unat start \<le> lo e) \<and>
        (\<forall>e \<in> set (sysmemmap_tbl st). m_type (e_m e) = t \<longrightarrow> lo e \<noteq> unat start + unat len)"
proof (cases "find_region phys (sysmemmap_tbl st)")
  case None
  then show ?thesis using find_region_None [OF assms, of phys]
    by (simp add: vmm_mem_continuous_sysmem_type_region_def)
next
  case (Some x)
  obtain start len t where x: "x = (start, len, t)" using prod_cases3 by blast
  then show ?thesis using find_region_Some [OF assms, of phys start len t] Some
    by (simp add: vmm_mem_continuous_sysmem_type_region_def)
qed

theorem continuous_region_correct_witness:
  "regions_ok (sysmemmap_tbl (example_mem example_map)) \<and>
   vmm_mem_continuous_sysmem_type_region (example_mem example_map) 0xA0000 = Some (0x100000, 0x3FF00000, 1) \<and>
   has_type (sysmemmap_tbl (example_mem example_map)) 0x200000 1"
proof -
  have ok: "regions_ok (sysmemmap_tbl (example_mem example_map))"
    by (simp add: regions_ok_def example_mem_def example_map_def)
  have r: "vmm_mem_continuous_sysmem_type_region (example_mem example_map) 0xA0000 = Some (0x100000, 0x3FF00000, 1)"
    by code_simp
  show ?thesis using continuous_region_correct [OF ok, of "0xA0000"] ok r by auto
qed


end
