(* ===== verification/Mm_page.thy ===== *)
theory Mm_page
  imports List1
begin

text \<open>
  The page allocator of \<^verbatim>\<open>core/mm.c\<close>: 128 MiB of pages handed out in blocks of
  \<open>2 ^ n\<close> pages, \<open>n < 13\<close>, with splitting and merging of buddies.

  A \<open>struct page *\<close> is its index in \<open>pagestruct\<close>; the fields of the pages are functions of
  the index. The free lists \<open>list1_freepage\<close> are sequences of indices: \<open>LIST1_ADD\<close>,
  \<open>LIST1_PUSH\<close>, \<open>LIST1_DEL\<close> and \<open>LIST1_POP\<close> are the operations on sequences that
  the theory \<open>List1\<close> shows the pointer code to implement. Every function is the code
  between taking and releasing \<open>mm_lock\<close>, so it runs as one step. Addresses are 64-bit
  words; block sizes and the tests, sets and flips of address bits are those of the source.
\<close>

section \<open>Data\<close>

definition NUM_OF_PAGES :: nat where "NUM_OF_PAGES = 32768"

definition NUM_OF_ALLOCSIZE :: nat where "NUM_OF_ALLOCSIZE = 13"

definition VMM_START_VIRT :: u64 where "VMM_START_VIRT = 0x40000000"

datatype page_type = PAGE_TYPE_FREE | PAGE_TYPE_NOT_HEAD | PAGE_TYPE_ALLOCATED
  | PAGE_TYPE_ALLOCATED_CONT | PAGE_TYPE_ALLOCATED_SMALL | PAGE_TYPE_RESERVED

record mm =
  mm_start_phys :: u64
  freepage :: "nat \<Rightarrow> nat list"
  pg_type :: "nat \<Rightarrow> page_type"
  pg_allocsize :: "nat \<Rightarrow> nat"

definition set_type :: "nat \<Rightarrow> page_type \<Rightarrow> 'a mm_scheme \<Rightarrow> 'a mm_scheme" where
  "set_type p t st = st\<lparr>pg_type := (pg_type st)(p := t)\<rparr>"

definition set_allocsize :: "nat \<Rightarrow> nat \<Rightarrow> 'a mm_scheme \<Rightarrow> 'a mm_scheme" where
  "set_allocsize p n st = st\<lparr>pg_allocsize := (pg_allocsize st)(p := n)\<rparr>"

text \<open>The operations on \<open>list1_freepage[n]\<close>.\<close>

definition fl_add :: "nat \<Rightarrow> nat \<Rightarrow> 'a mm_scheme \<Rightarrow> 'a mm_scheme" where
  "fl_add n p st = st\<lparr>freepage := (freepage st)(n := freepage st n @ [p])\<rparr>"

definition fl_push :: "nat \<Rightarrow> nat \<Rightarrow> 'a mm_scheme \<Rightarrow> 'a mm_scheme" where
  "fl_push n p st = st\<lparr>freepage := (freepage st)(n := p # freepage st n)\<rparr>"

definition fl_del :: "nat \<Rightarrow> nat \<Rightarrow> 'a mm_scheme \<Rightarrow> 'a mm_scheme" where
  "fl_del n p st = st\<lparr>freepage := (freepage st)(n := remove1 p (freepage st n))\<rparr>"

section \<open>Addresses\<close>

definition phys_to_virt :: "'a mm_scheme \<Rightarrow> u64 \<Rightarrow> u64" where
  "phys_to_virt st phys = phys - mm_start_phys st + VMM_START_VIRT"

definition page_to_phys :: "'a mm_scheme \<Rightarrow> nat \<Rightarrow> u64" where
  "page_to_phys st p = mm_start_phys st + 0x1000 * word_of_nat p"

definition page_to_virt :: "'a mm_scheme \<Rightarrow> nat \<Rightarrow> u64" where
  "page_to_virt st p = phys_to_virt st (page_to_phys st p)"

definition virt_to_page :: "u64 \<Rightarrow> nat res" where
  "virt_to_page virt =
     (let i = ucast (drop_bit 12 (virt - VMM_START_VIRT)) :: u32 in
      res_bind (assert_res (i < word_of_nat NUM_OF_PAGES)) (\<lambda>_. Inr (unat i)))"

definition mm_page_get_allocsize :: "nat \<Rightarrow> u64 res" where
  "mm_page_get_allocsize n = res_bind (assert_res (n < NUM_OF_ALLOCSIZE)) (\<lambda>_. Inr (push_bit n 4096))"

section \<open>Addresses as page indices\<close>

text \<open>A page's address.\<close>

definition addr :: "nat \<Rightarrow> u64" where
  "addr p = VMM_START_VIRT OR push_bit 12 (word_of_nat p)"

lemma bit_start: "bit VMM_START_VIRT i \<longleftrightarrow> i = 30"
proof -
  have e: "VMM_START_VIRT = 2 ^ 30" by (simp add: VMM_START_VIRT_def)
  show ?thesis unfolding e by (subst bit_exp_iff) auto
qed

lemma less_pages_bit: "p < NUM_OF_PAGES \<Longrightarrow> bit p i \<Longrightarrow> i < 15"
proof (rule ccontr)
  assume "p < NUM_OF_PAGES" "bit p i" "\<not> i < 15"
  then have "p < 2 ^ i" using power_increasing [of 15 i "2 :: nat"] by (simp add: NUM_OF_PAGES_def)
  then show False using \<open>bit p i\<close> by (simp add: bit_iff_odd)
qed

lemma page_to_virt_addr:
  assumes "p < NUM_OF_PAGES"
  shows "page_to_virt st p = addr p"
proof -
  have "VMM_START_VIRT AND push_bit 12 (word_of_nat p) = 0"
    by (rule bit_eqI) (auto simp: bit_simps bit_start dest: less_pages_bit [OF assms])
  then have "addr p = VMM_START_VIRT + push_bit 12 (word_of_nat p)"
    by (simp add: addr_def disjunctive_add_eq_or)
  then show ?thesis
    by (simp add: page_to_virt_def phys_to_virt_def page_to_phys_def push_bit_eq_mult mult.commute)
qed

lemma virt_to_page_addr:
  assumes "p < NUM_OF_PAGES"
  shows "virt_to_page (addr p) = Inr p"
proof -
  have "addr p = VMM_START_VIRT + push_bit 12 (word_of_nat p)"
    using page_to_virt_addr [OF assms, of undefined]
    by (simp add: page_to_virt_def phys_to_virt_def page_to_phys_def push_bit_eq_mult add.commute mult.commute)
  then have "addr p - VMM_START_VIRT = push_bit 12 (word_of_nat p)" by simp
  moreover have "drop_bit 12 (push_bit 12 (word_of_nat p :: u64)) = word_of_nat p"
    by (rule bit_eqI) (auto simp: bit_simps dest: less_pages_bit [OF assms])
  ultimately have "drop_bit 12 (addr p - VMM_START_VIRT) = word_of_nat p" by simp
  moreover have "unat (ucast (word_of_nat p :: u64) :: u32) = p"
    using assms by (simp add: unat_ucast_exact unat_of_nat_exact NUM_OF_PAGES_def)
  ultimately show ?thesis using assms
    by (simp add: virt_to_page_def word_less_nat_alt NUM_OF_PAGES_def)
qed

lemma allocsize_word: "push_bit n 4096 = (push_bit (12 + n) 1 :: u64)"
  by (simp add: push_bit_eq_mult power_add)

lemma addr_and:
  assumes "n < 13"
  shows "addr p AND push_bit n 4096 = 0 \<longleftrightarrow> even (p div 2 ^ n)"
proof -
  have "addr p AND push_bit n 4096 = 0 \<longleftrightarrow> \<not> bit (addr p) (12 + n)"
    unfolding allocsize_word by (simp add: push_bit_eq_mult and_exp_eq_0_iff_not_bit)
  also have "\<dots> \<longleftrightarrow> \<not> bit p n" using assms by (simp add: addr_def bit_simps bit_start)
  finally show ?thesis by (simp add: bit_iff_odd)
qed

lemma addr_or:
  assumes "n < 13"
  shows "addr p OR push_bit n 4096 = addr (set_bit n p)"
  unfolding allocsize_word addr_def using assms by (intro bit_eqI) (auto simp: bit_simps bit_start)

lemma addr_xor:
  assumes "n < 13"
  shows "addr p XOR push_bit n 4096 = addr (flip_bit n p)"
  unfolding allocsize_word addr_def using assms by (intro bit_eqI) (auto simp: bit_simps bit_start)

lemma set_bit_page:
  assumes "even (p div 2 ^ n)"
  shows "set_bit n p = p + 2 ^ n"
  using assms by (simp add: set_bit_eq bit_iff_odd)

definition buddy :: "nat \<Rightarrow> nat \<Rightarrow> nat" where
  "buddy n p = (if even (p div 2 ^ n) then p + 2 ^ n else p - 2 ^ n)"

lemma flip_bit_page: "flip_bit n p = buddy n p"
proof (cases "even (p div 2 ^ n)")
  case True
  then show ?thesis by (simp add: flip_bit_eq_if set_bit_page buddy_def bit_iff_odd)
next
  case False
  let ?q = "unset_bit n p"
  have "p = set_bit n ?q" using False by (intro bit_eqI) (auto simp: bit_simps, simp_all add: bit_iff_odd)
  also have "\<dots> = ?q + 2 ^ n" 
  proof (rule set_bit_page)
    have "\<not> bit ?q n" by (simp add: bit_simps)
    then show "even (?q div 2 ^ n)" by (simp add: bit_iff_odd)
  qed
  finally show ?thesis using False by (simp add: flip_bit_eq_if buddy_def bit_iff_odd)
qed

lemma even_bound:
  assumes "p < NUM_OF_PAGES" "even (p div 2 ^ n)" "n < 13"
  shows "p + 2 ^ n < NUM_OF_PAGES"
proof -
  let ?k = "2 ^ (15 - n) :: nat"
  have N: "NUM_OF_PAGES = ?k * 2 ^ n" using assms(3) by (simp add: NUM_OF_PAGES_def power_add [symmetric])
  have "p div 2 ^ n < ?k" using assms(1) N by (simp add: div_less_iff_less_mult)
  moreover have "even ?k" using assms(3) by simp
  ultimately have "p div 2 ^ n + 1 < ?k"
    using assms(2) by (metis Suc_eq_plus1 Suc_lessI even_Suc)
  then have "(p + 2 ^ n) div 2 ^ n < ?k" by (simp add: div_add_self2)
  then show ?thesis unfolding N by (simp add: div_less_iff_less_mult)
qed

lemma buddy_bound: "p < NUM_OF_PAGES \<Longrightarrow> n < 13 \<Longrightarrow> buddy n p < NUM_OF_PAGES"
  using even_bound [of p n] by (auto simp: buddy_def)

text \<open>The tests and moves of the code, on page indices.\<close>

lemmas addr_simps = page_to_virt_addr virt_to_page_addr addr_and addr_or addr_xor set_bit_page flip_bit_page

lemma mm_page_get_allocsize_simp [simp]: "n < 13 \<Longrightarrow> mm_page_get_allocsize n = Inr (push_bit n 4096)"
  by (simp add: mm_page_get_allocsize_def NUM_OF_ALLOCSIZE_def)

lemma second_half_page:
  assumes "p < NUM_OF_PAGES" "n < 13" "even (p div 2 ^ n)"
  shows "virt_to_page (page_to_virt st p OR push_bit n 4096) = Inr (p + 2 ^ n)"
  using assms by (simp add: page_to_virt_addr addr_or set_bit_page virt_to_page_addr even_bound)

lemma buddy_page:
  assumes "p < NUM_OF_PAGES" "n < 13"
  shows "virt_to_page (page_to_virt st p XOR push_bit n 4096) = Inr (buddy n p)"
  using assms by (simp add: page_to_virt_addr addr_xor flip_bit_page virt_to_page_addr buddy_bound)

lemma page_test:
  assumes "p < NUM_OF_PAGES" "n < 13"
  shows "page_to_virt st p AND push_bit n 4096 = 0 \<longleftrightarrow> even (p div 2 ^ n)"
  using assms by (simp add: page_to_virt_addr addr_and)

section \<open>Allocation\<close>

definition mm_page_free_2ndhalf :: "nat \<Rightarrow> 'a mm_scheme \<Rightarrow> (nat \<times> 'a mm_scheme) res" where
  "mm_page_free_2ndhalf p st =
     (let n = pg_allocsize st p in
      res_bind (assert_res (n > 0)) (\<lambda>_.
      let n = n - 1; virt = page_to_virt st p in
      res_bind (mm_page_get_allocsize n) (\<lambda>s.
      res_bind (assert_res (virt AND s = 0)) (\<lambda>_.
      let st = set_allocsize p n st in
      res_bind (virt_to_page (virt OR s)) (\<lambda>q.
      let st = set_type q PAGE_TYPE_FREE st
      in Inr (q, fl_add n q st))))))"

lemma mm_page_free_2ndhalf_allocsize:
  "mm_page_free_2ndhalf p st = Inr (q, st') \<Longrightarrow> 0 < pg_allocsize st p \<and> pg_allocsize st' p = pg_allocsize st p - 1"
  by (auto simp: mm_page_free_2ndhalf_def res_bind_Inr_iff Let_def set_allocsize_def set_type_def fl_add_def)

text \<open>\<open>while (p->allocsize > n) mm_page_free_2ndhalf (p)\<close>\<close>

function split_page :: "nat \<Rightarrow> nat \<Rightarrow> 'a mm_scheme \<Rightarrow> 'a mm_scheme res" where
  "split_page n p st =
     (if pg_allocsize st p > n
      then res_bind (mm_page_free_2ndhalf p st) (\<lambda>(q, st). split_page n p st)
      else Inr st)"
  by pat_completeness auto
termination
  by (relation "measure (\<lambda>(n, p, st). pg_allocsize st p)")
    (auto dest!: mm_page_free_2ndhalf_allocsize)

declare split_page.simps [simp del]

function mm_page_alloc_sub_from :: "nat \<Rightarrow> nat \<Rightarrow> 'a mm_scheme \<Rightarrow> (nat option \<times> 'a mm_scheme) res" where
  "mm_page_alloc_sub_from i n st =
     (if i < NUM_OF_ALLOCSIZE then
        case freepage st i of
          [] \<Rightarrow> mm_page_alloc_sub_from (i + 1) n st
        | p # ps \<Rightarrow>
            res_bind (split_page n p (st\<lparr>freepage := (freepage st)(i := ps)\<rparr>)) (\<lambda>st. Inr (Some p, st))
      else Inr (None, st))"
  by pat_completeness auto
termination
  by (relation "measure (\<lambda>(i, n, st). NUM_OF_ALLOCSIZE - i)") (auto simp: NUM_OF_ALLOCSIZE_def)

declare mm_page_alloc_sub_from.simps [simp del]

definition mm_page_alloc_sub :: "nat \<Rightarrow> 'a mm_scheme \<Rightarrow> (nat option \<times> 'a mm_scheme) res" where
  "mm_page_alloc_sub n st = mm_page_alloc_sub_from n n st"

definition mm_page_alloc :: "nat \<Rightarrow> 'a mm_scheme \<Rightarrow> (nat \<times> 'a mm_scheme) res" where
  "mm_page_alloc n st =
     res_bind (assert_res (n < NUM_OF_ALLOCSIZE)) (\<lambda>_.
     res_bind (mm_page_alloc_sub n st) (\<lambda>(p, st).
     case p of
       None \<Rightarrow> Inl (Panic ''Out of memory'')
     | Some p \<Rightarrow>
         let old_type = pg_type st p; st = set_type p PAGE_TYPE_ALLOCATED st in
         res_bind (assert_res (old_type = PAGE_TYPE_FREE)) (\<lambda>_. Inr (p, st))))"

text \<open>The search of \<open>mm_page_alloc_cont\<close> through \<open>list1_freepage[n]\<close>: a block in an even
  place whose second half is free and large enough. \<open>None\<close> is \<open>not_found\<close>.\<close>

fun find_cont :: "u64 \<Rightarrow> nat \<Rightarrow> nat list \<Rightarrow> 'a mm_scheme \<Rightarrow> (nat \<times> nat) option res" where
  "find_cont s m [] st = Inr None"
| "find_cont s m (p # ps) st =
     (let virt = page_to_virt st p in
      if virt AND s \<noteq> 0 then Inr None
      else res_bind (virt_to_page (virt OR s)) (\<lambda>q.
             if pg_type st q = PAGE_TYPE_FREE \<and> pg_allocsize st q \<ge> m then Inr (Some (p, q))
             else find_cont s m ps st))"

definition mm_page_alloc_cont :: "nat \<Rightarrow> nat \<Rightarrow> 'a mm_scheme \<Rightarrow> (nat \<times> 'a mm_scheme) res" where
  "mm_page_alloc_cont n m st =
     res_bind (assert_res (n < NUM_OF_ALLOCSIZE)) (\<lambda>_.
     res_bind (assert_res (m < NUM_OF_ALLOCSIZE)) (\<lambda>_.
     res_bind (mm_page_get_allocsize n) (\<lambda>s.
     res_bind (find_cont s m (freepage st n) st) (\<lambda>r.
     res_bind
       (case r of
          Some (p, q) \<Rightarrow> Inr (p, q, fl_del n p st)
        | None \<Rightarrow>
            res_bind (mm_page_alloc_sub (n + 1) st) (\<lambda>(p, st).
            case p of
              None \<Rightarrow> Inl (Panic ''Out of memory'')
            | Some p \<Rightarrow> res_bind (mm_page_free_2ndhalf p st) (\<lambda>(q, st). Inr (p, q, st))))
       (\<lambda>(p, q, st).
          let st = fl_del (pg_allocsize st q) q st;
              old_ptype = pg_type st p;
              old_qtype = pg_type st q;
              st = set_type p PAGE_TYPE_ALLOCATED_CONT st
          in res_bind (split_page m q st) (\<lambda>st.
             let st = set_type q PAGE_TYPE_ALLOCATED st in
             res_bind (assert_res (old_ptype = PAGE_TYPE_FREE)) (\<lambda>_.
             res_bind (assert_res (old_qtype = PAGE_TYPE_FREE)) (\<lambda>_. Inr (p, st)))))))))"

section \<open>Freeing\<close>

text \<open>One round of the merge loop: \<open>p\<close> is a free block on its list, \<open>n\<close> its \<open>allocsize\<close> and
  \<open>virt\<close> its address at the head of every round. \<open>None\<close> is the end of the loop.\<close>

definition merge_step :: "nat \<Rightarrow> 'a mm_scheme \<Rightarrow> (nat \<times> 'a mm_scheme) option res" where
  "merge_step p st =
     (let n = pg_allocsize st p; virt = page_to_virt st p in
      if n < NUM_OF_ALLOCSIZE - 1 then
        res_bind (mm_page_get_allocsize n) (\<lambda>s.
        res_bind (virt_to_page (virt XOR s)) (\<lambda>q.
        if pg_type st q = PAGE_TYPE_FREE \<and> pg_allocsize st q = n then
          let (p, q) = (if virt AND s \<noteq> 0 then (q, p) else (p, q));
              st = fl_del n p st;
              st = fl_del n q st;
              st = set_type q PAGE_TYPE_NOT_HEAD st;
              n = pg_allocsize st p + 1;
              st = set_allocsize p n st
          in res_bind (mm_page_get_allocsize n) (\<lambda>s.
               Inr (Some (p, if virt AND s \<noteq> 0 then fl_add n p st else fl_push n p st)))
        else Inr None))
      else Inr None)"

lemmas mm_update_defs = set_type_def set_allocsize_def fl_add_def fl_push_def fl_del_def

lemma merge_step_allocsize:
  "merge_step p st = Inr (Some (p', st')) \<Longrightarrow>
     pg_allocsize st p < NUM_OF_ALLOCSIZE - 1 \<and> pg_allocsize st' p' = pg_allocsize st p + 1"
  by (auto simp: merge_step_def res_bind_Inr_iff Let_def mm_update_defs split: if_splits)

function merge_page :: "nat \<Rightarrow> 'a mm_scheme \<Rightarrow> 'a mm_scheme res" where
  "merge_page p st =
     res_bind (merge_step p st) (\<lambda>r.
       case r of None \<Rightarrow> Inr st | Some (p', st') \<Rightarrow> merge_page p' st')"
  by pat_completeness auto
termination
  by (relation "measure (\<lambda>(p, st). NUM_OF_ALLOCSIZE - pg_allocsize st p)")
    (auto dest!: merge_step_allocsize)

declare merge_page.simps [simp del]

text \<open>The part of \<open>mm_page_free_sub\<close> behind the recursive call. A returned string is the
  reason of a panic, \<open>None\<close> is \<open>NULL\<close>.\<close>

definition mm_page_free_rest ::
    "nat \<Rightarrow> nat \<Rightarrow> u64 \<Rightarrow> u64 \<Rightarrow> 'a mm_scheme \<Rightarrow> (string option \<times> 'a mm_scheme) res" where
  "mm_page_free_rest p n s virt st =
     (case pg_type st p of
        PAGE_TYPE_FREE \<Rightarrow> Inr (Some ''double free'', st)
      | PAGE_TYPE_NOT_HEAD \<Rightarrow> Inr (Some ''not head free'', st)
      | PAGE_TYPE_ALLOCATED_CONT \<Rightarrow> Inr (Some ''bad type'', st)
      | PAGE_TYPE_ALLOCATED_SMALL \<Rightarrow> Inr (Some ''bad type'', st)
      | _ \<Rightarrow>
          let st = set_type p PAGE_TYPE_FREE st;
              st = (if virt AND s \<noteq> 0 then fl_add n p st else fl_push n p st)
          in res_bind (merge_page p st) (\<lambda>st. Inr (None, st)))"

lemma second_half_above:
  assumes "p < NUM_OF_PAGES" "mm_page_get_allocsize n = Inr s" "page_to_virt st p AND s = 0"
    and "virt_to_page (page_to_virt st p OR s) = Inr q"
  shows "p < q \<and> q < NUM_OF_PAGES"
proof -
  have n: "n < 13" "s = push_bit n 4096"
    using assms(2) by (auto simp: mm_page_get_allocsize_def res_bind_Inr_iff NUM_OF_ALLOCSIZE_def)
  then have "even (p div 2 ^ n)" using assms by (simp add: page_test)
  then show ?thesis using assms n second_half_page [of p n st] even_bound [of p n] by auto
qed

function mm_page_free_sub :: "nat \<Rightarrow> 'a mm_scheme \<Rightarrow> (string option \<times> 'a mm_scheme) res" where
  "mm_page_free_sub p st =
     (if \<not> p < NUM_OF_PAGES then Inl Out_of_bounds
      else
        let n = pg_allocsize st p in
        res_bind (mm_page_get_allocsize n) (\<lambda>s.
        let virt = page_to_virt st p in
        if pg_type st p = PAGE_TYPE_ALLOCATED_CONT then
          if virt AND s \<noteq> 0 then Inr (Some ''bad address'', st)
          else
            let st = set_type p PAGE_TYPE_ALLOCATED st in
            res_bind (virt_to_page (virt OR s)) (\<lambda>q.
            res_bind (mm_page_free_sub q st) (\<lambda>(fail, st). mm_page_free_rest p n s virt st))
        else mm_page_free_rest p n s virt st))"
  by pat_completeness auto
termination
proof (relation "measure (\<lambda>(p, st). NUM_OF_PAGES - p)", goal_cases)
  case (2 p st n s virt st' q)
  then show ?case using second_half_above [of p n s st q] by auto
qed simp

declare mm_page_free_sub.simps [simp del]

definition mm_page_free :: "nat \<Rightarrow> 'a mm_scheme \<Rightarrow> 'a mm_scheme res" where
  "mm_page_free p st =
     res_bind (mm_page_free_sub p st) (\<lambda>(fail, st).
       case fail of Some f \<Rightarrow> Inl (Panic f) | None \<Rightarrow> Inr st)"

section \<open>Page requests\<close>

definition num_of_available_pages :: "'a mm_scheme \<Rightarrow> nat" where
  "num_of_available_pages st = sum_list (map (\<lambda>i. length (freepage st i) * 2 ^ i) [0..<NUM_OF_ALLOCSIZE])"

text \<open>\<open>get_alloc_pages_size\<close>: the size of the block, and of the second block behind it or
  \<open>None\<close> for \<open>-1\<close>. \<open>sz\<close> is the size in bytes as the \<open>int\<close> the source computes.\<close>

fun second_size :: "int \<Rightarrow> nat \<Rightarrow> nat \<Rightarrow> nat" where
  "second_size secondsz j 0 = j"
| "second_size secondsz j (Suc k) = (if 4096 * 2 ^ j \<ge> secondsz then j else second_size secondsz (j + 1) k)"

function get_alloc_pages_size_from :: "int \<Rightarrow> nat \<Rightarrow> (nat \<times> nat option) option" where
  "get_alloc_pages_size_from sz i =
     (if i < NUM_OF_ALLOCSIZE then
        let allocsize = 4096 * 2 ^ i in
        if allocsize \<ge> sz then Some (i, None)
        else if i > 0 \<and> allocsize + 4096 * 2 ^ (i - 1) \<ge> sz
        then Some (i, Some (second_size (sz - allocsize) 0 (i - 1)))
        else get_alloc_pages_size_from sz (i + 1)
      else None)"
  by pat_completeness auto
termination by (relation "measure (\<lambda>(sz, i). NUM_OF_ALLOCSIZE - i)") (auto simp: NUM_OF_ALLOCSIZE_def)

declare get_alloc_pages_size_from.simps [simp del]

definition get_alloc_pages_size :: "u32 \<Rightarrow> (nat \<times> nat option) option" where
  "get_alloc_pages_size n = get_alloc_pages_size_from (sint (n * 0x1000)) 0"

definition alloc_pages :: "u32 \<Rightarrow> 'a mm_scheme \<Rightarrow> (nat \<times> 'a mm_scheme) res" where
  "alloc_pages n st =
     (case get_alloc_pages_size n of
        None \<Rightarrow> Inl (Panic ''alloc_pages failed'')
      | Some (i, None) \<Rightarrow> mm_page_alloc i st
      | Some (i, Some j) \<Rightarrow> mm_page_alloc_cont i j st)"

definition alloc_page :: "'a mm_scheme \<Rightarrow> (nat \<times> 'a mm_scheme) res" where
  "alloc_page st = alloc_pages 1 st"

definition free_page :: "u64 \<Rightarrow> 'a mm_scheme \<Rightarrow> 'a mm_scheme res" where
  "free_page virt st = res_bind (virt_to_page virt) (\<lambda>p. mm_page_free p st)"

definition free_page_phys :: "u64 \<Rightarrow> 'a mm_scheme \<Rightarrow> 'a mm_scheme res" where
  "free_page_phys phys st = res_bind (virt_to_page (phys_to_virt st phys)) (\<lambda>p. mm_page_free p st)"

section \<open>Initialisation\<close>

text \<open>\<open>mm_init_global\<close>: all pages are reserved; those outside the image (\<open>img_head\<close> to
  \<open>img_end\<close>) and behind the memory kept for panics are freed, in order.\<close>

definition NUM_OF_PANICMEM_PAGES :: nat where "NUM_OF_PANICMEM_PAGES = 256"

definition mm_init_pages :: "u64 \<Rightarrow> mm" where
  "mm_init_pages vmm_start_phys =
     \<lparr>mm_start_phys = vmm_start_phys, freepage = (\<lambda>_. []), pg_type = (\<lambda>_. PAGE_TYPE_RESERVED),
      pg_allocsize = (\<lambda>_. 0)\<rparr>"

definition panicmem_start_page :: "u64 \<Rightarrow> nat" where
  "panicmem_start_page img_end = unat (drop_bit 12 (img_end + 0x1000 - 1 - VMM_START_VIRT))"

fun free_init_pages :: "u64 \<Rightarrow> u64 \<Rightarrow> nat list \<Rightarrow> mm \<Rightarrow> mm res" where
  "free_init_pages img_head img_end [] st = Inr st"
| "free_init_pages img_head img_end (i # is) st =
     (if img_head \<le> page_to_virt st i \<and> page_to_virt st i < img_end
      then free_init_pages img_head img_end is st
      else if i < panicmem_start_page img_end + NUM_OF_PANICMEM_PAGES
      then free_init_pages img_head img_end is st
      else res_bind (mm_page_free i st) (free_init_pages img_head img_end is))"

definition mm_init_global :: "u64 \<Rightarrow> u64 \<Rightarrow> u64 \<Rightarrow> mm res" where
  "mm_init_global vmm_start_phys img_head img_end =
     free_init_pages img_head img_end [0..<NUM_OF_PAGES] (mm_init_pages vmm_start_phys)"

end
