(* ===== verification/Mm_pageinv.thy ===== *)
theory Mm_pageinv
  imports Mm_page
begin

text \<open>
  Correctness of the page allocator of \<open>core/mm.c\<close> (theory \<open>Mm_page\<close>).

  The invariant \<open>mm_inv\<close> says that the page table is cut into aligned blocks of a power of two
  and that the free lists hold exactly the free blocks of their size. \<open>free_pages\<close> and \<open>used\<close>
  are the abstract state: the set of free pages and the map of the blocks in use. Splitting,
  merging, allocating and freeing are shown to keep the invariant and to change the abstract
  state as a set of pages with allocate and free would; \<open>merged\<close> says that no two free buddies
  are left unmerged, which makes out-of-memory panics exact.
\<close>

section \<open>The invariant\<close>

abbreviation head :: "'a mm_scheme \<Rightarrow> nat \<Rightarrow> bool" where
  "head st h \<equiv> pg_type st h \<noteq> PAGE_TYPE_NOT_HEAD"

definition block :: "'a mm_scheme \<Rightarrow> nat \<Rightarrow> nat set" where
  "block st h = {h..<h + 2 ^ pg_allocsize st h}"

text \<open>The number of trailing zeros: the size at which a page becomes a block of its own when
  a block is split.\<close>

definition split_size :: "nat \<Rightarrow> nat \<Rightarrow> bool" where
  "split_size j n \<longleftrightarrow> 2 ^ n dvd j \<and> \<not> 2 ^ (n + 1) dvd j"

definition blocks_ok :: "'a mm_scheme \<Rightarrow> bool" where
  "blocks_ok st \<longleftrightarrow>
     (\<forall>h < NUM_OF_PAGES. head st h \<longrightarrow>
        pg_allocsize st h < 13 \<and> 2 ^ pg_allocsize st h dvd h \<and>
        (\<forall>j \<in> block st h. j \<noteq> h \<longrightarrow> \<not> head st j)) \<and>
     (\<forall>j < NUM_OF_PAGES. \<not> head st j \<longrightarrow>
        split_size j (pg_allocsize st j) \<and> (\<exists>h < NUM_OF_PAGES. head st h \<and> j \<in> block st h))"

text \<open>The free lists hold the free blocks except those in \<open>X\<close>, which the code has taken off.\<close>

definition lists_ok :: "nat set \<Rightarrow> 'a mm_scheme \<Rightarrow> bool" where
  "lists_ok X st \<longleftrightarrow>
     X \<subseteq> {h. h < NUM_OF_PAGES \<and> pg_type st h = PAGE_TYPE_FREE} \<and>
     (\<forall>n < 13. distinct (freepage st n) \<and>
        set (freepage st n) =
          {h. h < NUM_OF_PAGES \<and> pg_type st h = PAGE_TYPE_FREE \<and> pg_allocsize st h = n \<and> h \<notin> X})"

definition mm_inv :: "nat set \<Rightarrow> 'a mm_scheme \<Rightarrow> bool" where
  "mm_inv X st \<longleftrightarrow> blocks_ok st \<and> lists_ok X st"

text \<open>The abstract state: the free pages, and the blocks in use with their kind and size.\<close>

definition free_pages :: "'a mm_scheme \<Rightarrow> nat set" where
  "free_pages st = (\<Union>h \<in> {h. h < NUM_OF_PAGES \<and> pg_type st h = PAGE_TYPE_FREE}. block st h)"

definition used :: "'a mm_scheme \<Rightarrow> nat \<rightharpoonup> page_type \<times> nat" where
  "used st h = (if h < NUM_OF_PAGES \<and> pg_type st h \<notin> {PAGE_TYPE_FREE, PAGE_TYPE_NOT_HEAD}
                then Some (pg_type st h, pg_allocsize st h) else None)"

subsection \<open>Arithmetic of blocks\<close>

lemma NUM_OF_PAGES_pow: "NUM_OF_PAGES = 2 ^ 15"
  by (simp add: NUM_OF_PAGES_def)

lemma aligned_fits:
  assumes "2 ^ n dvd h" "h < NUM_OF_PAGES" "n < 13"
  shows "h + 2 ^ n \<le> NUM_OF_PAGES"
proof -
  obtain k where k: "h = 2 ^ n * k" using assms(1) by (elim dvdE)
  have N: "NUM_OF_PAGES = 2 ^ n * 2 ^ (15 - n)" using assms(3) by (simp add: NUM_OF_PAGES_pow power_add [symmetric])
  have "k < 2 ^ (15 - n)" using assms(2) unfolding k N by simp
  then have "2 ^ n * (k + 1) \<le> 2 ^ n * 2 ^ (15 - n)" by (intro mult_le_mono2) simp
  then show ?thesis using k N by simp
qed

lemma even_div_iff: "2 ^ n dvd p \<Longrightarrow> even (p div 2 ^ n) \<longleftrightarrow> 2 ^ Suc n dvd (p :: nat)"
proof -
  assume "2 ^ n dvd p"
  then obtain k where k: "p = 2 ^ n * k" by (elim dvdE)
  have "2 ^ Suc n dvd 2 ^ n * k \<longleftrightarrow> 2 dvd k" by (simp only: power_Suc2 nat_mult_dvd_cancel_disj) simp
  then show ?thesis by (simp add: k)
qed

lemma split_size_unique: "split_size j n \<Longrightarrow> split_size j m \<Longrightarrow> n = m"
proof (induction n m rule: linorder_wlog)
  case (le n m)
  show ?case
  proof (rule ccontr)
    assume "n \<noteq> m"
    then have "2 ^ (n + 1) dvd (2 :: nat) ^ m" using le by (intro le_imp_power_dvd) simp
    then show False using le by (auto simp: split_size_def dest: dvd_trans)
  qed
qed simp

lemma split_size_half: "2 ^ Suc n dvd p \<Longrightarrow> split_size (p + 2 ^ n) n"
proof -
  assume "2 ^ Suc n dvd p"
  then have "2 ^ n dvd p + 2 ^ n" by (meson dvd_add dvd_refl dvd_trans le_imp_power_dvd le_SucI order_refl)
  moreover have "\<not> 2 ^ Suc n dvd (2 :: nat) ^ n" by (simp add: nat_dvd_not_less)
  then have "\<not> 2 ^ Suc n dvd p + 2 ^ n" using \<open>2 ^ Suc n dvd p\<close> by (simp add: dvd_add_right_iff)
  ultimately show ?thesis by (simp add: split_size_def)
qed

lemma blocks_ok_head:
  assumes "blocks_ok st" "h < NUM_OF_PAGES" "head st h"
  shows "pg_allocsize st h < 13" "2 ^ pg_allocsize st h dvd h"
  using assms by (simp_all add: blocks_ok_def)

lemma blocks_ok_inner:
  assumes "blocks_ok st" "h < NUM_OF_PAGES" "head st h" "j \<in> block st h" "head st j"
  shows "j = h"
  using assms unfolding blocks_ok_def by blast

lemma blocks_ok_not_head:
  assumes "blocks_ok st" "j < NUM_OF_PAGES" "\<not> head st j"
  shows "split_size j (pg_allocsize st j)" "\<exists>h < NUM_OF_PAGES. head st h \<and> j \<in> block st h"
  using assms by (simp_all add: blocks_ok_def)

lemma block_le:
  assumes "blocks_ok st" "h < NUM_OF_PAGES" "head st h" "j \<in> block st h"
  shows "j < NUM_OF_PAGES"
proof -
  note blocks_ok_head [OF assms(1-3)]
  then have "h + 2 ^ pg_allocsize st h \<le> NUM_OF_PAGES" using assms(2) by (intro aligned_fits) auto
  then show ?thesis using assms(4) by (auto simp: block_def)
qed

lemma block_disjoint:
  assumes "blocks_ok st" "h < NUM_OF_PAGES" "h' < NUM_OF_PAGES" "head st h" "head st h'" "h \<noteq> h'"
  shows "block st h \<inter> block st h' = {}"
proof -
  have "h' \<notin> block st h" "h \<notin> block st h'" using assms blocks_ok_inner by blast+
  then show ?thesis by (auto simp: block_def)
qed

lemma head_in_block [simp]: "h \<in> block st h"
  by (simp add: block_def)


subsection \<open>Splitting and merging\<close>

lemma block_upd:
  "pg_allocsize st' = (pg_allocsize st)(p := n) \<Longrightarrow>
     block st' h = (if h = p then {p..<p + 2 ^ n} else block st h)"
  by (simp add: block_def)

lemma split_blocks_ok:
  assumes ok: "blocks_ok st" and p: "p < NUM_OF_PAGES" "head st p" "pg_allocsize st p = Suc n"
    and t: "t \<noteq> PAGE_TYPE_NOT_HEAD" and T: "pg_type st' = (pg_type st)(p + 2 ^ n := t)"
    and A: "pg_allocsize st' = (pg_allocsize st)(p := n)"
  shows "blocks_ok st' \<and> pg_allocsize st (p + 2 ^ n) = n \<and> \<not> head st (p + 2 ^ n) \<and> p + 2 ^ n < NUM_OF_PAGES"
proof -
  define q where "q = p + 2 ^ n"
  have pd: "2 ^ Suc n dvd p" "Suc n < 13" using blocks_ok_head [OF ok p(1,2)] p(3) by auto
  have bp: "block st p = {p..<p + 2 ^ n} \<union> {q..<q + 2 ^ n}" using p(3) by (auto simp: block_def q_def)
  have qp: "q \<in> block st p" "q \<noteq> p" by (auto simp: bp q_def)
  have qh: "\<not> head st q" using blocks_ok_inner [OF ok p(1,2) qp(1)] qp(2) by blast
  have qN: "q < NUM_OF_PAGES" using block_le [OF ok p(1,2) qp(1)] .
  have qs: "split_size q n" unfolding q_def using pd(1) by (rule split_size_half)
  then have Aq: "pg_allocsize st q = n" using blocks_ok_not_head(1) [OF ok qN qh] by (blast intro: split_size_unique)
  have T': "head st' j \<longleftrightarrow> j = q \<or> head st j" for j using T t by (simp add: q_def)
  have B: "block st' h = (if h = p then {p..<p + 2 ^ n} else if h = q then {q..<q + 2 ^ n} else block st h)" for h
    using A Aq qp(2) by (simp add: block_def)
  have out: "q \<notin> block st h" if "h < NUM_OF_PAGES" "head st h" "h \<noteq> p" for h
    using block_disjoint [OF ok that(1) p(1) that(2) p(2) that(3)] qp(1) by blast
  have dn: "2 ^ n dvd p" using pd(1) by (meson dvd_trans le_imp_power_dvd le_SucI order_refl)
  have 1: "pg_allocsize st' h < 13 \<and> 2 ^ pg_allocsize st' h dvd h \<and> (\<forall>j \<in> block st' h. j \<noteq> h \<longrightarrow> \<not> head st' j)"
    if h: "h < NUM_OF_PAGES" "head st' h" for h
  proof -
    consider "h = p" | "h = q" | "h \<noteq> p" "h \<noteq> q" by blast
    then show ?thesis
    proof cases
      case 1
      have "\<not> head st' j" if "j \<in> {p..<p + 2 ^ n}" "j \<noteq> p" for j
        using that blocks_ok_inner [OF ok p(1,2), of j] T' by (auto simp: bp q_def)
      then show ?thesis using 1 pd dn A B by simp
    next
      case 2
      have "\<not> head st' j" if "j \<in> {q..<q + 2 ^ n}" "j \<noteq> q" for j
        using that blocks_ok_inner [OF ok p(1,2), of j] T' by (auto simp: bp q_def)
      moreover have "2 ^ n dvd q" using dn by (simp add: q_def)
      ultimately show ?thesis using 2 pd A Aq B qp(2) by simp
    next
      case 3
      then have "head st h" using h T' by simp
      moreover have "\<not> head st' j" if "j \<in> block st h" "j \<noteq> h" for j
        using that blocks_ok_inner [OF ok h(1) \<open>head st h\<close>, of j] out [OF h(1) \<open>head st h\<close> 3(1)] T' by auto
      ultimately show ?thesis using 3 blocks_ok_head [OF ok h(1)] A B by simp
    qed
  qed
  have 2: "split_size j (pg_allocsize st' j) \<and> (\<exists>h < NUM_OF_PAGES. head st' h \<and> j \<in> block st' h)"
    if j: "j < NUM_OF_PAGES" "\<not> head st' j" for j
  proof -
    have j': "\<not> head st j" "j \<noteq> p" "j \<noteq> q" using j T' p(2) by auto
    obtain h where h: "h < NUM_OF_PAGES" "head st h" "j \<in> block st h"
      using blocks_ok_not_head [OF ok j(1) j'(1)] by blast
    have "\<exists>h < NUM_OF_PAGES. head st' h \<and> j \<in> block st' h"
    proof (cases "h = p")
      case True
      then have "j \<in> block st' p \<or> j \<in> block st' q" using h(3) bp B qp(2) by auto
      then show ?thesis using p(1,2) qN T' by auto
    next
      case False
      then have "h \<noteq> q" using h(2) qh by auto
      then show ?thesis using h False T' B by (intro exI [of _ h]) auto
    qed
    then show ?thesis using blocks_ok_not_head(1) [OF ok j(1) j'(1)] A j' by simp
  qed
  have "blocks_ok st'" unfolding blocks_ok_def using 1 2 by blast
  then show ?thesis using Aq qh qN by (simp add: q_def)
qed

lemma merge_blocks_ok:
  assumes ok: "blocks_ok st" and p: "p < NUM_OF_PAGES" "head st p" "pg_allocsize st p = n"
    and q: "q = p + 2 ^ n" "head st q" "pg_allocsize st q = n"
    and d: "2 ^ Suc n dvd p" "Suc n < 13" and T: "pg_type st' = (pg_type st)(q := PAGE_TYPE_NOT_HEAD)"
    and A: "pg_allocsize st' = (pg_allocsize st)(p := Suc n)"
  shows "blocks_ok st'"
proof -
  have bp: "block st p = {p..<p + 2 ^ n}" "block st q = {q..<q + 2 ^ n}" using p q by (simp_all add: block_def)
  have qp: "q \<noteq> p" by (simp add: q)
  have qN: "q < NUM_OF_PAGES" using aligned_fits [OF d(1) p(1) d(2)] zero_less_power [of "2 :: nat" n]
    unfolding q power_Suc by linarith
  have T': "head st' j \<longleftrightarrow> j \<noteq> q \<and> head st j" for j using T by simp
  have B: "block st' h = (if h = p then block st p \<union> block st q else block st h)" for h
    using A bp q(1) by (auto simp: block_def)
  have 1: "pg_allocsize st' h < 13 \<and> 2 ^ pg_allocsize st' h dvd h \<and> (\<forall>j \<in> block st' h. j \<noteq> h \<longrightarrow> \<not> head st' j)"
    if h: "h < NUM_OF_PAGES" "head st' h" for h
  proof (cases "h = p")
    case True
    have "\<not> head st' j" if "j \<in> block st p \<union> block st q" "j \<noteq> p" for j
      using that blocks_ok_inner [OF ok p(1,2), of j] blocks_ok_inner [OF ok qN q(2), of j] T' by auto
    then show ?thesis using True d A B by simp
  next
    case False
    have hh: "head st h" using h T' by simp
    have "\<not> head st' j" if "j \<in> block st h" "j \<noteq> h" for j
      using that blocks_ok_inner [OF ok h(1) hh, of j] T' by auto
    then show ?thesis using False blocks_ok_head [OF ok h(1) hh] A B by simp
  qed
  have 2: "split_size j (pg_allocsize st' j) \<and> (\<exists>h < NUM_OF_PAGES. head st' h \<and> j \<in> block st' h)"
    if j: "j < NUM_OF_PAGES" "\<not> head st' j" for j
  proof (cases "j = q")
    case True
    then have "split_size j (pg_allocsize st' j)" using split_size_half [OF d(1)] A q qp by simp
    moreover have "j \<in> block st' p" using True B by simp
    ultimately show ?thesis using p T' qp by auto
  next
    case False
    then have j': "\<not> head st j" "j \<noteq> p" using j T' p(2) qp by auto
    obtain h where h: "h < NUM_OF_PAGES" "head st h" "j \<in> block st h"
      using blocks_ok_not_head [OF ok j(1) j'(1)] by blast
    have "\<exists>h < NUM_OF_PAGES. head st' h \<and> j \<in> block st' h"
    proof (cases "h = p \<or> h = q")
      case True
      then have "j \<in> block st' p" using h(3) B by auto
      then show ?thesis using p T' qp by auto
    next
      case False
      then show ?thesis using h T' B by auto
    qed
    then show ?thesis using blocks_ok_not_head(1) [OF ok j(1) j'(1)] A j' by simp
  qed
  show ?thesis unfolding blocks_ok_def using 1 2 by blast
qed

definition same_abs :: "'a mm_scheme \<Rightarrow> 'a mm_scheme \<Rightarrow> bool" where
  "same_abs st st' \<longleftrightarrow> free_pages st' = free_pages st \<and> used st' = used st"

lemma same_abs_refl [simp]: "same_abs st st"
  by (simp add: same_abs_def)

lemma same_abs_trans: "same_abs st st' \<Longrightarrow> same_abs st' st'' \<Longrightarrow> same_abs st st''"
  by (simp add: same_abs_def)

lemma same_abs_halves:
  assumes p: "p < NUM_OF_PAGES" "q < NUM_OF_PAGES" "p \<noteq> q"
    and T: "\<And>h. h \<noteq> q \<Longrightarrow> pg_type st' h = pg_type st h"
    and A: "\<And>h. h \<noteq> p \<Longrightarrow> h \<noteq> q \<Longrightarrow> pg_allocsize st' h = pg_allocsize st h"
    and f: "pg_type st p = PAGE_TYPE_FREE" "pg_type st q = PAGE_TYPE_NOT_HEAD" "pg_type st' q = PAGE_TYPE_FREE"
    and b: "block st p = block st' p \<union> block st' q"
  shows "same_abs st st'"
proof -
  have "used st' h = used st h" for h
    using T [of h] A [of h] f by (cases "h = q"; cases "h = p") (auto simp: used_def)
  then have u: "used st' = used st" by blast
  have F: "{h. h < NUM_OF_PAGES \<and> pg_type st' h = PAGE_TYPE_FREE} =
      insert q {h. h < NUM_OF_PAGES \<and> pg_type st h = PAGE_TYPE_FREE}" (is "?F' = insert q ?F")
  proof -
    have "h \<in> ?F' \<longleftrightarrow> h \<in> insert q ?F" for h using T [of h] f p by (cases "h = q") auto
    then show ?thesis by blast
  qed
  have "block st' h = block st h" if "h \<noteq> p" "h \<noteq> q" for h using A that by (simp add: block_def)
  moreover have "h \<noteq> q" if "h \<in> ?F - {p}" for h using that f(2) by auto
  ultimately have "(\<Union>h \<in> ?F - {p}. block st' h) = (\<Union>h \<in> ?F - {p}. block st h)"
    by (intro SUP_cong) auto
  moreover have "p \<in> ?F" using p f by simp
  then have "(\<Union>h \<in> ?F. g h) = g p \<union> (\<Union>h \<in> ?F - {p}. g h)" for g :: "nat \<Rightarrow> nat set" by blast
  ultimately have "free_pages st' = free_pages st"
    unfolding free_pages_def F using b by (simp only: UN_insert) blast
  with u show ?thesis by (simp add: same_abs_def)
qed

lemma same_abs_sym: "same_abs st st' \<Longrightarrow> same_abs st' st"
  by (simp add: same_abs_def)

subsection \<open>Taking blocks off the lists\<close>

lemma lists_okD:
  assumes "lists_ok X st" "n < 13"
  shows "h \<in> set (freepage st n) \<longleftrightarrow>
     h < NUM_OF_PAGES \<and> pg_type st h = PAGE_TYPE_FREE \<and> pg_allocsize st h = n \<and> h \<notin> X"
  using assms by (auto simp: lists_ok_def)

lemma blocks_ok_cong:
  "pg_type st' = pg_type st \<Longrightarrow> pg_allocsize st' = pg_allocsize st \<Longrightarrow> blocks_ok st' = blocks_ok st"
  by (simp add: blocks_ok_def block_def)

lemma same_abs_cong:
  "pg_type st' = pg_type st \<Longrightarrow> pg_allocsize st' = pg_allocsize st \<Longrightarrow> same_abs st st'"
  by (simp add: same_abs_def used_def free_pages_def block_def fun_eq_iff)

lemma mm_inv_del:
  assumes "mm_inv X st" "n < 13" "p \<in> set (freepage st n)"
  shows "mm_inv (insert p X) (fl_del n p st)" "p < NUM_OF_PAGES" "pg_type st p = PAGE_TYPE_FREE"
    "pg_allocsize st p = n" "p \<notin> X"
proof -
  have p: "p < NUM_OF_PAGES" "pg_type st p = PAGE_TYPE_FREE" "pg_allocsize st p = n" "p \<notin> X"
    using assms lists_okD [of X st n p] by (auto simp: mm_inv_def)
  have "lists_ok (insert p X) (fl_del n p st)"
    using assms p unfolding mm_inv_def lists_ok_def by (auto simp: fl_del_def)
  moreover have "blocks_ok (fl_del n p st)"
    using assms blocks_ok_cong [of "fl_del n p st" st] by (simp add: mm_inv_def fl_del_def)
  ultimately show "mm_inv (insert p X) (fl_del n p st)" by (simp add: mm_inv_def)
  show "p < NUM_OF_PAGES" "pg_type st p = PAGE_TYPE_FREE" "pg_allocsize st p = n" "p \<notin> X" using p .
qed

lemma fl_pop:
  "freepage st n = p # ps \<Longrightarrow> st\<lparr>freepage := (freepage st)(n := ps)\<rparr> = fl_del n p st"
  by (simp add: fl_del_def)

text \<open>No two free buddies are unmerged, except for pairs with a block of \<open>E\<close>.\<close>

definition merged :: "nat set \<Rightarrow> 'a mm_scheme \<Rightarrow> bool" where
  "merged E st \<longleftrightarrow>
     (\<forall>h < NUM_OF_PAGES. \<forall>q < NUM_OF_PAGES. h \<notin> E \<and> q \<notin> E \<and> q = buddy (pg_allocsize st h) h \<and>
        pg_type st h = PAGE_TYPE_FREE \<and> pg_type st q = PAGE_TYPE_FREE \<and>
        pg_allocsize st q = pg_allocsize st h \<longrightarrow> 12 \<le> pg_allocsize st h)"

lemma merged_mono: "merged E st \<Longrightarrow> E \<subseteq> E' \<Longrightarrow> merged E' st"
  unfolding merged_def by blast

lemma merged_cong:
  "pg_type st' = pg_type st \<Longrightarrow> pg_allocsize st' = pg_allocsize st \<Longrightarrow> merged E st' = merged E st"
  by (simp add: merged_def)

lemma buddy_mult: "buddy n (2 ^ n * k) = 2 ^ n * (if even k then k + 1 else k - 1)"
  by (simp add: buddy_def algebra_simps)

lemma buddy_buddy: "2 ^ n dvd p \<Longrightarrow> buddy n (buddy n p) = p"
  by (auto simp: buddy_mult elim!: dvdE oddE)

lemma merged_split:
  assumes "merged E st" "blocks_ok st'" "p \<in> E" "q = p + 2 ^ n" "pg_type st' = (pg_type st)(q := PAGE_TYPE_FREE)"
    "pg_allocsize st' = (pg_allocsize st)(p := n)" "pg_allocsize st q = n" "2 ^ Suc n dvd p"
  shows "merged E st'"
  unfolding merged_def
proof (intro allI impI)
  fix h r
  assume hN: "h < NUM_OF_PAGES" "r < NUM_OF_PAGES"
    and a: "h \<notin> E \<and> r \<notin> E \<and> r = buddy (pg_allocsize st' h) h \<and> pg_type st' h = PAGE_TYPE_FREE \<and>
      pg_type st' r = PAGE_TYPE_FREE \<and> pg_allocsize st' r = pg_allocsize st' h"
  have d: "2 ^ n dvd p" using assms(8) by (meson dvd_trans le_imp_power_dvd le_SucI order_refl)
  have pq: "buddy n p = q" "p \<noteq> q" using even_div_iff [OF d] assms(4,8) by (simp_all add: buddy_def)
  then have qp: "buddy n q = p" using buddy_buddy [OF d] by simp
  have A: "pg_allocsize st' q = n" using assms(6,7) pq(2) by simp
  have "h \<noteq> q" using a qp A assms(3) by auto
  moreover have "r \<noteq> q"
  proof
    assume r: "r = q"
    with a A have "pg_allocsize st' h = n" by metis
    then have "2 ^ n dvd h" using blocks_ok_head(2) [OF assms(2) hN(1)] a by simp
    then have "h = buddy n r" using a \<open>pg_allocsize st' h = n\<close> buddy_buddy by simp
    then show False using r qp a assms(3) by simp
  qed
  moreover have "h \<noteq> p" "r \<noteq> p" using a assms(3) by auto
  ultimately have "12 \<le> pg_allocsize st h" using assms(1) hN a assms(5,6) unfolding merged_def by auto
  then show "12 \<le> pg_allocsize st' h" using assms(6) \<open>h \<noteq> p\<close> by simp
qed

text \<open>What an operation on a block taken off the lists leaves alone.\<close>

definition same_outside :: "nat set \<Rightarrow> 'a mm_scheme \<Rightarrow> 'a mm_scheme \<Rightarrow> bool" where
  "same_outside B st st' \<longleftrightarrow>
     (\<forall>h. h \<notin> B \<longrightarrow> pg_type st' h = pg_type st h \<and> pg_allocsize st' h = pg_allocsize st h)"

lemma free_2ndhalf_ok:
  assumes inv: "mm_inv X st" and p: "p \<in> X" "pg_allocsize st p = Suc n"
  shows "\<exists>st'. mm_page_free_2ndhalf p st = Inr (p + 2 ^ n, st') \<and> mm_inv X st' \<and> same_abs st st' \<and>
           pg_type st' p = PAGE_TYPE_FREE \<and> pg_allocsize st' p = n \<and> p + 2 ^ n \<in> set (freepage st' n) \<and>
           block st p = block st' p \<union> {p + 2 ^ n..<p + 2 * 2 ^ n} \<and> same_outside (block st p) st st' \<and>
           (merged X st \<longrightarrow> merged X st')"
proof -
  have ok: "blocks_ok st" and l: "lists_ok X st" using inv by (auto simp: mm_inv_def)
  have pF: "p < NUM_OF_PAGES" "pg_type st p = PAGE_TYPE_FREE" using l p by (auto simp: lists_ok_def)
  let ?q = "p + 2 ^ n"
  define st' where "st' = fl_add n ?q (set_type ?q PAGE_TYPE_FREE (set_allocsize p n st))"
  have TA: "pg_type st' = (pg_type st)(?q := PAGE_TYPE_FREE)" "pg_allocsize st' = (pg_allocsize st)(p := n)"
    by (simp_all add: st'_def mm_update_defs)
  have n: "Suc n < 13" "2 ^ Suc n dvd p" using blocks_ok_head [OF ok pF(1)] pF p(2) by auto
  have ok': "blocks_ok st'" and q: "pg_allocsize st ?q = n" "\<not> head st ?q" "?q < NUM_OF_PAGES"
    using split_blocks_ok [OF ok pF(1) _ p(2) _ TA] pF(2) by auto
  have even: "even (p div 2 ^ n)"
    using n(2) even_div_iff [of n p] by (meson dvd_trans le_imp_power_dvd le_SucI order_refl)
  have run: "mm_page_free_2ndhalf p st = Inr (?q, st')"
    using p(2) n(1) even pF(1) second_half_page [of p n st]
    by (simp add: mm_page_free_2ndhalf_def page_test st'_def Let_def)
  have qX: "?q \<notin> X" using l q(2) by (auto simp: lists_ok_def)
  have "lists_ok X st'"
    unfolding lists_ok_def
  proof (intro conjI allI impI)
    show "X \<subseteq> {h. h < NUM_OF_PAGES \<and> pg_type st' h = PAGE_TYPE_FREE}"
      using l by (auto simp: lists_ok_def TA)
    fix k :: nat assume k: "k < 13"
    have old: "distinct (freepage st k)" using l k by (simp add: lists_ok_def)
    have f: "freepage st' k = (if k = n then freepage st n @ [?q] else freepage st k)"
      by (simp add: st'_def mm_update_defs)
    have "?q \<notin> set (freepage st k)" using lists_okD [OF l k] q(2) by auto
    then show "distinct (freepage st' k)" using old f by auto
    have "h \<in> set (freepage st' k) \<longleftrightarrow> h < NUM_OF_PAGES \<and> pg_type st' h = PAGE_TYPE_FREE \<and>
        pg_allocsize st' h = k \<and> h \<notin> X" for h
      using lists_okD [OF l k, of h] f TA q qX p by (cases "h = ?q"; cases "h = p") auto
    then show "set (freepage st' k) = {h. h < NUM_OF_PAGES \<and> pg_type st' h = PAGE_TYPE_FREE \<and>
        pg_allocsize st' h = k \<and> h \<notin> X}" by blast
  qed
  moreover have b: "block st p = block st' p \<union> {?q..<p + 2 * 2 ^ n}" "block st' ?q = {?q..<p + 2 * 2 ^ n}"
    using p(2) TA q by (auto simp: block_def)
  moreover have "same_abs st st'"
    using pF q TA b by (intro same_abs_halves [of p ?q]) auto
  moreover have "same_outside (block st p) st st'"
    using TA p(2) by (auto simp: same_outside_def block_def)
  moreover have "merged X st \<longrightarrow> merged X st'"
    using merged_split [OF _ ok' p(1) refl TA q(1) n(2)] by blast
  ultimately show ?thesis
    using run ok' TA pF by (simp add: mm_inv_def) (simp add: st'_def mm_update_defs)
qed

lemma same_outside_trans:
  "same_outside B st st' \<Longrightarrow> same_outside C st' st'' \<Longrightarrow> C \<subseteq> B \<Longrightarrow> same_outside B st st''"
  by (auto simp: same_outside_def)

lemma split_page_ok:
  assumes "mm_inv X st" "p \<in> X" "n \<le> pg_allocsize st p"
  shows "\<exists>st'. split_page n p st = Inr st' \<and> mm_inv X st' \<and> same_abs st st' \<and>
           pg_type st' p = PAGE_TYPE_FREE \<and> pg_allocsize st' p = n \<and> same_outside (block st p) st st' \<and>
           (merged X st \<longrightarrow> merged X st')"
  using assms
proof (induction "pg_allocsize st p" arbitrary: st rule: less_induct)
  case less
  show ?case
  proof (cases "pg_allocsize st p = n")
    case True
    moreover have "pg_type st p = PAGE_TYPE_FREE" using less.prems by (auto simp: mm_inv_def lists_ok_def)
    ultimately show ?thesis using less.prems by (simp add: split_page.simps [of n p st] same_outside_def)
  next
    case False
    then obtain k where k: "pg_allocsize st p = Suc k" "n \<le> k"
      using less.prems(3) by (metis Suc_leI le_neq_implies_less not0_implies_Suc not_less_zero less_Suc_eq_le)
    obtain st1 where st1: "mm_page_free_2ndhalf p st = Inr (p + 2 ^ k, st1)" "mm_inv X st1" "same_abs st st1"
        "pg_allocsize st1 p = k" "block st p = block st1 p \<union> {p + 2 ^ k..<p + 2 * 2 ^ k}"
        "same_outside (block st p) st st1" "merged X st \<longrightarrow> merged X st1"
      using free_2ndhalf_ok [OF less.prems(1,2) k(1)] by blast
    obtain st' where st': "split_page n p st1 = Inr st'" "mm_inv X st'" "same_abs st1 st'"
        "pg_type st' p = PAGE_TYPE_FREE" "pg_allocsize st' p = n" "same_outside (block st1 p) st1 st'"
        "merged X st1 \<longrightarrow> merged X st'"
      using less.hyps [of st1] st1 k less.prems(2) by auto
    have "split_page n p st = Inr st'"
      using k st1(1) st'(1) by (simp add: split_page.simps [of n p st])
    moreover have "same_outside (block st p) st st'"
      using same_outside_trans [OF st1(6) st'(6)] st1(5) by blast
    ultimately show ?thesis using st' st1(7) same_abs_trans [OF st1(3) st'(3)] by blast
  qed
qed

text \<open>A block leaves or enters the free pages when its type changes.\<close>

lemma set_type_used:
  assumes inv: "mm_inv X st" and p: "p \<in> X" and t: "t \<notin> {PAGE_TYPE_FREE, PAGE_TYPE_NOT_HEAD}"
  shows "mm_inv (X - {p}) (set_type p t st) \<and>
         free_pages (set_type p t st) = free_pages st - block st p \<and> block st p \<subseteq> free_pages st \<and>
         used (set_type p t st) = (used st)(p \<mapsto> (t, pg_allocsize st p)) \<and>
         (merged X st \<longrightarrow> merged (X - {p}) (set_type p t st))"
proof -
  let ?st = "set_type p t st"
  have ok: "blocks_ok st" and l: "lists_ok X st" using inv by (auto simp: mm_inv_def)
  have pF: "p < NUM_OF_PAGES" "pg_type st p = PAGE_TYPE_FREE" using l p by (auto simp: lists_ok_def)
  have B: "block ?st h = block st h" for h by (simp add: block_def set_type_def)
  have H: "head ?st h = head st h" for h using t pF by (simp add: set_type_def)
  have "blocks_ok ?st" using ok unfolding blocks_ok_def B H by (simp add: set_type_def)
  moreover have "lists_ok (X - {p}) ?st"
    unfolding lists_ok_def
  proof (intro conjI allI impI)
    show "X - {p} \<subseteq> {h. h < NUM_OF_PAGES \<and> pg_type ?st h = PAGE_TYPE_FREE}"
      using l by (auto simp: lists_ok_def set_type_def)
    fix k :: nat assume k: "k < 13"
    show "distinct (freepage ?st k)" using l k by (simp add: lists_ok_def set_type_def)
    have "h \<in> set (freepage ?st k) \<longleftrightarrow> h < NUM_OF_PAGES \<and> pg_type ?st h = PAGE_TYPE_FREE \<and>
        pg_allocsize ?st h = k \<and> h \<notin> X - {p}" for h
      using lists_okD [OF l k, of h] p t by (auto simp: set_type_def)
    then show "set (freepage ?st k) = {h. h < NUM_OF_PAGES \<and> pg_type ?st h = PAGE_TYPE_FREE \<and>
        pg_allocsize ?st h = k \<and> h \<notin> X - {p}}" by blast
  qed
  moreover have "free_pages ?st = free_pages st - block st p"
  proof -
    have F: "{h. h < NUM_OF_PAGES \<and> pg_type ?st h = PAGE_TYPE_FREE} =
        {h. h < NUM_OF_PAGES \<and> pg_type st h = PAGE_TYPE_FREE} - {p}"
      using t by (auto simp: set_type_def)
    have "block st h \<inter> block st p = {}" if "h < NUM_OF_PAGES" "pg_type st h = PAGE_TYPE_FREE" "h \<noteq> p" for h
      using that pF block_disjoint [OF ok that(1) pF(1)] by simp
    then show ?thesis unfolding free_pages_def F B by blast
  qed
  moreover have "block st p \<subseteq> free_pages st" using pF by (auto simp: free_pages_def)
  moreover have "used ?st = (used st)(p \<mapsto> (t, pg_allocsize st p))"
    using t pF by (auto simp: used_def set_type_def)
  moreover have "merged X st \<longrightarrow> merged (X - {p}) ?st"
    using t by (auto simp: merged_def set_type_def split: if_splits)
  ultimately show ?thesis by (simp add: mm_inv_def)
qed

lemma alloc_sub_ok:
  assumes "mm_inv {} st" "n \<le> i"
  shows "mm_page_alloc_sub_from i n st = Inr (None, st) \<and>
           (\<forall>h < NUM_OF_PAGES. pg_type st h = PAGE_TYPE_FREE \<longrightarrow> pg_allocsize st h < i) \<or>
         (\<exists>p st'. mm_page_alloc_sub_from i n st = Inr (Some p, st') \<and> mm_inv {p} st' \<and> same_abs st st' \<and>
           pg_allocsize st' p = n \<and> p < NUM_OF_PAGES \<and> (merged {} st \<longrightarrow> merged {p} st'))"
  using assms(2)
proof (induction "13 - i" arbitrary: i)
  case 0
  have "pg_allocsize st h < 13" if "h < NUM_OF_PAGES" "pg_type st h = PAGE_TYPE_FREE" for h
    using assms(1) blocks_ok_head(1) [of st h] that by (simp add: mm_inv_def)
  then have "pg_allocsize st h < i" if "h < NUM_OF_PAGES" "pg_type st h = PAGE_TYPE_FREE" for h
    using that 0(1) by fastforce
  moreover have "mm_page_alloc_sub_from i n st = Inr (None, st)"
    using 0(1) by (simp add: mm_page_alloc_sub_from.simps [of i] NUM_OF_ALLOCSIZE_def)
  ultimately show ?case by blast
next
  case (Suc k)
  then have i: "i < 13" by simp
  show ?case
  proof (cases "freepage st i")
    case Nil
    have none: "pg_allocsize st h \<noteq> i" if "h < NUM_OF_PAGES" "pg_type st h = PAGE_TYPE_FREE" for h
      using lists_okD [of "{}" st i h] assms(1) i Nil that by (simp add: mm_inv_def)
    have step: "mm_page_alloc_sub_from i n st = mm_page_alloc_sub_from (i + 1) n st"
      using i Nil by (simp add: mm_page_alloc_sub_from.simps [of i] NUM_OF_ALLOCSIZE_def)
    have le: "pg_allocsize st h < i" if "pg_allocsize st h < i + 1" "h < NUM_OF_PAGES" "pg_type st h = PAGE_TYPE_FREE" for h
      using that none [of h] by simp
    have "k = 13 - (i + 1)" "n \<le> i + 1" using Suc.hyps(2) Suc.prems by auto
    from Suc.hyps(1) [OF this] show ?thesis unfolding step using le by blast
  next
    case (Cons p ps)
    then have "p \<in> set (freepage st i)" by simp
    note d = mm_inv_del [OF assms(1) i this]
    let ?st = "fl_del i p st"
    have "pg_allocsize ?st p = i" using d(4) by (simp add: fl_del_def)
    then obtain st' where st': "split_page n p ?st = Inr st'" "mm_inv {p} st'" "same_abs ?st st'"
        "pg_allocsize st' p = n" "merged {p} ?st \<longrightarrow> merged {p} st'"
      using split_page_ok [of "{p}" ?st p n] d(1) Suc.prems by auto
    have "merged {} st \<longrightarrow> merged {p} ?st"
      using merged_mono [of "{}" st "{p}"] merged_cong [of ?st st] by (simp add: fl_del_def)
    moreover have "same_abs st ?st" by (rule same_abs_cong) (simp_all add: fl_del_def)
    moreover have "mm_page_alloc_sub_from i n st = Inr (Some p, st')"
      using i Cons st'(1) by (simp add: mm_page_alloc_sub_from.simps [of i] NUM_OF_ALLOCSIZE_def fl_pop)
    ultimately show ?thesis
      using d st'(2,4,5) same_abs_trans [of st ?st st'] st'(3) Suc.prems by auto
  qed
qed

lemma mm_page_alloc_ok:
  assumes inv: "mm_inv {} st" and n: "n < 13"
  shows "mm_page_alloc n st = Inl (Panic ''Out of memory'') \<and>
           (\<forall>h < NUM_OF_PAGES. pg_type st h = PAGE_TYPE_FREE \<longrightarrow> pg_allocsize st h < n) \<or>
         (\<exists>p st'. mm_page_alloc n st = Inr (p, st') \<and> mm_inv {} st' \<and> p < NUM_OF_PAGES \<and> 2 ^ n dvd p \<and>
           {p..<p + 2 ^ n} \<subseteq> free_pages st \<and> free_pages st' = free_pages st - {p..<p + 2 ^ n} \<and>
           used st' = (used st)(p \<mapsto> (PAGE_TYPE_ALLOCATED, n)) \<and> (merged {} st \<longrightarrow> merged {} st'))"
  using alloc_sub_ok [OF inv order_refl, of n]
proof
  assume "mm_page_alloc_sub_from n n st = Inr (None, st) \<and>
    (\<forall>h < NUM_OF_PAGES. pg_type st h = PAGE_TYPE_FREE \<longrightarrow> pg_allocsize st h < n)"
  then show ?thesis using n by (simp add: mm_page_alloc_def mm_page_alloc_sub_def NUM_OF_ALLOCSIZE_def)
next
  assume "\<exists>p st'. mm_page_alloc_sub_from n n st = Inr (Some p, st') \<and> mm_inv {p} st' \<and> same_abs st st' \<and>
    pg_allocsize st' p = n \<and> p < NUM_OF_PAGES \<and> (merged {} st \<longrightarrow> merged {p} st')"
  then obtain p st1 where r: "mm_page_alloc_sub_from n n st = Inr (Some p, st1)" "mm_inv {p} st1"
      "same_abs st st1" "pg_allocsize st1 p = n" "p < NUM_OF_PAGES" "merged {} st \<longrightarrow> merged {p} st1" by blast
  let ?st = "set_type p PAGE_TYPE_ALLOCATED st1"
  have F: "pg_type st1 p = PAGE_TYPE_FREE" using r(2) by (simp add: mm_inv_def lists_ok_def)
  have "mm_page_alloc n st = Inr (p, ?st)"
    using n r(1) F by (simp add: mm_page_alloc_def mm_page_alloc_sub_def NUM_OF_ALLOCSIZE_def Let_def)
  moreover have "2 ^ n dvd p" using blocks_ok_head(2) [of st1 p] r F by (simp add: mm_inv_def)
  moreover have "block st1 p = {p..<p + 2 ^ n}" using r(4) by (simp add: block_def)
  ultimately show ?thesis
    using set_type_used [OF r(2), of p PAGE_TYPE_ALLOCATED] r(3,4,5,6)
    by (intro disjI2 exI [of _ p] exI [of _ ?st]) (simp add: same_abs_def)
qed

subsection \<open>Allocation of two adjacent blocks\<close>

lemma find_cont_ok:
  assumes "n < 13" "\<forall>p \<in> set ps. p < NUM_OF_PAGES"
  shows "\<exists>r. find_cont (push_bit n 4096) m ps st = Inr r \<and>
    (case r of None \<Rightarrow> True
     | Some (p, q) \<Rightarrow> p \<in> set ps \<and> even (p div 2 ^ n) \<and> q = p + 2 ^ n \<and>
         pg_type st q = PAGE_TYPE_FREE \<and> m \<le> pg_allocsize st q)"
  using assms(2)
proof (induction ps)
  case (Cons p ps)
  then obtain r where r: "find_cont (push_bit n 4096) m ps st = Inr r"
    "case r of None \<Rightarrow> True | Some (p, q) \<Rightarrow> p \<in> set ps \<and> even (p div 2 ^ n) \<and> q = p + 2 ^ n \<and>
         pg_type st q = PAGE_TYPE_FREE \<and> m \<le> pg_allocsize st q" by auto
  show ?case
  proof (cases "even (p div 2 ^ n)")
    case True
    then have "virt_to_page (page_to_virt st p OR push_bit n 4096) = Inr (p + 2 ^ n)"
      using second_half_page [of p n st] assms(1) Cons.prems by simp
    then show ?thesis using True assms(1) Cons.prems r by (auto simp: page_test split: option.splits)
  next
    case False
    then show ?thesis using assms(1) Cons.prems by (simp add: page_test)
  qed
qed simp

text \<open>The common end of the two ways to find the blocks.\<close>

lemma cont_finish:
  assumes inv: "mm_inv {p} st" and q: "q = p + 2 ^ n" "q \<in> set (freepage st k)" "k < 13"
    and p: "pg_allocsize st p = n" and m: "m \<le> k"
  defines "st1 \<equiv> set_type p PAGE_TYPE_ALLOCATED_CONT (fl_del (pg_allocsize st q) q st)"
  shows "\<exists>st'. split_page m q st1 = Inr st' \<and> pg_type (fl_del (pg_allocsize st q) q st) q = PAGE_TYPE_FREE \<and>
     mm_inv {} (set_type q PAGE_TYPE_ALLOCATED st') \<and> {p..<p + 2 ^ n + 2 ^ m} \<subseteq> free_pages st \<and>
     free_pages (set_type q PAGE_TYPE_ALLOCATED st') = free_pages st - {p..<p + 2 ^ n + 2 ^ m} \<and>
     used (set_type q PAGE_TYPE_ALLOCATED st') =
       (used st)(p \<mapsto> (PAGE_TYPE_ALLOCATED_CONT, n), q \<mapsto> (PAGE_TYPE_ALLOCATED, m)) \<and>
     (merged {p} st \<longrightarrow> merged {} (set_type q PAGE_TYPE_ALLOCATED st'))"
proof -
  note d = mm_inv_del [OF inv q(3,2)]
  have Aq: "pg_allocsize st q = k" using d(4) .
  let ?st0 = "fl_del k q st"
  have st1: "st1 = set_type p PAGE_TYPE_ALLOCATED_CONT ?st0" by (simp add: st1_def Aq)
  have a0: "same_abs st ?st0" by (rule same_abs_cong) (simp_all add: fl_del_def)
  have pq: "p \<noteq> q" by (simp add: q)
  have s1: "mm_inv {q} st1" "free_pages st1 = free_pages ?st0 - block ?st0 p" "block ?st0 p \<subseteq> free_pages ?st0"
      "used st1 = (used ?st0)(p \<mapsto> (PAGE_TYPE_ALLOCATED_CONT, pg_allocsize ?st0 p))"
      "merged {q, p} ?st0 \<longrightarrow> merged {q} st1"
    using set_type_used [OF d(1), of p PAGE_TYPE_ALLOCATED_CONT] pq by (auto simp: st1 insert_commute)
  have "pg_allocsize st1 q = k" using Aq by (simp add: st1 mm_update_defs)
  then obtain st' where st': "split_page m q st1 = Inr st'" "mm_inv {q} st'" "same_abs st1 st'"
      "pg_allocsize st' q = m" "merged {q} st1 \<longrightarrow> merged {q} st'"
    using split_page_ok [OF s1(1), of q m] m by auto
  have s2: "mm_inv {} (set_type q PAGE_TYPE_ALLOCATED st')"
      "free_pages (set_type q PAGE_TYPE_ALLOCATED st') = free_pages st' - block st' q" "block st' q \<subseteq> free_pages st'"
      "used (set_type q PAGE_TYPE_ALLOCATED st') = (used st')(q \<mapsto> (PAGE_TYPE_ALLOCATED, m))"
      "merged {q} st' \<longrightarrow> merged {} (set_type q PAGE_TYPE_ALLOCATED st')"
    using set_type_used [OF st'(2), of q PAGE_TYPE_ALLOCATED] st'(4) by auto
  have b: "block ?st0 p = {p..<p + 2 ^ n}" "block st' q = {q..<q + 2 ^ m}"
    using p st'(4) by (simp_all add: block_def fl_del_def)
  have "{p..<p + 2 ^ n + 2 ^ m} = block ?st0 p \<union> block st' q" unfolding b by (auto simp: q(1))
  moreover have "free_pages st' = free_pages st - block ?st0 p" "block ?st0 p \<subseteq> free_pages st" "used st' = used st1" "used ?st0 = used st"
    using st'(3) s1(2,3) a0 by (auto simp: same_abs_def)
  moreover have "merged {p} st \<longrightarrow> merged {q, p} ?st0"
    using merged_mono [of "{p}" st "{q, p}"] merged_cong [of ?st0 st] by (auto simp: fl_del_def)
  moreover have "pg_allocsize ?st0 p = n" using p by (simp add: fl_del_def)
  moreover have "pg_type ?st0 q = PAGE_TYPE_FREE" using d(3) by (simp add: fl_del_def)
  ultimately show ?thesis
    using st'(1,5) s1(4,5) s2 by (intro exI [of _ st']) (auto simp: Aq)
qed

lemma mm_page_alloc_cont_ok:
  assumes inv: "mm_inv {} st" and n: "n < 13" "m \<le> n"
  shows "mm_page_alloc_cont n m st = Inl (Panic ''Out of memory'') \<and>
           (\<forall>h < NUM_OF_PAGES. pg_type st h = PAGE_TYPE_FREE \<longrightarrow> pg_allocsize st h < n + 1) \<or>
         (\<exists>p st'. mm_page_alloc_cont n m st = Inr (p, st') \<and> mm_inv {} st' \<and> p < NUM_OF_PAGES \<and> 2 ^ (n + 1) dvd p \<and>
           {p..<p + 2 ^ n + 2 ^ m} \<subseteq> free_pages st \<and> free_pages st' = free_pages st - {p..<p + 2 ^ n + 2 ^ m} \<and>
           used st' = (used st)(p \<mapsto> (PAGE_TYPE_ALLOCATED_CONT, n), p + 2 ^ n \<mapsto> (PAGE_TYPE_ALLOCATED, m)) \<and>
           (merged {} st \<longrightarrow> merged {} st'))"
proof -
  have n13: "n < 13" "m < 13" using n by auto
  have l: "lists_ok {} st" and ok: "blocks_ok st" using inv by (auto simp: mm_inv_def)
  have "\<forall>p \<in> set (freepage st n). p < NUM_OF_PAGES" using lists_okD [OF l n13(1)] by simp
  then obtain r where r: "find_cont (push_bit n 4096) m (freepage st n) st = Inr r"
    "case r of None \<Rightarrow> True | Some (p, q) \<Rightarrow> p \<in> set (freepage st n) \<and> even (p div 2 ^ n) \<and> q = p + 2 ^ n \<and>
         pg_type st q = PAGE_TYPE_FREE \<and> m \<le> pg_allocsize st q"
    using find_cont_ok [OF n13(1)] by blast
  show ?thesis
  proof (cases r)
    case (Some pq)
    then obtain p q where pq: "r = Some (p, q)" "p \<in> set (freepage st n)" "even (p div 2 ^ n)" "q = p + 2 ^ n"
      "pg_type st q = PAGE_TYPE_FREE" "m \<le> pg_allocsize st q" using r(2) by (cases pq) auto
    note d = mm_inv_del [OF inv n13(1) pq(2)]
    let ?st = "fl_del n p st"
    have dp: "2 ^ n dvd p" using blocks_ok_head(2) [OF ok d(2)] d(3,4) by simp
    then have dvd: "2 ^ (n + 1) dvd p" using pq(3) even_div_iff [OF dp] by simp
    have qN: "q < NUM_OF_PAGES" unfolding pq(4) using d(2) pq(3) n13(1) by (intro even_bound) auto
    then have k: "pg_allocsize st q < 13" using blocks_ok_head(1) [OF ok] pq(5) by simp
    have "q \<in> set (freepage st (pg_allocsize st q))" using lists_okD [OF l k] qN pq(5) by simp
    then have qs: "q \<in> set (freepage ?st (pg_allocsize st q))" using pq(4) by (auto simp: fl_del_def in_set_remove1)
    have A: "pg_allocsize ?st p = n" "pg_allocsize ?st q = pg_allocsize st q" using d(4) by (simp_all add: fl_del_def)
    obtain st' where st': "split_page m q (set_type p PAGE_TYPE_ALLOCATED_CONT (fl_del (pg_allocsize ?st q) q ?st)) = Inr st'"
       "pg_type (fl_del (pg_allocsize ?st q) q ?st) q = PAGE_TYPE_FREE"
       "mm_inv {} (set_type q PAGE_TYPE_ALLOCATED st')" "{p..<p + 2 ^ n + 2 ^ m} \<subseteq> free_pages ?st"
       "free_pages (set_type q PAGE_TYPE_ALLOCATED st') = free_pages ?st - {p..<p + 2 ^ n + 2 ^ m}"
       "used (set_type q PAGE_TYPE_ALLOCATED st') =
         (used ?st)(p \<mapsto> (PAGE_TYPE_ALLOCATED_CONT, n), q \<mapsto> (PAGE_TYPE_ALLOCATED, m))"
       "merged {p} ?st \<longrightarrow> merged {} (set_type q PAGE_TYPE_ALLOCATED st')"
      using cont_finish [OF d(1) pq(4) qs k A(1) pq(6)] by auto
    have "same_abs st ?st" by (rule same_abs_cong) (simp_all add: fl_del_def)
    moreover have "merged {} st \<longrightarrow> merged {p} ?st"
      using merged_mono [of "{}" st "{p}"] merged_cong [of ?st st] by (simp add: fl_del_def)
    moreover have "pg_type (fl_del (pg_allocsize ?st q) q ?st) p = PAGE_TYPE_FREE" using d(3) by (simp add: fl_del_def)
    then have "mm_page_alloc_cont n m st = Inr (p, set_type q PAGE_TYPE_ALLOCATED st')"
      using n13 r(1) pq(1) st'(1,2)
      by (simp add: mm_page_alloc_cont_def NUM_OF_ALLOCSIZE_def Let_def)
    ultimately show ?thesis using st' dvd d(2) unfolding pq(4) same_abs_def by auto
  next
    case None
    from alloc_sub_ok [OF inv order_refl, of "n + 1"] show ?thesis
    proof (elim disjE exE conjE)
      assume "mm_page_alloc_sub_from (n + 1) (n + 1) st = Inr (None, st)"
        "\<forall>h < NUM_OF_PAGES. pg_type st h = PAGE_TYPE_FREE \<longrightarrow> pg_allocsize st h < n + 1"
      then show ?thesis using n13 r(1) None
        by (simp add: mm_page_alloc_cont_def mm_page_alloc_sub_def NUM_OF_ALLOCSIZE_def)
    next
      fix p st1
      assume a: "mm_page_alloc_sub_from (n + 1) (n + 1) st = Inr (Some p, st1)" "mm_inv {p} st1" "same_abs st st1"
        "pg_allocsize st1 p = n + 1" "p < NUM_OF_PAGES" "merged {} st \<longrightarrow> merged {p} st1"
      obtain st2 where b: "mm_page_free_2ndhalf p st1 = Inr (p + 2 ^ n, st2)" "mm_inv {p} st2" "same_abs st1 st2"
          "pg_type st2 p = PAGE_TYPE_FREE" "pg_allocsize st2 p = n" "p + 2 ^ n \<in> set (freepage st2 n)"
          "merged {p} st1 \<longrightarrow> merged {p} st2"
        using free_2ndhalf_ok [OF a(2), of p n] a(4) by auto
      have Aq: "pg_allocsize st2 (p + 2 ^ n) = n"
        using mm_inv_del(4) [OF b(2) n13(1) b(6)] .
      obtain st' where st': "split_page m (p + 2 ^ n) (set_type p PAGE_TYPE_ALLOCATED_CONT (fl_del n (p + 2 ^ n) st2)) = Inr st'"
         "pg_type (fl_del n (p + 2 ^ n) st2) (p + 2 ^ n) = PAGE_TYPE_FREE"
         "mm_inv {} (set_type (p + 2 ^ n) PAGE_TYPE_ALLOCATED st')" "{p..<p + 2 ^ n + 2 ^ m} \<subseteq> free_pages st2"
         "free_pages (set_type (p + 2 ^ n) PAGE_TYPE_ALLOCATED st') = free_pages st2 - {p..<p + 2 ^ n + 2 ^ m}"
         "used (set_type (p + 2 ^ n) PAGE_TYPE_ALLOCATED st') =
           (used st2)(p \<mapsto> (PAGE_TYPE_ALLOCATED_CONT, n), p + 2 ^ n \<mapsto> (PAGE_TYPE_ALLOCATED, m))"
         "merged {p} st2 \<longrightarrow> merged {} (set_type (p + 2 ^ n) PAGE_TYPE_ALLOCATED st')"
        using cont_finish [OF b(2) refl b(6) n13(1) b(5) n(2)] by (auto simp: Aq)
      have "pg_type (fl_del n (p + 2 ^ n) st2) p = PAGE_TYPE_FREE" using b(4) by (simp add: fl_del_def)
      then have "mm_page_alloc_cont n m st = Inr (p, set_type (p + 2 ^ n) PAGE_TYPE_ALLOCATED st')"
        using n13 r(1) None a(1) b(1) st'(1,2) Aq
        by (simp add: mm_page_alloc_cont_def mm_page_alloc_sub_def NUM_OF_ALLOCSIZE_def Let_def)
      moreover have "2 ^ (n + 1) dvd p" using blocks_ok_head(2) [of st1 p] a(2,4,5) by (simp add: mm_inv_def lists_ok_def)
      moreover have "same_abs st st2" using a(3) b(3) same_abs_trans by blast
      ultimately show ?thesis using st' a(5,6) b(7) unfolding same_abs_def by auto
    qed
  qed
qed

subsection \<open>Freeing\<close>

lemma buddy_cases:
  assumes "2 ^ n dvd p"
  obtains "buddy n p = p + 2 ^ n" "2 ^ Suc n dvd p" "even (p div 2 ^ n)"
  | "p = buddy n p + 2 ^ n" "2 ^ Suc n dvd buddy n p" "odd (p div 2 ^ n)"
proof (cases "even (p div 2 ^ n)")
  case True
  then show ?thesis using that(1) even_div_iff [OF assms] by (simp add: buddy_def)
next
  case False
  obtain k where k: "p = 2 ^ n * k" using assms by (elim dvdE)
  then have "odd k" using False by simp
  then obtain m where m: "k = 2 * m + 1" by (elim oddE)
  have "buddy n p = 2 ^ Suc n * m" using False by (simp add: buddy_def k m)
  then show ?thesis using that(2) False by (simp add: k m)
qed

definition fl_enter :: "bool \<Rightarrow> nat \<Rightarrow> nat \<Rightarrow> 'a mm_scheme \<Rightarrow> 'a mm_scheme" where
  "fl_enter back n p st = (if back then fl_add n p st else fl_push n p st)"

lemma fl_enter_fields [simp]:
  "pg_type (fl_enter b n p st) = pg_type st" "pg_allocsize (fl_enter b n p st) = pg_allocsize st"
  "set (freepage (fl_enter b n p st) k) = (if k = n then insert p (set (freepage st n)) else set (freepage st k))"
  "p \<notin> set (freepage st n) \<Longrightarrow> distinct (freepage (fl_enter b n p st) k) = distinct (freepage st k)"
  by (auto simp: fl_enter_def fl_add_def fl_push_def)

lemma lists_ok_enter:
  assumes "lists_ok (insert p X) st" "p \<notin> X" "pg_allocsize st p = n" "n < 13"
  shows "lists_ok X (fl_enter b n p st)"
  unfolding lists_ok_def
proof (intro conjI allI impI)
  show "X \<subseteq> {h. h < NUM_OF_PAGES \<and> pg_type (fl_enter b n p st) h = PAGE_TYPE_FREE}"
    using assms(1) by (auto simp: lists_ok_def)
  have pF: "p < NUM_OF_PAGES" "pg_type st p = PAGE_TYPE_FREE" using assms(1) by (auto simp: lists_ok_def)
  have p: "p \<notin> set (freepage st n)" using lists_okD [OF assms(1,4)] by simp
  fix k :: nat assume k: "k < 13"
  show "distinct (freepage (fl_enter b n p st) k)" using p assms(1) k by (simp add: lists_ok_def)
  have "h \<in> set (freepage (fl_enter b n p st) k) \<longleftrightarrow>
      h < NUM_OF_PAGES \<and> pg_type st h = PAGE_TYPE_FREE \<and> pg_allocsize st h = k \<and> h \<notin> X" for h
    using lists_okD [OF assms(1) k, of h] lists_okD [OF assms(1,4), of h] pF assms(2,3) by (cases "h = p") auto
  then show "set (freepage (fl_enter b n p st) k) =
      {h. h < NUM_OF_PAGES \<and> pg_type (fl_enter b n p st) h = PAGE_TYPE_FREE \<and>
          pg_allocsize (fl_enter b n p st) h = k \<and> h \<notin> X}"
    by (simp only: fl_enter_fields(1,2)) blast
qed

lemma set_type_free:
  assumes inv: "mm_inv {} st" and p: "p < NUM_OF_PAGES" "pg_type st p \<notin> {PAGE_TYPE_FREE, PAGE_TYPE_NOT_HEAD}"
    and st1_def: "st1 = fl_enter b (pg_allocsize st p) p (set_type p PAGE_TYPE_FREE st)"
  shows "mm_inv {} st1 \<and> free_pages st1 = free_pages st \<union> block st p \<and> used st1 = (used st)(p := None) \<and>
         pg_type st1 p = PAGE_TYPE_FREE \<and> (merged {} st \<longrightarrow> merged {p} st1)"
proof -
  let ?st = "set_type p PAGE_TYPE_FREE st"
  have ok: "blocks_ok st" and l: "lists_ok {} st" using inv by (auto simp: mm_inv_def)
  have B: "block st1 h = block st h" for h by (simp add: block_def st1_def set_type_def)
  have H: "head st1 h = head st h" for h using p by (simp add: st1_def set_type_def)
  have "blocks_ok st1" using ok unfolding blocks_ok_def B H by (simp add: st1_def set_type_def)
  moreover have "lists_ok {p} ?st"
    unfolding lists_ok_def
  proof (intro conjI allI impI)
    show "{p} \<subseteq> {h. h < NUM_OF_PAGES \<and> pg_type ?st h = PAGE_TYPE_FREE}" using p by (simp add: set_type_def)
    fix k :: nat assume k: "k < 13"
    show "distinct (freepage ?st k)" using l k by (simp add: lists_ok_def set_type_def)
    have "h \<in> set (freepage ?st k) \<longleftrightarrow> h < NUM_OF_PAGES \<and> pg_type ?st h = PAGE_TYPE_FREE \<and>
        pg_allocsize ?st h = k \<and> h \<notin> {p}" for h
      using lists_okD [OF l k, of h] p by (auto simp: set_type_def)
    then show "set (freepage ?st k) = {h. h < NUM_OF_PAGES \<and> pg_type ?st h = PAGE_TYPE_FREE \<and>
        pg_allocsize ?st h = k \<and> h \<notin> {p}}" by blast
  qed
  then have "lists_ok {} st1"
    unfolding st1_def using blocks_ok_head(1) [OF ok p(1)] p(2)
    by (intro lists_ok_enter) (simp_all add: set_type_def)
  moreover have "free_pages st1 = free_pages st \<union> block st p"
  proof -
    have "{h. h < NUM_OF_PAGES \<and> pg_type st1 h = PAGE_TYPE_FREE} =
        insert p {h. h < NUM_OF_PAGES \<and> pg_type st h = PAGE_TYPE_FREE}"
      using p by (auto simp: st1_def set_type_def)
    then show ?thesis unfolding free_pages_def B by auto
  qed
  moreover have "used st1 = (used st)(p := None)" by (auto simp: used_def st1_def set_type_def)
  moreover have "merged {} st \<longrightarrow> merged {p} st1" by (auto simp: merged_def st1_def set_type_def)
  ultimately show ?thesis by (simp add: mm_inv_def st1_def set_type_def)
qed

text \<open>One merge: \<open>lo\<close> and \<open>hi\<close> are the two halves.\<close>

lemma merge_halves_ok:
  assumes inv: "mm_inv {} st" and lo: "lo < NUM_OF_PAGES" "pg_type st lo = PAGE_TYPE_FREE" "pg_allocsize st lo = n"
    and hi: "hi = lo + 2 ^ n" "pg_type st hi = PAGE_TYPE_FREE" "pg_allocsize st hi = n"
    and n: "Suc n < 13" "2 ^ Suc n dvd lo"
    and st1_def: "st1 = fl_enter b (Suc n) lo (set_allocsize lo (Suc n)
                    (set_type hi PAGE_TYPE_NOT_HEAD (fl_del n hi (fl_del n lo st))))"
  shows "mm_inv {} st1 \<and> same_abs st st1 \<and> pg_type st1 lo = PAGE_TYPE_FREE \<and>
         (merged {lo} st \<or> merged {hi} st \<longrightarrow> merged {lo} st1)"
proof -
  let ?st = "set_allocsize lo (Suc n) (set_type hi PAGE_TYPE_NOT_HEAD (fl_del n hi (fl_del n lo st)))"
  have ok: "blocks_ok st" and l: "lists_ok {} st" using inv by (auto simp: mm_inv_def)
  have ne: "hi \<noteq> lo" by (simp add: hi)
  have hN: "hi < NUM_OF_PAGES" using aligned_fits [OF n(2) lo(1) n(1)] zero_less_power [of "2 :: nat" n]
    unfolding hi power_Suc by linarith
  have TA: "pg_type st1 = (pg_type st)(hi := PAGE_TYPE_NOT_HEAD)" "pg_allocsize st1 = (pg_allocsize st)(lo := Suc n)"
    "pg_type ?st = (pg_type st)(hi := PAGE_TYPE_NOT_HEAD)" "pg_allocsize ?st = (pg_allocsize st)(lo := Suc n)"
    "freepage ?st = (freepage st)(n := remove1 hi (remove1 lo (freepage st n)))"
    by (simp_all add: st1_def mm_update_defs)
  have "blocks_ok st1"
    using lo hi by (intro merge_blocks_ok [OF ok lo(1) _ lo(3) hi(1) _ hi(3) n(2,1) TA(1,2)]) simp_all
  moreover have "lists_ok {lo} ?st"
    unfolding lists_ok_def
  proof (intro conjI allI impI)
    show "{lo} \<subseteq> {h. h < NUM_OF_PAGES \<and> pg_type ?st h = PAGE_TYPE_FREE}" using lo ne TA by simp
    fix k :: nat assume k: "k < 13"
    have d: "distinct (freepage st k)" "distinct (freepage st n)" using l k n by (simp_all add: lists_ok_def)
    show "distinct (freepage ?st k)" using d TA(5) by simp
    have "h \<in> set (freepage ?st k) \<longleftrightarrow> h < NUM_OF_PAGES \<and> pg_type ?st h = PAGE_TYPE_FREE \<and>
        pg_allocsize ?st h = k \<and> h \<notin> {lo}" for h
      using lists_okD [OF l k, of h] d TA(3,4,5) lo hi ne by (cases "h = lo"; cases "h = hi") auto
    then show "set (freepage ?st k) = {h. h < NUM_OF_PAGES \<and> pg_type ?st h = PAGE_TYPE_FREE \<and>
        pg_allocsize ?st h = k \<and> h \<notin> {lo}}" by blast
  qed
  then have "lists_ok {} st1"
    unfolding st1_def using n(1) TA(4) by (intro lists_ok_enter) simp_all
  moreover have "block st1 lo = block st lo \<union> block st hi"
    using TA lo hi by (auto simp: block_def)
  then have "same_abs st1 st"
    using lo hi hN ne TA by (intro same_abs_halves [of lo hi]) auto
  moreover have "merged {lo} st1" if m: "merged {lo} st \<or> merged {hi} st"
    unfolding merged_def
  proof (intro allI impI)
    fix h r
    assume "h < NUM_OF_PAGES" "r < NUM_OF_PAGES" "h \<notin> {lo} \<and> r \<notin> {lo} \<and> r = buddy (pg_allocsize st1 h) h \<and>
      pg_type st1 h = PAGE_TYPE_FREE \<and> pg_type st1 r = PAGE_TYPE_FREE \<and> pg_allocsize st1 r = pg_allocsize st1 h"
    moreover from this have "h \<noteq> hi" "r \<noteq> hi" using TA(1) by auto
    ultimately show "12 \<le> pg_allocsize st1 h" using m TA(1,2) unfolding merged_def by auto
  qed
  ultimately show ?thesis using lo ne TA(1) same_abs_sym by (auto simp: mm_inv_def)
qed

lemma merge_step_ok:
  assumes inv: "mm_inv {} st" and p: "p < NUM_OF_PAGES" "pg_type st p = PAGE_TYPE_FREE"
  shows "\<exists>r. merge_step p st = Inr r \<and>
    (case r of None \<Rightarrow> merged {p} st \<longrightarrow> merged {} st
     | Some (p', st') \<Rightarrow> mm_inv {} st' \<and> same_abs st st' \<and> p' < NUM_OF_PAGES \<and> pg_type st' p' = PAGE_TYPE_FREE \<and>
         (merged {p} st \<longrightarrow> merged {p'} st'))"
proof -
  have ok: "blocks_ok st" using inv by (simp add: mm_inv_def)
  define n where "n = pg_allocsize st p"
  define q where "q = buddy n p"
  have n13: "n < 13" "2 ^ n dvd p" using blocks_ok_head [OF ok p(1)] p(2) by (simp_all add: n_def)
  note bp = buddy_page [OF p(1) n13(1), of st]
  show ?thesis
  proof (cases "n < 12 \<and> pg_type st q = PAGE_TYPE_FREE \<and> pg_allocsize st q = n")
    case False
    then have "merge_step p st = Inr None"
      using n13 bp by (auto simp: merge_step_def Let_def n_def [symmetric] q_def [symmetric] NUM_OF_ALLOCSIZE_def)
    moreover have "merged {} st" if m: "merged {p} st"
      unfolding merged_def
    proof (intro allI impI)
      fix h r
      assume hN: "h < NUM_OF_PAGES" "r < NUM_OF_PAGES" and a: "h \<notin> {} \<and> r \<notin> {} \<and> r = buddy (pg_allocsize st h) h \<and>
        pg_type st h = PAGE_TYPE_FREE \<and> pg_type st r = PAGE_TYPE_FREE \<and> pg_allocsize st r = pg_allocsize st h"
      have hr: "h = buddy (pg_allocsize st r) r"
        using a buddy_buddy [OF blocks_ok_head(2) [OF ok hN(1)]] by (metis page_type.distinct(1))
      consider "h \<noteq> p" "r \<noteq> p" | "h = p" | "r = p" by blast
      then show "12 \<le> pg_allocsize st h"
      proof cases
        case 1
        then show ?thesis using m hN a unfolding merged_def by blast
      next
        case 2
        then have "r = q" "pg_allocsize st h = n" using a unfolding n_def q_def by blast+
        then show ?thesis using False a by auto
      next
        case 3
        then have "h = q" "pg_allocsize st h = n" using a hr unfolding n_def q_def by metis+
        then show ?thesis using False a by auto
      qed
    qed
    ultimately show ?thesis by simp
  next
    case True
    define b where "b = (page_to_virt st p AND push_bit (Suc n) 4096 \<noteq> 0)"
    define lo where "lo = (if even (p div 2 ^ n) then p else q)"
    define hi where "hi = (if even (p div 2 ^ n) then q else p)"
    have "hi = lo + 2 ^ n \<and> 2 ^ Suc n dvd lo"
      by (rule buddy_cases [OF n13(2)]) (simp_all add: lo_def hi_def q_def)
    then have lh: "hi = lo + 2 ^ n" "2 ^ Suc n dvd lo" by auto
    have loN: "lo < NUM_OF_PAGES" using p buddy_bound [OF p(1) n13(1)] by (simp add: lo_def q_def)
    have f: "pg_type st lo = PAGE_TYPE_FREE" "pg_allocsize st lo = n" "pg_type st hi = PAGE_TYPE_FREE" "pg_allocsize st hi = n"
      using True p by (auto simp: lo_def hi_def n_def)
    let ?st = "fl_enter b (Suc n) lo (set_allocsize lo (Suc n) (set_type hi PAGE_TYPE_NOT_HEAD (fl_del n hi (fl_del n lo st))))"
    have "pg_allocsize (set_type hi PAGE_TYPE_NOT_HEAD (fl_del n hi (fl_del n lo st))) lo = n"
      using f by (simp add: mm_update_defs)
    then have "merge_step p st = Inr (Some (lo, ?st))"
      using True n13 bp p(1) page_test [OF p(1) n13(1), of st]
      unfolding merge_step_def Let_def n_def [symmetric] lo_def hi_def b_def
      by (cases "even (p div 2 ^ n)") (simp_all add: q_def [symmetric] NUM_OF_ALLOCSIZE_def fl_enter_def)
    moreover have "mm_inv {} ?st \<and> same_abs st ?st \<and> pg_type ?st lo = PAGE_TYPE_FREE \<and>
        (merged {lo} st \<or> merged {hi} st \<longrightarrow> merged {lo} ?st)"
      using True f lh loN by (intro merge_halves_ok [OF inv loN]) auto
    moreover have "p = lo \<or> p = hi" by (simp add: lo_def hi_def)
    ultimately show ?thesis using loN by auto
  qed
qed

lemma merge_page_ok:
  assumes "mm_inv {} st" "p < NUM_OF_PAGES" "pg_type st p = PAGE_TYPE_FREE"
  shows "\<exists>st'. merge_page p st = Inr st' \<and> mm_inv {} st' \<and> same_abs st st' \<and> (merged {p} st \<longrightarrow> merged {} st')"
  using assms
proof (induction p st rule: merge_page.induct)
  case (1 p st)
  obtain r where r: "merge_step p st = Inr r"
    "case r of None \<Rightarrow> merged {p} st \<longrightarrow> merged {} st
     | Some (p', st') \<Rightarrow> mm_inv {} st' \<and> same_abs st st' \<and> p' < NUM_OF_PAGES \<and> pg_type st' p' = PAGE_TYPE_FREE \<and>
         (merged {p} st \<longrightarrow> merged {p'} st')"
    using merge_step_ok [OF "1.prems"] by blast
  show ?case
  proof (cases r)
    case None
    then show ?thesis using r "1.prems" by (simp add: merge_page.simps [of p])
  next
    case (Some x)
    obtain p' st' where x: "x = (p', st')" by (cases x)
    then obtain st'' where "merge_page p' st' = Inr st''" "mm_inv {} st''" "same_abs st' st''"
        "merged {p'} st' \<longrightarrow> merged {} st''"
      using "1.IH" [OF r(1) Some x [symmetric]] r(2) Some by auto
    then show ?thesis using r Some x same_abs_trans [of st st' st''] by (simp add: merge_page.simps [of p])
  qed
qed

lemma mm_page_free_rest_ok:
  assumes inv: "mm_inv {} st" and p: "p < NUM_OF_PAGES"
    and t: "pg_type st p \<in> {PAGE_TYPE_ALLOCATED, PAGE_TYPE_RESERVED}"
  shows "\<exists>st'. mm_page_free_rest p (pg_allocsize st p) s virt st = Inr (None, st') \<and> mm_inv {} st' \<and>
    free_pages st' = free_pages st \<union> block st p \<and> used st' = (used st)(p := None) \<and>
    (merged {} st \<longrightarrow> merged {} st')"
proof -
  define b where "b = (virt AND s \<noteq> 0)"
  define st1 where "st1 = fl_enter b (pg_allocsize st p) p (set_type p PAGE_TYPE_FREE st)"
  have 1: "mm_inv {} st1" "free_pages st1 = free_pages st \<union> block st p" "used st1 = (used st)(p := None)"
      "pg_type st1 p = PAGE_TYPE_FREE" "merged {} st \<longrightarrow> merged {p} st1"
    using set_type_free [OF inv p _ st1_def] t by auto
  obtain st' where "merge_page p st1 = Inr st'" "mm_inv {} st'" "same_abs st1 st'" "merged {p} st1 \<longrightarrow> merged {} st'"
    using merge_page_ok [OF 1(1) p 1(4)] by blast
  then show ?thesis
    using 1 t unfolding st1_def b_def by (auto simp: mm_page_free_rest_def Let_def fl_enter_def same_abs_def)
qed

lemma mm_page_free_sub_ok:
  assumes inv: "mm_inv {} st" and p: "p < NUM_OF_PAGES"
    and t: "pg_type st p \<in> {PAGE_TYPE_ALLOCATED, PAGE_TYPE_RESERVED}"
  shows "\<exists>st'. mm_page_free_sub p st = Inr (None, st') \<and> mm_inv {} st' \<and>
    free_pages st' = free_pages st \<union> block st p \<and> used st' = (used st)(p := None) \<and>
    (merged {} st \<longrightarrow> merged {} st')"
proof -
  have "pg_allocsize st p < 13" using blocks_ok_head(1) [of st p] inv p t by (auto simp: mm_inv_def)
  then show ?thesis
    using mm_page_free_rest_ok [OF inv p t] p t by (auto simp: mm_page_free_sub.simps [of p st] Let_def)
qed

lemma used_Some: "used st p = Some (t, n) \<longleftrightarrow>
    p < NUM_OF_PAGES \<and> t \<notin> {PAGE_TYPE_FREE, PAGE_TYPE_NOT_HEAD} \<and> pg_type st p = t \<and> pg_allocsize st p = n"
  by (auto simp: used_def)

lemma mm_page_free_ok:
  assumes inv: "mm_inv {} st" and p: "used st p = Some (t, n)" "t \<in> {PAGE_TYPE_ALLOCATED, PAGE_TYPE_RESERVED}"
  shows "\<exists>st'. mm_page_free p st = Inr st' \<and> mm_inv {} st' \<and>
    free_pages st' = free_pages st \<union> {p..<p + 2 ^ n} \<and> used st' = (used st)(p := None) \<and>
    (merged {} st \<longrightarrow> merged {} st')"
proof -
  have "p < NUM_OF_PAGES" "pg_type st p \<in> {PAGE_TYPE_ALLOCATED, PAGE_TYPE_RESERVED}" "block st p = {p..<p + 2 ^ n}"
    using p by (auto simp: used_Some block_def)
  then show ?thesis using mm_page_free_sub_ok [OF inv, of p] by (auto simp: mm_page_free_def)
qed

lemma mm_page_free_cont_ok:
  assumes inv: "mm_inv {} st" and p: "used st p = Some (PAGE_TYPE_ALLOCATED_CONT, n)" "2 ^ (n + 1) dvd p"
    and q: "used st (p + 2 ^ n) = Some (PAGE_TYPE_ALLOCATED, m)"
  shows "\<exists>st'. mm_page_free p st = Inr st' \<and> mm_inv {} st' \<and>
    free_pages st' = free_pages st \<union> {p..<p + 2 ^ n + 2 ^ m} \<and> used st' = (used st)(p := None, p + 2 ^ n := None) \<and>
    (merged {} st \<longrightarrow> merged {} st')"
proof -
  let ?q = "p + 2 ^ n"
  let ?st = "set_type p PAGE_TYPE_ALLOCATED st"
  have pp: "p < NUM_OF_PAGES" "pg_type st p = PAGE_TYPE_ALLOCATED_CONT" "pg_allocsize st p = n" using p by (auto simp: used_Some)
  have ok: "blocks_ok st" and l: "lists_ok {} st" using inv by (auto simp: mm_inv_def)
  have n: "n < 13" "2 ^ n dvd p" using blocks_ok_head [OF ok pp(1)] pp by auto
  have B: "block ?st h = block st h" and H: "head ?st h = head st h" for h using pp by (simp_all add: block_def set_type_def)
  have "blocks_ok ?st" using ok unfolding blocks_ok_def B H by (simp add: set_type_def)
  moreover have "lists_ok {} ?st" using l pp(2) by (auto simp: lists_ok_def set_type_def)
  ultimately have inv1: "mm_inv {} ?st" by (simp add: mm_inv_def)
  have F: "{h. h < NUM_OF_PAGES \<and> pg_type ?st h = PAGE_TYPE_FREE} = {h. h < NUM_OF_PAGES \<and> pg_type st h = PAGE_TYPE_FREE}"
    using pp by (auto simp: set_type_def)
  have f1: "free_pages ?st = free_pages st" unfolding free_pages_def B F ..
  have u1: "used ?st = (used st)(p \<mapsto> (PAGE_TYPE_ALLOCATED, n))" using pp by (auto simp: used_def set_type_def)
  have qt: "?q < NUM_OF_PAGES" "pg_type ?st ?q \<in> {PAGE_TYPE_ALLOCATED, PAGE_TYPE_RESERVED}" "block ?st ?q = {?q..<?q + 2 ^ m}"
    using q by (auto simp: used_Some set_type_def block_def)
  obtain st2 where st2: "mm_page_free_sub ?q ?st = Inr (None, st2)" "mm_inv {} st2"
      "free_pages st2 = free_pages ?st \<union> {?q..<?q + 2 ^ m}" "used st2 = (used ?st)(?q := None)"
      "merged {} ?st \<longrightarrow> merged {} st2"
    using mm_page_free_sub_ok [OF inv1 qt(1,2)] qt(3) by auto
  then have "used st2 p = Some (PAGE_TYPE_ALLOCATED, n)" using u1 by simp
  then have p2: "pg_type st2 p = PAGE_TYPE_ALLOCATED" "pg_allocsize st2 p = n" by (auto simp: used_Some)
  then have b2: "block st2 p = {p..<?q}" by (simp add: block_def)
  obtain st' where st': "mm_page_free_rest p n (push_bit n 4096) (page_to_virt st p) st2 = Inr (None, st')" "mm_inv {} st'"
      "free_pages st' = free_pages st2 \<union> {p..<?q}" "used st' = (used st2)(p := None)"
      "merged {} st2 \<longrightarrow> merged {} st'"
    using mm_page_free_rest_ok [OF st2(2) pp(1), of "push_bit n 4096" "page_to_virt st p"] p2 b2 by auto
  have even: "even (p div 2 ^ n)" using even_div_iff [OF n(2)] p(2) by simp
  have "mm_page_free_sub p st = Inr (None, st')"
    using pp n even st2(1) st'(1) second_half_page [OF pp(1) n(1) even, of st]
    by (simp add: mm_page_free_sub.simps [of p st] page_test Let_def)
  moreover have "merged {} st \<longrightarrow> merged {} ?st" using pp(2) by (auto simp: merged_def set_type_def)
  moreover have "{p..<?q} \<union> {?q..<?q + 2 ^ m} = {p..<?q + 2 ^ m}" by auto
  ultimately show ?thesis
    using st' st2 f1 u1 by (auto simp: mm_page_free_def fun_upd_twist)
qed

subsection \<open>Counting\<close>

lemma free_pages_card:
  assumes "mm_inv {} st"
  shows "num_of_available_pages st = card (free_pages st)"
proof -
  let ?F = "{h. h < NUM_OF_PAGES \<and> pg_type st h = PAGE_TYPE_FREE}"
  have ok: "blocks_ok st" and l: "lists_ok {} st" using assms by (auto simp: mm_inv_def)
  have fin: "finite ?F" by simp
  have "card (free_pages st) = (\<Sum>h \<in> ?F. card (block st h))"
    unfolding free_pages_def
  proof (rule card_UN_disjoint)
    show "\<forall>h \<in> ?F. finite (block st h)" by (simp add: block_def)
    show "\<forall>h \<in> ?F. \<forall>j \<in> ?F. h \<noteq> j \<longrightarrow> block st h \<inter> block st j = {}" using block_disjoint [OF ok] by simp
  qed (rule fin)
  also have "\<dots> = (\<Sum>h \<in> ?F. 2 ^ pg_allocsize st h)" by (simp add: block_def)
  also have "\<dots> = (\<Sum>i \<in> {0..<13}. \<Sum>h \<in> {h \<in> ?F. pg_allocsize st h = i}. 2 ^ pg_allocsize st h)"
    using blocks_ok_head(1) [OF ok] by (intro sum.group [symmetric] fin) auto
  also have "\<dots> = (\<Sum>i \<in> {0..<13}. length (freepage st i) * 2 ^ i)"
  proof (rule sum.cong [OF refl])
    fix i :: nat assume i: "i \<in> {0..<13}"
    have "{h \<in> ?F. pg_allocsize st h = i} = set (freepage st i)" using lists_okD [OF l, of i] i by auto
    moreover have "distinct (freepage st i)" using l i by (simp add: lists_ok_def)
    moreover have "(\<Sum>h \<in> {h \<in> ?F. pg_allocsize st h = i}. 2 ^ pg_allocsize st h) =
        (\<Sum>h \<in> {h \<in> ?F. pg_allocsize st h = i}. (2 :: nat) ^ i)" by (rule sum.cong) auto
    ultimately show "(\<Sum>h \<in> {h \<in> ?F. pg_allocsize st h = i}. 2 ^ pg_allocsize st h) = length (freepage st i) * 2 ^ i"
      by (simp add: distinct_card)
  qed
  also have "\<dots> = num_of_available_pages st"
    unfolding num_of_available_pages_def NUM_OF_ALLOCSIZE_def
    by (simp only: interv_sum_list_conv_sum_set_nat set_upt)
  finally show ?thesis ..
qed

subsection \<open>Merged memory has no hidden room\<close>

text \<open>An aligned run of free pages lies in one free block.\<close>

lemma free_run_in_block:
  assumes inv: "mm_inv {} st" "merged {} st" and n: "n < 13" and p: "2 ^ n dvd p" "{p..<p + 2 ^ n} \<subseteq> free_pages st"
  shows "\<exists>h < NUM_OF_PAGES. pg_type st h = PAGE_TYPE_FREE \<and> {p..<p + 2 ^ n} \<subseteq> block st h \<and> n \<le> pg_allocsize st h"
  using n p
proof (induction n arbitrary: p)
  case 0
  then have "p \<in> free_pages st" by simp
  then show ?case by (auto simp: free_pages_def)
next
  case (Suc k)
  have ok: "blocks_ok st" using inv by (simp add: mm_inv_def)
  have d: "2 ^ k dvd p" using Suc.prems(2) by (meson dvd_trans le_imp_power_dvd le_SucI order_refl)
  have "2 ^ k dvd p + 2 ^ k" using d by simp
  have big: "\<exists>h < NUM_OF_PAGES. pg_type st h = PAGE_TYPE_FREE \<and> {p..<p + 2 ^ Suc k} \<subseteq> block st h \<and> Suc k \<le> pg_allocsize st h"
    if h: "h < NUM_OF_PAGES" "pg_type st h = PAGE_TYPE_FREE" "Suc k \<le> pg_allocsize st h" "x \<in> block st h" "x = p \<or> x = p + 2 ^ k" for h x
  proof -
    let ?s = "2 ^ Suc k :: nat"
    define a where "a = pg_allocsize st h"
    have "2 ^ a dvd h" using blocks_ok_head(2) [OF ok h(1)] h(2) by (simp add: a_def)
    then have dh: "?s dvd h" "?s dvd 2 ^ a" using h(3) unfolding a_def by (meson dvd_trans le_imp_power_dvd)+
    obtain i where i: "h = ?s * i" using dh(1) by (elim dvdE)
    obtain j where j: "2 ^ a = ?s * j" using dh(2) by (elim dvdE)
    obtain l where l: "p = ?s * l" using Suc.prems(2) by (elim dvdE)
    have x: "h \<le> p + 2 ^ k" "p < h + 2 ^ a" using h(4,5) by (auto simp: block_def a_def)
    have "h < p + ?s" using x(1) zero_less_power [of "2 :: nat" k] unfolding power_Suc by linarith
    then have "?s * i < ?s * (l + 1)" unfolding i l by (simp add: algebra_simps)
    then have "i \<le> l" by (simp only: nat_mult_less_cancel_disj) simp
    moreover have "?s * l < ?s * (i + j)" using x(2) unfolding i j l by (simp add: algebra_simps)
    then have "l + 1 \<le> i + j" by (simp only: nat_mult_less_cancel_disj) simp
    then have "?s * (l + 1) \<le> ?s * (i + j)" by (rule mult_le_mono2)
    ultimately have "h \<le> p" "p + ?s \<le> h + 2 ^ a" unfolding i j l by (simp_all add: algebra_simps)
    then have "{p..<p + ?s} \<subseteq> block st h" by (auto simp: block_def a_def)
    then show ?thesis using h(1-3) by blast
  qed
  have sub: "{p..<p + 2 ^ k} \<subseteq> free_pages st" "{p + 2 ^ k..<p + 2 ^ k + 2 ^ k} \<subseteq> free_pages st"
    using Suc.prems(3) by auto
  obtain h1 where h1: "h1 < NUM_OF_PAGES" "pg_type st h1 = PAGE_TYPE_FREE" "{p..<p + 2 ^ k} \<subseteq> block st h1" "k \<le> pg_allocsize st h1"
    using Suc.IH [OF _ d sub(1)] Suc.prems(1) by auto
  obtain h2 where h2: "h2 < NUM_OF_PAGES" "pg_type st h2 = PAGE_TYPE_FREE" "{p + 2 ^ k..<p + 2 ^ k + 2 ^ k} \<subseteq> block st h2" "k \<le> pg_allocsize st h2"
    using Suc.IH [OF _ \<open>2 ^ k dvd p + 2 ^ k\<close> sub(2)] Suc.prems(1) by auto
  have mem: "p \<in> block st h1" "p + 2 ^ k \<in> block st h2" using h1(3) h2(3) by auto
  show ?case
  proof (cases "Suc k \<le> pg_allocsize st h1 \<or> Suc k \<le> pg_allocsize st h2")
    case True
    then show ?thesis using big h1 h2 mem by blast
  next
    case False
    then have k: "pg_allocsize st h1 = k" "pg_allocsize st h2 = k" using h1(4) h2(4) by auto
    have run: "h = x" if "pg_allocsize st h = k" "{x..<x + 2 ^ k} \<subseteq> block st h" for h x
    proof -
      have "x \<in> {x..<x + 2 ^ k}" "x + 2 ^ k - 1 \<in> {x..<x + 2 ^ k}"
        using zero_less_power [of "2 :: nat" k] unfolding atLeastLessThan_iff by linarith+
      then have "x \<in> block st h" "x + 2 ^ k - 1 \<in> block st h" using that(2) by blast+
      then show ?thesis using that(1) by (auto simp: block_def)
    qed
    have e: "h1 = p" "h2 = p + 2 ^ k" using run h1(3) h2(3) k by blast+
    have "even (p div 2 ^ k)" using even_div_iff [OF d] Suc.prems(2) by simp
    then have "h2 = buddy (pg_allocsize st h1) h1" using k e by (simp add: buddy_def)
    then have "12 \<le> k" using inv(2) h1(1,2) h2(1,2) k unfolding merged_def by auto
    then show ?thesis using Suc.prems(1) by simp
  qed
qed

subsection \<open>The start\<close>

lemma mm_init_pages_inv: "mm_inv {} (mm_init_pages sp)" "merged {} (mm_init_pages sp)"
  "free_pages (mm_init_pages sp) = {}"
  by (auto simp: mm_inv_def blocks_ok_def lists_ok_def block_def mm_init_pages_def merged_def free_pages_def)

definition kept :: "u64 \<Rightarrow> u64 \<Rightarrow> nat \<Rightarrow> bool" where
  "kept img_head img_end i \<longleftrightarrow>
     img_head \<le> 0x40000000 + 0x1000 * word_of_nat i \<and> 0x40000000 + 0x1000 * word_of_nat i < img_end \<or>
     i < panicmem_start_page img_end + NUM_OF_PANICMEM_PAGES"

lemma page_to_virt_eq: "page_to_virt st i = 0x40000000 + 0x1000 * word_of_nat i"
  by (simp add: page_to_virt_def phys_to_virt_def page_to_phys_def VMM_START_VIRT_def)

lemma free_init_pages_ok:
  assumes "mm_inv {} st" "merged {} st" "distinct is" "\<forall>i \<in> set is. used st i = Some (PAGE_TYPE_RESERVED, 0)"
  shows "\<exists>st'. free_init_pages img_head img_end is st = Inr st' \<and> mm_inv {} st' \<and> merged {} st' \<and>
    free_pages st' = free_pages st \<union> {i \<in> set is. \<not> kept img_head img_end i} \<and>
    used st' = (\<lambda>i. if i \<in> set is \<and> \<not> kept img_head img_end i then None else used st i)"
  using assms
proof (induction "is" arbitrary: st)
  case (Cons i "is")
  show ?case
  proof (cases "kept img_head img_end i")
    case True
    then have "free_init_pages img_head img_end (i # is) st = free_init_pages img_head img_end is st"
      by (auto simp: kept_def page_to_virt_eq)
    then show ?thesis using Cons.IH [of st] Cons.prems True by (auto simp: fun_eq_iff)
  next
    case False
    obtain st1 where st1: "mm_page_free i st = Inr st1" "mm_inv {} st1" "free_pages st1 = free_pages st \<union> {i..<i + 2 ^ 0}"
        "used st1 = (used st)(i := None)" "merged {} st \<longrightarrow> merged {} st1"
      using mm_page_free_ok [OF Cons.prems(1), of i PAGE_TYPE_RESERVED 0] Cons.prems(4) by auto
    have "free_init_pages img_head img_end (i # is) st = free_init_pages img_head img_end is st1"
      using False st1(1) by (auto simp: kept_def page_to_virt_eq)
    moreover have "\<forall>j \<in> set is. used st1 j = Some (PAGE_TYPE_RESERVED, 0)"
      using Cons.prems(3,4) st1(4) by auto
    ultimately show ?thesis using Cons.IH [OF st1(2)] st1 Cons.prems False by (auto simp: fun_eq_iff)
  qed
qed simp

lemma mm_init_global_ok:
  "\<exists>st. mm_init_global vmm_start_phys img_head img_end = Inr st \<and> mm_inv {} st \<and> merged {} st \<and>
     free_pages st = {i. i < NUM_OF_PAGES \<and> \<not> kept img_head img_end i} \<and>
     used st = (\<lambda>i. if i < NUM_OF_PAGES \<and> kept img_head img_end i then Some (PAGE_TYPE_RESERVED, 0) else None)"
proof -
  let ?st = "mm_init_pages vmm_start_phys"
  have u: "used ?st = (\<lambda>i. if i < NUM_OF_PAGES then Some (PAGE_TYPE_RESERVED, 0) else None)"
    by (auto simp: used_def mm_init_pages_def)
  have "\<forall>i \<in> set [0..<NUM_OF_PAGES]. used ?st i = Some (PAGE_TYPE_RESERVED, 0)" using u by simp
  from free_init_pages_ok [OF mm_init_pages_inv(1,2) distinct_upt this, of img_head img_end] show ?thesis
    unfolding mm_init_global_def mm_init_pages_inv(3) u by (auto simp: fun_eq_iff)
qed

subsection \<open>The size of a request\<close>

fun total_pages :: "nat \<times> nat option \<Rightarrow> nat" where
  "total_pages (i, None) = 2 ^ i"
| "total_pages (i, Some j) = 2 ^ i + 2 ^ j"

fun size_ok :: "nat \<times> nat option \<Rightarrow> bool" where
  "size_ok (i, None) \<longleftrightarrow> i < 13"
| "size_ok (i, Some j) \<longleftrightarrow> i < 13 \<and> j < i"

definition block_fits :: "nat \<Rightarrow> nat \<Rightarrow> bool" where
  "block_fits n i \<longleftrightarrow> n \<le> 2 ^ i \<or> 0 < i \<and> n \<le> 2 ^ i + 2 ^ (i - 1)"

lemma second_size_ok:
  "j \<le> second_size (4096 * int d) j k \<and> second_size (4096 * int d) j k \<le> j + k \<and>
   (second_size (4096 * int d) j k = j + k \<or> d \<le> 2 ^ second_size (4096 * int d) j k) \<and>
   (\<forall>t. j \<le> t \<and> t < second_size (4096 * int d) j k \<longrightarrow> 2 ^ t < d)"
proof (induction k arbitrary: j)
  case (Suc k)
  have e: "4096 * int d \<le> 4096 * 2 ^ j \<longleftrightarrow> d \<le> 2 ^ j"
    using of_nat_le_iff [of d "2 ^ j", where ?'a = int] by simp
  show ?case
  proof (cases "d \<le> 2 ^ j")
    case True
    then show ?thesis using e by simp
  next
    case False
    have "2 ^ t < d" if "j \<le> t" "t < second_size (4096 * int d) (j + 1) k" for t
      using that Suc [of "j + 1"] False by (cases "t = j") auto
    then show ?thesis using Suc [of "j + 1"] False e by auto
  qed
qed simp

lemma get_alloc_pages_size_from_ok:
  assumes "0 < n" "n \<le> 4096" "i < 13" "\<forall>k < i. \<not> block_fits n k"
  shows "\<exists>r. get_alloc_pages_size_from (4096 * int n) i = Some r \<and> block_fits n (fst r) \<and> fst r < 13 \<and>
     (\<forall>k < fst r. \<not> block_fits n k) \<and>
     snd r = (if n \<le> 2 ^ fst r then None else Some (second_size (4096 * int (n - 2 ^ fst r)) 0 (fst r - 1)))"
  using assms(3,4)
proof (induction "13 - i" arbitrary: i)
  case (Suc m)
  have c1: "4096 * int n \<le> 4096 * 2 ^ i \<longleftrightarrow> n \<le> 2 ^ i"
    using of_nat_le_iff [of n "2 ^ i", where ?'a = int] by simp
  have c2: "4096 * int n \<le> 4096 * 2 ^ i + 4096 * 2 ^ (i - 1) \<longleftrightarrow> n \<le> 2 ^ i + 2 ^ (i - 1)"
  proof -
    have "int n \<le> 2 ^ i + 2 ^ (i - 1) \<longleftrightarrow> n \<le> 2 ^ i + 2 ^ (i - 1)"
      using of_nat_le_iff [of n "2 ^ i + 2 ^ (i - 1)", where ?'a = int] by simp
    then show ?thesis by linarith
  qed
  have c3: "4096 * int n - 4096 * 2 ^ i = 4096 * int (n - 2 ^ i)" if "\<not> n \<le> 2 ^ i"
    using that by (simp add: of_nat_diff algebra_simps)
  show ?case
  proof (cases "block_fits n i")
    case True
    then show ?thesis
      using Suc.prems c1 c2 c3
      by (auto simp: get_alloc_pages_size_from.simps [of _ i] NUM_OF_ALLOCSIZE_def block_fits_def Let_def)
  next
    case False
    have "i \<noteq> 12" using False assms(2) by (auto simp: block_fits_def)
    then have i: "m = 13 - (i + 1)" "i + 1 < 13" using Suc.hyps(2) Suc.prems(1) by auto
    have "\<forall>k < i + 1. \<not> block_fits n k" using False Suc.prems(2) by (auto simp: less_Suc_eq)
    moreover have "get_alloc_pages_size_from (4096 * int n) i = get_alloc_pages_size_from (4096 * int n) (i + 1)"
      using False Suc.prems(1) c1 c2
      by (auto simp: get_alloc_pages_size_from.simps [of _ i] NUM_OF_ALLOCSIZE_def block_fits_def Let_def)
    ultimately show ?thesis using Suc.hyps(1) [OF i] by simp
  qed
qed simp

lemma total_pages_least:
  assumes "block_fits n i" "\<forall>k < i. \<not> block_fits n k" "i < 13"
    and "j = (if n \<le> 2 ^ i then None else Some (second_size (4096 * int (n - 2 ^ i)) 0 (i - 1)))"
  shows "size_ok (i, j) \<and> n \<le> total_pages (i, j) \<and>
    (\<forall>r. size_ok r \<and> n \<le> total_pages r \<longrightarrow> total_pages (i, j) \<le> total_pages r)"
proof -
  have pow: "(2 :: nat) ^ a \<le> 2 ^ b" if "a \<le> b" for a b using that by (simp add: power_increasing)
  have below: "i \<le> fst r" if r: "size_ok r" "n \<le> total_pages r" for r
  proof (rule ccontr)
    assume "\<not> i \<le> fst r"
    then have no: "\<not> block_fits n (fst r)" using assms(2) by simp
    obtain a b where ab: "r = (a, b)" by (cases r)
    show False
    proof (cases b)
      case None
      then show False using no r ab by (simp add: block_fits_def)
    next
      case (Some c)
      then have c: "c \<le> a - 1" "0 < a" "n \<le> 2 ^ a + 2 ^ c" using r ab by auto
      then have "n \<le> 2 ^ a + 2 ^ (a - 1)" using pow [OF c(1)] by linarith
      then show False using no ab c(2) by (simp add: block_fits_def)
    qed
  qed
  have low: "2 ^ fst r \<le> total_pages r" for r by (cases r rule: total_pages.cases) simp_all
  show ?thesis
  proof (cases "n \<le> 2 ^ i")
    case True
    have "2 ^ i \<le> total_pages r" if "size_ok r" "n \<le> total_pages r" for r
      using pow [OF below [OF that]] low [of r] by (rule order_trans)
    then show ?thesis using True assms by simp
  next
    case False
    define s where "s = second_size (4096 * int (n - 2 ^ i)) 0 (i - 1)"
    have i: "0 < i" "n \<le> 2 ^ i + 2 ^ (i - 1)" using assms(1) False by (auto simp: block_fits_def)
    have s: "s \<le> i - 1" "s = i - 1 \<or> n - 2 ^ i \<le> 2 ^ s" "\<forall>t < s. 2 ^ t < n - 2 ^ i"
      using second_size_ok [of 0 "n - 2 ^ i" "i - 1"] by (auto simp: s_def)
    have n: "n \<le> 2 ^ i + 2 ^ s" using s(2) i(2) by auto
    have "2 ^ i + 2 ^ s \<le> total_pages r" if r: "size_ok r" "n \<le> total_pages r" for r
    proof (cases "fst r = i")
      case True
      then obtain b where b: "r = (i, Some b)" using False r by (cases r rule: total_pages.cases) auto
      then have "\<not> 2 ^ b < n - 2 ^ i" using r by simp
      then have "s \<le> b" using s(3) by (meson not_le)
      then show ?thesis using b pow by simp
    next
      case other: False
      then have "i + 1 \<le> fst r" using below [OF r] by simp
      then have "2 ^ (i + 1) \<le> total_pages r" using pow low order_trans by blast
      moreover have "2 ^ s \<le> (2 :: nat) ^ i" using s(1) by (intro pow) simp
      ultimately show ?thesis unfolding power_add power_one_right by linarith
    qed
    moreover have "j = Some s" using assms(4) False by (simp add: s_def)
    ultimately show ?thesis using assms(3) s(1) i(1) n by auto
  qed
qed

lemma get_alloc_pages_size_ok:
  assumes "0 < n" "n \<le> 4096"
  shows "\<exists>r. get_alloc_pages_size (word_of_nat n) = Some r \<and> size_ok r \<and> n \<le> total_pages r \<and>
    (\<forall>r'. size_ok r' \<and> n \<le> total_pages r' \<longrightarrow> total_pages r \<le> total_pages r')"
proof -
  have "unat (word_of_nat n * 0x1000 :: u32) = n * 4096"
    using assms by (simp add: unat_word_ariths unat_of_nat)
  then have "sint (word_of_nat n * 0x1000 :: u32) = 4096 * int n"
    using assms by (subst sint_small) simp_all
  then have e: "get_alloc_pages_size (word_of_nat n) = get_alloc_pages_size_from (4096 * int n) 0"
    by (simp add: get_alloc_pages_size_def)
  obtain r where r: "get_alloc_pages_size_from (4096 * int n) 0 = Some r" "block_fits n (fst r)" "fst r < 13"
     "\<forall>k < fst r. \<not> block_fits n k"
     "snd r = (if n \<le> 2 ^ fst r then None else Some (second_size (4096 * int (n - 2 ^ fst r)) 0 (fst r - 1)))"
    using get_alloc_pages_size_from_ok [OF assms, of 0] by auto
  show ?thesis using total_pages_least [OF r(2,4,3,5)] r(1) e by auto
qed

lemma size_12:
  assumes "0 < n" "n \<le> 4096" "get_alloc_pages_size (word_of_nat n) = Some (i, Some j)"
  shows "i < 12"
proof -
  have "size_ok (12, None)" "n \<le> total_pages (12, None)" using assms(2) by simp_all
  then have "size_ok (i, Some j)" "total_pages (i, Some j) \<le> total_pages (12, None)"
    using get_alloc_pages_size_ok [OF assms(1,2)] assms(3) by (metis option.inject)+
  then have "2 ^ i < (2 :: nat) ^ 12" using zero_less_power [of "2 :: nat" j] by (simp only: total_pages.simps) linarith
  then show ?thesis by (rule power_less_imp_less_exp [rotated]) simp
qed

section \<open>Properties\<close>

lemma used_not_free:
  assumes "mm_inv {} st" "p \<in> free_pages st"
  shows "used st p = None"
proof (rule ccontr)
  assume "used st p \<noteq> None"
  then have u: "p < NUM_OF_PAGES" "pg_type st p \<notin> {PAGE_TYPE_FREE, PAGE_TYPE_NOT_HEAD}"
    by (auto simp: used_def split: if_splits)
  obtain h where h: "h < NUM_OF_PAGES" "pg_type st h = PAGE_TYPE_FREE" "p \<in> block st h"
    using assms(2) by (auto simp: free_pages_def)
  then have "p = h" using assms(1) blocks_ok_inner [of st h p] u by (simp add: mm_inv_def)
  then show False using h u by simp
qed

lemma alloc_pages_ok:
  assumes inv: "mm_inv {} st" "merged {} st" and n: "0 < n" "n \<le> 4096"
    and ij: "get_alloc_pages_size (word_of_nat n) = Some (i, j)"
  shows "alloc_pages (word_of_nat n) st = Inl (Panic ''Out of memory'') \<and>
      (let k = (if j = None then i else i + 1) in \<forall>p. 2 ^ k dvd p \<longrightarrow> \<not> {p..<p + 2 ^ k} \<subseteq> free_pages st) \<or>
    (\<exists>p st'. alloc_pages (word_of_nat n) st = Inr (p, st') \<and> mm_inv {} st' \<and> merged {} st' \<and> 2 ^ i dvd p \<and>
       {p..<p + total_pages (i, j)} \<subseteq> free_pages st \<and>
       free_pages st' = free_pages st - {p..<p + total_pages (i, j)} \<and>
       (case j of None \<Rightarrow> used st' = (used st)(p \<mapsto> (PAGE_TYPE_ALLOCATED, i))
        | Some m \<Rightarrow> 2 ^ (i + 1) dvd p \<and>
            used st' = (used st)(p \<mapsto> (PAGE_TYPE_ALLOCATED_CONT, i), p + 2 ^ i \<mapsto> (PAGE_TYPE_ALLOCATED, m))))"
proof -
  have sz: "size_ok (i, j)" using get_alloc_pages_size_ok [OF n] ij by (metis option.inject)
  have none: "\<not> {p..<p + 2 ^ k} \<subseteq> free_pages st"
    if "\<forall>h < NUM_OF_PAGES. pg_type st h = PAGE_TYPE_FREE \<longrightarrow> pg_allocsize st h < k" "k < 13" "2 ^ k dvd p" for p k
    using free_run_in_block [OF inv that(2,3)] that(1) by (meson not_le)
  show ?thesis
  proof (cases j)
    case None
    then show ?thesis
      using mm_page_alloc_ok [OF inv(1), of i] sz ij inv(2) none [of i] by (auto simp: alloc_pages_def Let_def)
  next
    case (Some m)
    then have i: "i < 12" "m < i" using size_12 [OF n] ij sz by auto
    have run: "alloc_pages (word_of_nat n) st = mm_page_alloc_cont i m st" using Some ij by (simp add: alloc_pages_def)
    have "2 ^ i dvd p" if "2 ^ (i + 1) dvd p" for p :: nat
      using that by (meson dvd_trans le_imp_power_dvd le_add1)
    then show ?thesis
      using mm_page_alloc_cont_ok [OF inv(1), of i m] i inv(2) none [of "i + 1"] Some
      unfolding run by (auto simp: Let_def add.assoc)
  qed
qed

text \<open>
  C3. The page allocator hands out free memory. For every request of 1 to 4096 pages, on any
  state that satisfies the invariant, \<open>alloc_pages\<close> either returns an aligned run of at
  least that many pages that were all free, takes exactly these out of the free pages and
  records them as one allocation without touching any other allocation; or it panics with
  out of memory, and then no aligned free run of the block size it needs exists.
\<close>

theorem alloc_pages_correct:
  assumes "mm_inv {} st" "merged {} st" "0 < n" "n \<le> 4096"
  shows "\<exists>i j. get_alloc_pages_size (word_of_nat n) = Some (i, j) \<and> n \<le> total_pages (i, j) \<and>
    (alloc_pages (word_of_nat n) st = Inl (Panic ''Out of memory'') \<and>
      (let k = (if j = None then i else i + 1) in \<forall>p. 2 ^ k dvd p \<longrightarrow> \<not> {p..<p + 2 ^ k} \<subseteq> free_pages st) \<or>
    (\<exists>p st'. alloc_pages (word_of_nat n) st = Inr (p, st') \<and> mm_inv {} st' \<and> merged {} st' \<and> 2 ^ i dvd p \<and>
       {p..<p + total_pages (i, j)} \<subseteq> free_pages st \<and>
       free_pages st' = free_pages st - {p..<p + total_pages (i, j)} \<and>
       (case j of None \<Rightarrow> used st' = (used st)(p \<mapsto> (PAGE_TYPE_ALLOCATED, i))
        | Some m \<Rightarrow> 2 ^ (i + 1) dvd p \<and>
            used st' = (used st)(p \<mapsto> (PAGE_TYPE_ALLOCATED_CONT, i), p + 2 ^ i \<mapsto> (PAGE_TYPE_ALLOCATED, m)))))"
proof -
  obtain i j where ij: "get_alloc_pages_size (word_of_nat n) = Some (i, j)" "n \<le> total_pages (i, j)"
    using get_alloc_pages_size_ok [OF assms(3,4)] by (metis prod.collapse)
  show ?thesis using alloc_pages_ok [OF assms ij(1)] ij by blast
qed

text \<open>The state after start-up with a 1 MiB image.\<close>

lemma example_kept: "kept 0x40000000 0x40100000 i \<longleftrightarrow> i < 512" if "i < NUM_OF_PAGES"
proof -
  have "unat (0x40000000 + 0x1000 * word_of_nat i :: u64) = 0x40000000 + 0x1000 * i"
    using that by (simp add: NUM_OF_PAGES_def unat_word_ariths unat_of_nat)
  then have "(0x40000000 + 0x1000 * word_of_nat i < (0x40100000 :: u64)) \<longleftrightarrow> i < 256"
    by (simp add: word_less_nat_alt)
  then show ?thesis by (auto simp: kept_def panicmem_start_page_def VMM_START_VIRT_def NUM_OF_PANICMEM_PAGES_def)
qed

lemma example_start:
  obtains st where "mm_init_global 0x38000000 0x40000000 0x40100000 = Inr st" "mm_inv {} st" "merged {} st"
    "free_pages st = {512..<32768}"
proof -
  obtain st where st: "mm_init_global 0x38000000 0x40000000 0x40100000 = Inr st" "mm_inv {} st" "merged {} st"
      "free_pages st = {i. i < NUM_OF_PAGES \<and> \<not> kept 0x40000000 0x40100000 i}"
    using mm_init_global_ok by blast
  have "free_pages st = {512..<32768}" unfolding st(4) using example_kept by (auto simp: NUM_OF_PAGES_def)
  then show ?thesis using st that by blast
qed

theorem alloc_pages_correct_witness:
  "\<exists>st p st'. mm_init_global 0x38000000 0x40000000 0x40100000 = Inr st \<and> alloc_pages 3 st = Inr (p, st') \<and>
     {p..<p + 3} \<subseteq> free_pages st \<and> free_pages st' = free_pages st - {p..<p + 3}"
proof -
  obtain st where st: "mm_init_global 0x38000000 0x40000000 0x40100000 = Inr st" "mm_inv {} st" "merged {} st"
    "free_pages st = {512..<32768}" by (rule example_start)
  have s: "get_alloc_pages_size (word_of_nat 3) = Some (1, Some 0)" by code_simp
  have r: "2 ^ 2 dvd (1024 :: nat)" "{1024..<1024 + 2 ^ 2} \<subseteq> free_pages st" using st(4) by simp_all
  have tot: "total_pages (1, Some 0) = 3" and pos: "0 < (3 :: nat)" and le: "3 \<le> (4096 :: nat)" by simp_all
  have "\<not> (\<forall>p. 2 ^ 2 dvd p \<longrightarrow> \<not> {p..<p + 2 ^ 2} \<subseteq> free_pages st)" using r by blast
  then have "alloc_pages (word_of_nat 3) st \<noteq> Inl (Panic ''Out of memory'')"
    using alloc_pages_ok [OF st(2,3) _ _ s] by (auto simp: Let_def)
  moreover obtain i j where "get_alloc_pages_size (word_of_nat 3) = Some (i, j)"
      "alloc_pages (word_of_nat 3) st = Inl (Panic ''Out of memory'') \<or> (\<exists>p st'. alloc_pages (word_of_nat 3) st = Inr (p, st') \<and>
         {p..<p + total_pages (i, j)} \<subseteq> free_pages st \<and> free_pages st' = free_pages st - {p..<p + total_pages (i, j)})"
    using alloc_pages_correct [OF st(2,3) pos le] by blast
  ultimately have "\<exists>p st'. alloc_pages (word_of_nat 3) st = Inr (p, st') \<and>
         {p..<p + 3} \<subseteq> free_pages st \<and> free_pages st' = free_pages st - {p..<p + 3}"
    using s tot by (metis option.inject prod.inject)
  then show ?thesis using st(1) by auto
qed

text \<open>
  C4. Freeing undoes allocating: after \<open>alloc_pages\<close> and \<open>mm_page_free\<close> of its result the
  same pages are free, the same blocks are in use, all free buddies are merged again and the
  number of available pages is what it was.
\<close>

theorem alloc_free_roundtrip:
  assumes "mm_inv {} st" "merged {} st" "0 < n" "n \<le> 4096" "alloc_pages (word_of_nat n) st = Inr (p, st1)"
  shows "\<exists>st2. mm_page_free p st1 = Inr st2 \<and> mm_inv {} st2 \<and> merged {} st2 \<and> free_pages st2 = free_pages st \<and>
    used st2 = used st \<and> num_of_available_pages st2 = num_of_available_pages st \<and>
    num_of_available_pages st1 + n \<le> num_of_available_pages st"
proof -
  obtain i j where ij: "get_alloc_pages_size (word_of_nat n) = Some (i, j)" "n \<le> total_pages (i, j)"
    using get_alloc_pages_size_ok [OF assms(3,4)] by (metis prod.collapse)
  let ?R = "{p..<p + total_pages (i, j)}"
  have a: "mm_inv {} st1" "merged {} st1" "?R \<subseteq> free_pages st" "free_pages st1 = free_pages st - ?R"
      "case j of None \<Rightarrow> used st1 = (used st)(p \<mapsto> (PAGE_TYPE_ALLOCATED, i))
        | Some m \<Rightarrow> 2 ^ (i + 1) dvd p \<and>
            used st1 = (used st)(p \<mapsto> (PAGE_TYPE_ALLOCATED_CONT, i), p + 2 ^ i \<mapsto> (PAGE_TYPE_ALLOCATED, m))"
    using alloc_pages_ok [OF assms(1-4) ij(1)] assms(5) by auto
  have "p \<in> ?R" by (cases j) simp_all
  then have up: "used st p = None" using used_not_free [OF assms(1)] a(3) by blast
  have fin: "finite (free_pages st)" by (auto simp: free_pages_def block_def)
  have "card (free_pages st1) + total_pages (i, j) = card (free_pages st)"
    using card_Diff_subset [of ?R "free_pages st"] card_mono [OF fin a(3)] a(3,4) by simp
  then have c: "num_of_available_pages st1 + n \<le> num_of_available_pages st"
    using free_pages_card [OF a(1)] free_pages_card [OF assms(1)] ij(2) by simp
  have "\<exists>st2. mm_page_free p st1 = Inr st2 \<and> mm_inv {} st2 \<and> merged {} st2 \<and> free_pages st2 = free_pages st1 \<union> ?R \<and>
      used st2 = used st"
  proof (cases j)
    case None
    then have u: "used st1 p = Some (PAGE_TYPE_ALLOCATED, i)" "(used st1)(p := None) = used st"
      using a(5) up by (auto simp: fun_eq_iff)
    show ?thesis using mm_page_free_ok [OF a(1) u(1)] a(2) None u(2) by auto
  next
    case (Some m)
    have q: "p + 2 ^ i \<in> ?R" using Some by simp
    then have uq: "used st (p + 2 ^ i) = None" using used_not_free [OF assms(1)] a(3) by blast
    have u: "used st1 p = Some (PAGE_TYPE_ALLOCATED_CONT, i)" "2 ^ (i + 1) dvd p"
        "used st1 (p + 2 ^ i) = Some (PAGE_TYPE_ALLOCATED, m)" "(used st1)(p := None, p + 2 ^ i := None) = used st"
      using a(5) Some up uq by (auto simp: fun_eq_iff)
    show ?thesis using mm_page_free_cont_ok [OF a(1) u(1-3)] a(2) Some u(4) by (auto simp: add.assoc)
  qed
  then obtain st2 where st2: "mm_page_free p st1 = Inr st2" "mm_inv {} st2" "merged {} st2"
      "free_pages st2 = free_pages st" "used st2 = used st"
    using a(3,4) by auto
  then show ?thesis using c free_pages_card [OF st2(2)] free_pages_card [OF assms(1)] by auto
qed

theorem alloc_free_roundtrip_witness:
  "\<exists>st p st1 st2. mm_init_global 0x38000000 0x40000000 0x40100000 = Inr st \<and> alloc_pages 5 st = Inr (p, st1) \<and> mm_page_free p st1 = Inr st2 \<and>
     free_pages st2 = {512..<32768} \<and> num_of_available_pages st2 = num_of_available_pages st"
proof -
  obtain st where st: "mm_init_global 0x38000000 0x40000000 0x40100000 = Inr st" "mm_inv {} st" "merged {} st"
    "free_pages st = {512..<32768}" by (rule example_start)
  have s: "get_alloc_pages_size (word_of_nat 5) = Some (2, Some 0)" by code_simp
  have r: "2 ^ 3 dvd (1024 :: nat)" "{1024..<1024 + 2 ^ 3} \<subseteq> free_pages st" using st(4) by simp_all
  have "\<not> (\<forall>p. 2 ^ 3 dvd p \<longrightarrow> \<not> {p..<p + 2 ^ 3} \<subseteq> free_pages st)" using r by blast
  then obtain p st1 where a: "alloc_pages (word_of_nat 5) st = Inr (p, st1)"
    using alloc_pages_ok [OF st(2,3) _ _ s] by (auto simp: Let_def)
  obtain st2 where "mm_page_free p st1 = Inr st2" "free_pages st2 = {512..<32768}"
      "num_of_available_pages st2 = num_of_available_pages st"
    using alloc_free_roundtrip [OF st(2,3) _ _ a] st(4) by auto
  then show ?thesis using a st(1) by auto
qed

lemma allocsize_lt:
  assumes "blocks_ok st" "p < NUM_OF_PAGES"
  shows "pg_allocsize st p < 13"
proof (cases "head st p")
  case True
  then show ?thesis using blocks_ok_head assms by blast
next
  case False
  obtain h where h: "h < NUM_OF_PAGES" "head st h" "p \<in> block st h" using blocks_ok_not_head [OF assms False] by blast
  note hh = blocks_ok_head [OF assms(1) h(1,2)]
  have "p \<noteq> h" using False h(2) by blast
  then have p: "0 < p - h" "p - h < 2 ^ pg_allocsize st h" using h(3) by (auto simp: block_def)
  then have nd: "\<not> 2 ^ pg_allocsize st h dvd p"
    using hh(2) by (metis dvd_diff_nat nat_dvd_not_less)
  have "2 ^ pg_allocsize st p dvd p" using blocks_ok_not_head [OF assms False] by (simp add: split_size_def)
  then have "pg_allocsize st p < pg_allocsize st h" using nd by (meson dvd_trans le_imp_power_dvd not_le)
  then show ?thesis using hh(1) by simp
qed




text \<open>
  C17. \<open>get_alloc_pages_size\<close> wastes as little as the allocator can: for 1 to 4096 pages it picks
  a block, or two adjacent blocks, of the least total size that holds the request.
\<close>

theorem get_alloc_pages_size_optimal:
  assumes "0 < n" "n \<le> 4096"
  shows "\<exists>r. get_alloc_pages_size (word_of_nat n) = Some r \<and> size_ok r \<and> n \<le> total_pages r \<and>
    (\<forall>r'. size_ok r' \<and> n \<le> total_pages r' \<longrightarrow> total_pages r \<le> total_pages r')"
  by (rule get_alloc_pages_size_ok [OF assms])

theorem get_alloc_pages_size_optimal_witness:
  "get_alloc_pages_size (word_of_nat 11) = Some (3, Some 2) \<and> total_pages (3, Some 2) = 12"
proof -
  have "get_alloc_pages_size (word_of_nat 11) = Some (3, Some 2)" by code_simp
  moreover obtain r where "get_alloc_pages_size (word_of_nat 11) = Some r" "11 \<le> total_pages r"
    using get_alloc_pages_size_optimal [of 11] by auto
  ultimately show ?thesis by auto
qed

end
