(* ===== verification/Mm_alloc.thy ===== *)
theory Mm_alloc
  imports Mm_pageinv CString
begin

text \<open>
  The byte allocator of \<^verbatim>\<open>core/mm.c\<close> on top of the pages: pages cut into 2 to 32 chunks
  of 128 bytes to 2 KiB (\<open>small\<close>), chunks cut into 32 cells of 16 to 64 bytes of which the
  first ones hold the header (\<open>tiny\<close>), and \<open>alloc\<close>, \<open>free\<close> and \<open>realloc\<close>.

  The state extends that of the pages. The fields of \<open>struct page\<close> are functions of the page
  index, those of \<open>struct tiny_allocdata\<close> functions of the address of the header. The lists are
  sequences, as in the theory of the pages. \<open>contents\<close> is the memory that the users of the
  allocator see; headers lie in cells that are never handed out. Each function runs as one step:
  where the source releases a lock in the middle to allocate a page or a chunk, no list holds
  the new memory yet.
\<close>

section \<open>Data\<close>

record heap = mm +
  small_bitmap :: "nat \<Rightarrow> u32"
  small_allocsize :: "nat \<Rightarrow> nat"
  small_freelist :: "nat \<Rightarrow> nat list"
  tiny_bitmap :: "u64 \<Rightarrow> u32"
  tiny_allocsize :: "u64 \<Rightarrow> nat"
  tiny_freelist :: "nat \<Rightarrow> u64 list"
  contents :: mem

definition NUM_OF_SMALL_ALLOCSIZE :: nat where "NUM_OF_SMALL_ALLOCSIZE = 5"
definition SMALL_ALLOCSIZE :: "nat \<Rightarrow> u32" where "SMALL_ALLOCSIZE n = push_bit n 0x80"
definition NUM_OF_TINY_ALLOCSIZE :: nat where "NUM_OF_TINY_ALLOCSIZE = 3"
definition TINY_ALLOCSIZE :: "nat \<Rightarrow> u32" where "TINY_ALLOCSIZE n = push_bit n 0x10"

definition FIND_NEXT_BIT :: "u32 \<Rightarrow> u32" where "FIND_NEXT_BIT bitmap = NOT bitmap AND (bitmap + 1)"

text \<open>One plus the place of the lowest bit set, or zero.\<close>

definition builtin_ffs :: "u32 \<Rightarrow> int" where
  "builtin_ffs w = (case List.find (bit w) [0..<32] of None \<Rightarrow> 0 | Some i \<Rightarrow> int i + 1)"

definition BIT_TO_INDEX :: "u32 \<Rightarrow> int" where "BIT_TO_INDEX b = builtin_ffs b - 1"

text \<open>The size of \<open>struct tiny_allocdata\<close>: two pointers, the bitmap and a byte, aligned.\<close>

definition sizeof_tiny_allocdata :: u32 where "sizeof_tiny_allocdata = 24"

section \<open>Chunks\<close>

definition get_small_allocsize :: "u32 \<Rightarrow> nat option" where
  "get_small_allocsize len = List.find (\<lambda>i. len \<le> SMALL_ALLOCSIZE i) [0..<NUM_OF_SMALL_ALLOCSIZE]"

definition small_nbits :: "nat \<Rightarrow> nat" where
  "small_nbits k = 4096 div unat (SMALL_ALLOCSIZE k)"

definition small_full :: "nat \<Rightarrow> u32" where
  "small_full k = push_bit (small_nbits k - 1) 2 - 1"

definition small_take :: "nat \<Rightarrow> nat \<Rightarrow> 'a heap_scheme \<Rightarrow> u32 \<times> 'a heap_scheme" where
  "small_take k p st =
     (let n = FIND_NEXT_BIT (small_bitmap st p);
          st = st\<lparr>small_bitmap := (small_bitmap st)(p := small_bitmap st p OR n)\<rparr>;
          st = (if small_bitmap st p = small_full k
                then st\<lparr>small_freelist := (small_freelist st)(k := remove1 p (small_freelist st k))\<rparr> else st)
      in (n, st))"

definition small_new :: "nat \<Rightarrow> 'a heap_scheme \<Rightarrow> (nat \<times> 'a heap_scheme) res" where
  "small_new k st =
     res_bind (mm_page_alloc 0 st) (\<lambda>(p, st).
     res_bind (assert_res (pg_type st p = PAGE_TYPE_ALLOCATED)) (\<lambda>_.
       let st = set_type p PAGE_TYPE_ALLOCATED_SMALL st;
           st = st\<lparr>small_allocsize := (small_allocsize st)(p := k), small_bitmap := (small_bitmap st)(p := 1)\<rparr>
       in Inr (p, st\<lparr>small_freelist := (small_freelist st)(k := p # small_freelist st k)\<rparr>)))"

definition small_alloc :: "nat \<Rightarrow> 'a heap_scheme \<Rightarrow> (u64 \<times> 'a heap_scheme) res" where
  "small_alloc k st =
     res_bind (assert_res (k < NUM_OF_SMALL_ALLOCSIZE)) (\<lambda>_.
     res_bind
       (case small_freelist st k of
          p # _ \<Rightarrow> (case small_take k p st of (n, st) \<Rightarrow> Inr (p, n, st))
        | [] \<Rightarrow> res_bind (small_new k st) (\<lambda>(p, st). Inr (p, 1, st)))
       (\<lambda>(p, n, st).
          let i = BIT_TO_INDEX n in
          res_bind (assert_res (i \<ge> 0)) (\<lambda>_.
          res_bind (assert_res (i < int (small_nbits k))) (\<lambda>_.
            Inr (page_to_virt st p + ucast (SMALL_ALLOCSIZE k * word_of_int i), st)))))"

definition small_getlen :: "nat \<Rightarrow> 'a heap_scheme \<Rightarrow> u32 res" where
  "small_getlen p st =
     res_bind (assert_res (pg_type st p = PAGE_TYPE_ALLOCATED_SMALL)) (\<lambda>_.
     res_bind (assert_res (small_allocsize st p < NUM_OF_SMALL_ALLOCSIZE)) (\<lambda>_.
       Inr (SMALL_ALLOCSIZE (small_allocsize st p))))"

definition small_free :: "nat \<Rightarrow> u32 \<Rightarrow> 'a heap_scheme \<Rightarrow> 'a heap_scheme res" where
  "small_free p page_offset st =
     res_bind (assert_res (pg_type st p = PAGE_TYPE_ALLOCATED_SMALL)) (\<lambda>_.
     let k = small_allocsize st p in
     res_bind (assert_res (k < NUM_OF_SMALL_ALLOCSIZE)) (\<lambda>_.
     res_bind (assert_res (page_offset mod SMALL_ALLOCSIZE k = 0)) (\<lambda>_.
     let i = unat (page_offset div SMALL_ALLOCSIZE k) in
     res_bind (assert_res (i < small_nbits k)) (\<lambda>_.
     let n = push_bit i 1;
         st = (if small_bitmap st p = small_full k
               then st\<lparr>small_freelist := (small_freelist st)(k := p # small_freelist st k)\<rparr> else st);
         new_small_bitmap = small_bitmap st p XOR n;
         st = st\<lparr>small_bitmap := (small_bitmap st)(p := new_small_bitmap)\<rparr>;
         st = (if new_small_bitmap = 0
               then st\<lparr>small_freelist := (small_freelist st)(k := remove1 p (small_freelist st k))\<rparr> else st)
     in if new_small_bitmap AND n \<noteq> 0 then Inl (Panic ''small_free: double free'')
        else if new_small_bitmap = 0 then mm_page_free p (set_type p PAGE_TYPE_ALLOCATED st)
        else Inr st))))"

section \<open>Cells\<close>

definition get_tiny_allocsize :: "u32 \<Rightarrow> nat option" where
  "get_tiny_allocsize len = List.find (\<lambda>i. len \<le> TINY_ALLOCSIZE i) [0..<NUM_OF_TINY_ALLOCSIZE]"

definition empty_bitmap :: "nat \<Rightarrow> u32" where
  "empty_bitmap t = (if t \<noteq> 0 then 1 else 3)"

definition tiny_fits :: bool where
  "tiny_fits \<longleftrightarrow> sizeof_tiny_allocdata \<le> 2 * TINY_ALLOCSIZE 0 \<and> sizeof_tiny_allocdata \<le> TINY_ALLOCSIZE 1"

definition tiny_take :: "nat \<Rightarrow> u64 \<Rightarrow> 'a heap_scheme \<Rightarrow> u32 \<times> 'a heap_scheme" where
  "tiny_take t p st =
     (let n = FIND_NEXT_BIT (tiny_bitmap st p);
          st = st\<lparr>tiny_bitmap := (tiny_bitmap st)(p := tiny_bitmap st p OR n)\<rparr>;
          st = (if NOT (tiny_bitmap st p) = 0
                then st\<lparr>tiny_freelist := (tiny_freelist st)(t := remove1 p (tiny_freelist st t))\<rparr> else st)
      in (n, st))"

definition tiny_new :: "nat \<Rightarrow> 'a heap_scheme \<Rightarrow> (u64 \<times> u32 \<times> 'a heap_scheme) res" where
  "tiny_new t st =
     (let plen = TINY_ALLOCSIZE t * 32 in
      res_bind (case get_small_allocsize plen of None \<Rightarrow> Inl Assert_fail | Some k \<Rightarrow> small_alloc k st) (\<lambda>(p, st).
        let n = FIND_NEXT_BIT (empty_bitmap t);
            st = st\<lparr>tiny_allocsize := (tiny_allocsize st)(p := t),
                    tiny_bitmap := (tiny_bitmap st)(p := empty_bitmap t OR n)\<rparr>
        in Inr (p, n, st\<lparr>tiny_freelist := (tiny_freelist st)(t := p # tiny_freelist st t)\<rparr>)))"

definition tiny_alloc :: "nat \<Rightarrow> 'a heap_scheme \<Rightarrow> (u64 \<times> 'a heap_scheme) res" where
  "tiny_alloc t st =
     res_bind (assert_res (t < NUM_OF_TINY_ALLOCSIZE)) (\<lambda>_.
     res_bind (assert_res tiny_fits) (\<lambda>_.
     res_bind
       (case tiny_freelist st t of
          p # _ \<Rightarrow> (case tiny_take t p st of (n, st) \<Rightarrow> Inr (p, n, st))
        | [] \<Rightarrow> tiny_new t st)
       (\<lambda>(p, n, st).
          let i = BIT_TO_INDEX n in
          res_bind (assert_res (i > 0)) (\<lambda>_.
          res_bind (assert_res (i < 32)) (\<lambda>_.
            Inr (p + ucast (TINY_ALLOCSIZE t * word_of_int i), st))))))"

definition tiny_getlen :: "u64 \<Rightarrow> 'a heap_scheme \<Rightarrow> u32 res" where
  "tiny_getlen start_of_block st =
     res_bind (assert_res (tiny_allocsize st start_of_block < NUM_OF_TINY_ALLOCSIZE)) (\<lambda>_.
       Inr (TINY_ALLOCSIZE (tiny_allocsize st start_of_block)))"

definition tiny_free :: "nat \<Rightarrow> u64 \<Rightarrow> u32 \<Rightarrow> 'a heap_scheme \<Rightarrow> 'a heap_scheme res" where
  "tiny_free page start_of_block block_offset st =
     (let p = start_of_block; t = tiny_allocsize st p in
      res_bind (assert_res (t < NUM_OF_TINY_ALLOCSIZE)) (\<lambda>_.
      res_bind (assert_res (block_offset mod TINY_ALLOCSIZE t = 0)) (\<lambda>_.
      let i = unat (block_offset div TINY_ALLOCSIZE t) in
      res_bind (assert_res (i < 32)) (\<lambda>_.
      let n = push_bit i 1 in
      res_bind (assert_res tiny_fits) (\<lambda>_.
      res_bind (assert_res (empty_bitmap t AND n = 0)) (\<lambda>_.
      let st = (if NOT (tiny_bitmap st p) = 0
                then st\<lparr>tiny_freelist := (tiny_freelist st)(t := p # tiny_freelist st t)\<rparr> else st);
          new_tiny_bitmap = tiny_bitmap st p XOR n;
          st = st\<lparr>tiny_bitmap := (tiny_bitmap st)(p := new_tiny_bitmap)\<rparr>;
          st = (if new_tiny_bitmap = empty_bitmap t
                then st\<lparr>tiny_freelist := (tiny_freelist st)(t := remove1 p (tiny_freelist st t))\<rparr> else st)
      in if new_tiny_bitmap AND n \<noteq> 0 then Inl (Panic ''tiny_free: double free'')
         else if new_tiny_bitmap = empty_bitmap t then small_free page (ucast (start_of_block AND mask 12)) st
         else Inr st))))))"

section \<open>The interface\<close>

definition alloc :: "u32 \<Rightarrow> 'a heap_scheme \<Rightarrow> (u64 \<times> 'a heap_scheme) res" where
  "alloc len st =
     (case get_small_allocsize len of
        None \<Rightarrow> res_bind (alloc_pages ((len + 4095) div 4096) st) (\<lambda>(p, st). Inr (page_to_virt st p, st))
      | Some small \<Rightarrow>
          (case if small = 0 then get_tiny_allocsize len else None of
             None \<Rightarrow> small_alloc small st
           | Some tiny \<Rightarrow> tiny_alloc tiny st))"

definition alloc2 :: "u32 \<Rightarrow> 'a heap_scheme \<Rightarrow> (u64 \<times> u64 \<times> 'a heap_scheme) res" where
  "alloc2 len st =
     res_bind (alloc len st) (\<lambda>(v, st).
     res_bind (virt_to_page v) (\<lambda>p. Inr (v, page_to_phys st p + (v AND mask 12), st)))"

definition free :: "u64 \<Rightarrow> 'a heap_scheme \<Rightarrow> 'a heap_scheme res" where
  "free v st =
     res_bind (virt_to_page v) (\<lambda>p.
     if pg_type st p = PAGE_TYPE_ALLOCATED_SMALL then
       let page_offset = ucast (v AND mask 12) :: u32;
           block_offset = page_offset mod SMALL_ALLOCSIZE (small_allocsize st p)
       in if block_offset \<noteq> 0 then tiny_free p (v - ucast block_offset) block_offset st
          else small_free p page_offset st
     else mm_page_free p st)"

definition get_alloc_len :: "u64 \<Rightarrow> 'a heap_scheme \<Rightarrow> u32 res" where
  "get_alloc_len v st =
     res_bind (virt_to_page v) (\<lambda>p.
     if pg_type st p = PAGE_TYPE_ALLOCATED_SMALL then
       let page_offset = ucast (v AND mask 12) :: u32;
           block_offset = page_offset mod SMALL_ALLOCSIZE (small_allocsize st p)
       in if block_offset \<noteq> 0 then tiny_getlen (v - ucast block_offset) st
          else small_getlen p st
     else
       res_bind (mm_page_get_allocsize (pg_allocsize st p)) (\<lambda>s.
       let len = ucast s :: u32 in
       if pg_type st p = PAGE_TYPE_ALLOCATED_CONT then
         res_bind (virt_to_page (v OR ucast len)) (\<lambda>q.
         res_bind (mm_page_get_allocsize (pg_allocsize st q)) (\<lambda>s2. Inr (len + ucast s2)))
       else Inr len))"

definition get_actual_allocate_size :: "u32 \<Rightarrow> u32 res" where
  "get_actual_allocate_size len =
     (case get_small_allocsize len of
        None \<Rightarrow>
          (case get_alloc_pages_size ((len + 4095) div 4096) of
             None \<Rightarrow> Inl Assert_fail
           | Some (i, j) \<Rightarrow>
               res_bind (mm_page_get_allocsize i) (\<lambda>s.
               res_bind (case j of None \<Rightarrow> Inr 0 | Some j \<Rightarrow> mm_page_get_allocsize j) (\<lambda>s2.
                 Inr (ucast s + ucast s2))))
      | Some small \<Rightarrow>
          (case if small = 0 then get_tiny_allocsize len else None of
             None \<Rightarrow> Inr (SMALL_ALLOCSIZE small)
           | Some tiny \<Rightarrow> Inr (TINY_ALLOCSIZE tiny)))"

text \<open>\<open>realloc\<close>: \<open>0\<close> is \<open>NULL\<close>. \<open>alloc\<close> never returns \<open>NULL\<close>: it panics.\<close>

definition realloc_move :: "u64 \<Rightarrow> u32 \<Rightarrow> u32 \<Rightarrow> 'a heap_scheme \<Rightarrow> (u64 \<times> 'a heap_scheme) res" where
  "realloc_move virt len copylen st =
     res_bind (alloc len st) (\<lambda>(p, st).
     let st = st\<lparr>contents := memcpy (contents st) (unat p) (unat virt) (unat copylen)\<rparr> in
     res_bind (free virt st) (\<lambda>st. Inr (p, st)))"

definition realloc :: "u64 \<Rightarrow> u32 \<Rightarrow> 'a heap_scheme \<Rightarrow> (u64 \<times> 'a heap_scheme) res" where
  "realloc virt len st =
     (if virt = 0 \<and> len = 0 then Inr (0, st)
      else if virt = 0 then alloc len st
      else if len = 0 then res_bind (free virt st) (\<lambda>st. Inr (0, st))
      else
        res_bind (get_alloc_len virt st) (\<lambda>oldlen.
        if oldlen = len then Inr (virt, st)
        else if oldlen < len then realloc_move virt len oldlen st
        else
          res_bind (get_actual_allocate_size len) (\<lambda>new_actual_size.
          res_bind (assert_res (oldlen \<ge> new_actual_size)) (\<lambda>_.
          if oldlen = new_actual_size then Inr (virt, st)
          else realloc_move virt len len st))))"

section \<open>Panic memory, ranges and storage\<close>

text \<open>\<open>panicmem_start_page\<close> is a variable that \<open>mm_init_global\<close> sets and \<open>mm_free_panicmem\<close>
  clears; the functions take its value. The length is that of all the pages.\<close>

definition mm_get_panicmem :: "nat \<Rightarrow> 'a mm_scheme \<Rightarrow> (u64 \<times> nat) option" where
  "mm_get_panicmem s st =
     (if s = 0 then None else Some (page_to_virt st s, NUM_OF_PANICMEM_PAGES * 2 ^ 12))"

fun free_each :: "nat list \<Rightarrow> 'a mm_scheme \<Rightarrow> 'a mm_scheme res" where
  "free_each [] st = Inr st"
| "free_each (p # ps) st = res_bind (mm_page_free p st) (free_each ps)"

definition mm_free_panicmem :: "nat \<Rightarrow> 'a mm_scheme \<Rightarrow> (nat \<times> 'a mm_scheme) res" where
  "mm_free_panicmem s st =
     (if s = 0 then Inr (s, st)
      else res_bind (free_each (map (\<lambda>i. s + i) [0..<NUM_OF_PANICMEM_PAGES]) st) (\<lambda>st. Inr (0, st)))"

text \<open>\<open>img_head\<close> is the linker symbol \<open>head\<close>; inside the function \<open>end\<close> is its argument, not the
  linker symbol.\<close>

partial_function (option) free_pages_loop :: "u64 \<Rightarrow> u64 \<Rightarrow> u64 \<Rightarrow> u64 \<Rightarrow> 'a mm_scheme \<Rightarrow> 'a mm_scheme res option" where
  "free_pages_loop img_head end' c e st =
     (if c < e then
        if img_head \<le> c \<and> c < end' then
          (case res_bind (virt_to_page c) (\<lambda>p.
             if pg_type st p = PAGE_TYPE_RESERVED then mm_page_free p st else Inr st) of
             Inl er \<Rightarrow> Some (Inl er)
           | Inr st \<Rightarrow> free_pages_loop img_head end' (c + 0x1000) e st)
        else Some (Inl Assert_fail)
      else Some (Inr st))"

definition free_pages_range :: "u64 \<Rightarrow> u64 \<Rightarrow> u64 \<Rightarrow> 'a mm_scheme \<Rightarrow> 'a mm_scheme res option" where
  "free_pages_range img_head start end' st =
     (let c = (if start AND mask 12 \<noteq> 0 then start + 0x1000 else start) AND NOT (mask 12);
          e = end' AND NOT (mask 12)
      in free_pages_loop img_head end' c e st)"

text \<open>The storage is the field \<open>small_bitmap\<close> of the page returned.\<close>

definition mm_get_page_storage :: "u64 \<Rightarrow> 'a heap_scheme \<Rightarrow> nat res" where
  "mm_get_page_storage virt st =
     res_bind (virt_to_page virt) (\<lambda>p.
     res_bind (assert_res (pg_type st p = PAGE_TYPE_ALLOCATED \<or> pg_type st p = PAGE_TYPE_ALLOCATED_CONT)) (\<lambda>_. Inr p))"

end
