(* ===== verification/Mempool.thy ===== *)
theory Mempool
  imports Mm_alloc
begin

text \<open>
  Memory pools of \<^verbatim>\<open>core/mm.c\<close>: blocks of pages out of which areas are handed out. A block
  keeps the list of its areas in use and the list of its free areas; the pool keeps a number of
  wholly free blocks.

  The structures are records that carry their address, so that releasing them is a call of
  \<open>free\<close>; the lists are sequences. \<open>int\<close> and \<open>uint\<close> fields are 32-bit words, compared as signed
  numbers where the source compares \<open>int\<close>s. The functions run under the lock of the pool.
  The loops that double the number of pages may run forever, so they are partial.
\<close>

section \<open>Data\<close>

record mempool_list =
  ml_addr :: u64
  ml_off :: u32
  ml_len :: u32

record mempool_block_list =
  bl_addr :: u64
  bl_alloc :: "mempool_list list"
  bl_free :: "mempool_list list"
  bl_p :: u64
  bl_len :: u32

record mempool =
  mp_addr :: u64
  mp_block :: "mempool_block_list list"
  mp_numpages :: u32
  mp_numkeeps :: u32
  mp_clear :: bool
  mp_keep :: u32

text \<open>Sizes of the structures on a 64-bit machine.\<close>

definition sizeof_mempool_list :: u32 where "sizeof_mempool_list = 24"
definition sizeof_mempool_block_list :: u32 where "sizeof_mempool_block_list = 64"
definition sizeof_mempool :: u32 where "sizeof_mempool = 40"

text \<open>\<open>LIST1_DEL\<close> of an entry, and writing to the fields of an entry or a block in its list.\<close>

definition del_entry :: "mempool_list \<Rightarrow> mempool_list list \<Rightarrow> mempool_list list" where
  "del_entry q qs = filter (\<lambda>e. ml_addr e \<noteq> ml_addr q) qs"

definition put_entry :: "mempool_list \<Rightarrow> mempool_list list \<Rightarrow> mempool_list list" where
  "put_entry q qs = map (\<lambda>e. if ml_addr e = ml_addr q then q else e) qs"

definition del_block :: "mempool_block_list \<Rightarrow> mempool \<Rightarrow> mempool" where
  "del_block p mp = mp\<lparr>mp_block := filter (\<lambda>b. bl_addr b \<noteq> bl_addr p) (mp_block mp)\<rparr>"

definition put_block :: "mempool_block_list \<Rightarrow> mempool \<Rightarrow> mempool" where
  "put_block p mp = mp\<lparr>mp_block := map (\<lambda>b. if bl_addr b = bl_addr p then p else b) (mp_block mp)\<rparr>"

section \<open>Making and destroying a pool\<close>

partial_function (option) new_numpages :: "u32 \<Rightarrow> u32 \<Rightarrow> u32 option" where
  "new_numpages blocksize numpages =
     (if 0x1000 * numpages <s blocksize then new_numpages blocksize (push_bit 1 numpages) else Some numpages)"

declare new_numpages.simps [code]

text \<open>\<open>mempool_new\<close> does not set the field \<open>keep\<close>: it holds what the memory held before.\<close>

definition mempool_new ::
    "u32 \<Rightarrow> u32 \<Rightarrow> u32 \<Rightarrow> bool \<Rightarrow> 'a heap_scheme \<Rightarrow> (mempool \<times> 'a heap_scheme) res option" where
  "mempool_new stale_keep blocksize numkeeps clear st =
     (case alloc sizeof_mempool st of
        Inl e \<Rightarrow> Some (Inl e)
      | Inr (p, st) \<Rightarrow>
          Option.bind (new_numpages blocksize 1) (\<lambda>numpages.
            Some (Inr (\<lparr>mp_addr = p, mp_block = [], mp_numpages = numpages, mp_numkeeps = numkeeps,
                        mp_clear = clear, mp_keep = stale_keep\<rparr>, st))))"

fun free_entries :: "mempool_list list \<Rightarrow> 'a heap_scheme \<Rightarrow> 'a heap_scheme res" where
  "free_entries [] st = Inr st"
| "free_entries (q # qs) st = res_bind (free (ml_addr q) st) (free_entries qs)"

fun free_blocks :: "mempool_block_list list \<Rightarrow> 'a heap_scheme \<Rightarrow> 'a heap_scheme res" where
  "free_blocks [] st = Inr st"
| "free_blocks (p # ps) st =
     res_bind (free_entries (bl_alloc p) st) (\<lambda>st.
     res_bind (free_entries (bl_free p) st) (\<lambda>st.
     res_bind (free_page (bl_p p) st) (\<lambda>st.
     res_bind (free (bl_addr p) st) (free_blocks ps))))"

definition mempool_free :: "mempool \<Rightarrow> 'a heap_scheme \<Rightarrow> 'a heap_scheme res" where
  "mempool_free mp st = res_bind (free_blocks (mp_block mp) st) (free (mp_addr mp))"

section \<open>Handing out memory\<close>

definition find_free :: "u32 \<Rightarrow> mempool_block_list list \<Rightarrow> (mempool_block_list \<times> mempool_list) option" where
  "find_free len bs =
     List.find (\<lambda>(p, q). ml_len q \<ge> len) (concat (map (\<lambda>p. map (\<lambda>q. (p, q)) (bl_free p)) bs))"

partial_function (option) block_npages :: "u32 \<Rightarrow> u32 \<Rightarrow> u32 option" where
  "block_npages len npages =
     (if 0x1000 * npages < len then block_npages len (push_bit 1 npages) else Some npages)"

declare block_npages.simps [code]

definition new_block :: "u32 \<Rightarrow> mempool \<Rightarrow> 'a heap_scheme \<Rightarrow>
    (mempool_block_list \<times> mempool_list \<times> mempool \<times> 'a heap_scheme) res" where
  "new_block npages mp st =
     res_bind (alloc sizeof_mempool_block_list st) (\<lambda>(a, st).
     let len = 0x1000 * npages in
     res_bind (alloc_pages npages st) (\<lambda>(pg, st).
     let tmp = page_to_virt st pg;
         st = (if mp_clear mp then st\<lparr>contents := memset (contents st) (unat tmp) 0 (unat len)\<rparr> else st)
     in res_bind (alloc sizeof_mempool_list st) (\<lambda>(b, st).
        let q = \<lparr>ml_addr = b, ml_off = 0, ml_len = len\<rparr>;
            p = \<lparr>bl_addr = a, bl_alloc = [], bl_free = [q], bl_p = tmp, bl_len = len\<rparr>
        in Inr (p, q, mp\<lparr>mp_block := mp_block mp @ [p], mp_keep := mp_keep mp + 1\<rparr>, st))))"

definition take_area :: "u32 \<Rightarrow> mempool_block_list \<Rightarrow> mempool_list \<Rightarrow> mempool \<Rightarrow> 'a heap_scheme \<Rightarrow>
    (u64 \<times> mempool \<times> 'a heap_scheme) res" where
  "take_area len p q mp st =
     (let mp = (if ml_len q = bl_len p then mp\<lparr>mp_keep := mp_keep mp - 1\<rparr> else mp) in
      if ml_len q = len then
        let p = p\<lparr>bl_free := del_entry q (bl_free p), bl_alloc := bl_alloc p @ [q]\<rparr>
        in Inr (bl_p p + scast (ml_off q), put_block p mp, st)
      else
        res_bind (alloc sizeof_mempool_list st) (\<lambda>(a, st).
        let qq = \<lparr>ml_addr = a, ml_off = ml_off q, ml_len = len\<rparr>;
            q = q\<lparr>ml_off := ml_off q + len\<rparr>;
            p = p\<lparr>bl_free := put_entry q (bl_free p), bl_alloc := bl_alloc p @ [qq]\<rparr>
        in Inr (bl_p p + scast (ml_off qq), put_block p mp, st)))"

text \<open>The result \<open>0\<close> is \<open>NULL\<close>.\<close>

definition mempool_allocmem ::
    "mempool \<Rightarrow> u32 \<Rightarrow> 'a heap_scheme \<Rightarrow> (u64 \<times> mempool \<times> 'a heap_scheme) res option" where
  "mempool_allocmem mp len st =
     (if len = 0 then Some (Inr (0, mp, st))
      else case find_free len (mp_block mp) of
        Some (p, q) \<Rightarrow> Some (take_area len p q mp st)
      | None \<Rightarrow>
          Option.bind (block_npages len (mp_numpages mp)) (\<lambda>npages.
            Some (res_bind (new_block npages mp st) (\<lambda>(p, q, mp, st). take_area len p q mp st))))"

section \<open>Taking memory back\<close>

definition find_alloc :: "u64 \<Rightarrow> mempool_block_list list \<Rightarrow> (mempool_block_list \<times> mempool_list) option" where
  "find_alloc v bs =
     (case List.find (\<lambda>p. bl_p p \<le> v \<and> v < bl_p p + scast (bl_len p)) bs of
        None \<Rightarrow> None
      | Some p \<Rightarrow> (case List.find (\<lambda>q. bl_p p + scast (ml_off q) = v) (bl_alloc p) of
           None \<Rightarrow> None
         | Some q \<Rightarrow> Some (p, q)))"

definition merge_before :: "mempool_list \<Rightarrow> mempool_list list \<Rightarrow> 'a heap_scheme \<Rightarrow>
    (mempool_list \<times> mempool_list list \<times> 'a heap_scheme) res" where
  "merge_before q fs st =
     (case List.find (\<lambda>qq. ml_off qq + ml_len qq = ml_off q) fs of
        None \<Rightarrow> Inr (q, fs, st)
      | Some qq \<Rightarrow>
          let qq = qq\<lparr>ml_len := ml_len qq + ml_len q\<rparr>
          in res_bind (free (ml_addr q) st) (\<lambda>st. Inr (qq, del_entry q (put_entry qq fs), st)))"

definition merge_after :: "mempool_list \<Rightarrow> mempool_list list \<Rightarrow> 'a heap_scheme \<Rightarrow>
    (mempool_list list \<times> 'a heap_scheme) res" where
  "merge_after q fs st =
     (case List.find (\<lambda>qq. ml_off q + ml_len q = ml_off qq) fs of
        None \<Rightarrow> Inr (fs, st)
      | Some qq \<Rightarrow>
          let q = q\<lparr>ml_len := ml_len q + ml_len qq\<rparr>
          in res_bind (free (ml_addr qq) st) (\<lambda>st. Inr (del_entry qq (put_entry q fs), st)))"

text \<open>The last loop of \<open>mempool_freemem\<close> looks at the first free area only.\<close>

definition drop_block :: "mempool_block_list \<Rightarrow> mempool \<Rightarrow> 'a heap_scheme \<Rightarrow>
    (mempool \<times> 'a heap_scheme) res" where
  "drop_block p mp st =
     (case bl_free p of
        [] \<Rightarrow> Inr (mp, st)
      | q # rest \<Rightarrow>
          if ml_len q \<noteq> bl_len p then Inr (mp, st)
          else if mp_keep mp <s mp_numkeeps mp then Inr (mp\<lparr>mp_keep := mp_keep mp + 1\<rparr>, st)
          else
            let mp = del_block p mp in
            res_bind (assert_res (bl_alloc p = [])) (\<lambda>_.
            res_bind (assert_res (rest = [])) (\<lambda>_.
            res_bind (free (ml_addr q) st) (\<lambda>st.
            res_bind (free_page (bl_p p) st) (\<lambda>st.
            res_bind (free (bl_addr p) st) (\<lambda>st. Inr (mp, st)))))))"

definition mempool_freemem :: "mempool \<Rightarrow> u64 \<Rightarrow> 'a heap_scheme \<Rightarrow> (mempool \<times> 'a heap_scheme) res" where
  "mempool_freemem mp virt st =
     (case find_alloc virt (mp_block mp) of
        None \<Rightarrow> Inl (Panic ''mempool_freemem: double free'')
      | Some (p, q) \<Rightarrow>
          let p = p\<lparr>bl_alloc := del_entry q (bl_alloc p), bl_free := bl_free p @ [q]\<rparr> in
          res_bind (merge_before q (bl_free p) st) (\<lambda>(q, fs, st).
          res_bind (merge_after q fs st) (\<lambda>(fs, st).
          let p = p\<lparr>bl_free := fs\<rparr> in drop_block p (put_block p mp) st)))"

section \<open>The number of pages of a block\<close>

lemma unat_pow32_mod: "unat ((2 :: u32) ^ i) = 2 ^ i mod 2 ^ 32"
proof -
  have "unat ((2 :: u32) ^ i) = unat (word_of_nat (2 ^ i) :: u32)" by simp
  also have "\<dots> = 2 ^ i mod 2 ^ 32" by (simp only: unsigned_of_nat take_bit_eq_mod) simp
  finally show ?thesis .
qed

lemma unat_pow32: "i < 32 \<Longrightarrow> unat ((2 :: u32) ^ i) = 2 ^ i"
  unfolding unat_pow32_mod using power_strict_increasing [of i 32 "2 :: nat"] by (intro mod_less) simp

lemma pow32_zero: "32 \<le> i \<Longrightarrow> unat ((2 :: u32) ^ i) = 0"
  unfolding unat_pow32_mod using dvd_imp_mod_0 [OF le_imp_power_dvd [of 32 i "2 :: nat"]] by simp

lemma block_bytes: "0x1000 * (2 :: u32) ^ i = 2 ^ (i + 12)"
  by (simp add: power_add)

lemma block_npages_ends:
  assumes "unat len \<le> 2 ^ 31" "i \<le> 19"
  shows "\<exists>j. i \<le> j \<and> j \<le> 19 \<and> block_npages len (2 ^ i) = Some (2 ^ j) \<and> unat len \<le> 4096 * 2 ^ j \<and>
    (j = i \<or> 4096 * 2 ^ (j - 1) < unat len)"
  using assms(2)
proof (induction "19 - i" arbitrary: i)
  case 0
  then have "i = 19" by simp
  moreover have "\<not> 0x1000 * (2 :: u32) ^ 19 < len" using assms(1) by (simp add: word_less_nat_alt)
  ultimately show ?case using assms(1) by (intro exI [of _ 19]) (simp add: block_npages.simps)
next
  case (Suc d)
  have u: "unat (0x1000 * (2 :: u32) ^ i) = 4096 * 2 ^ i"
    unfolding block_bytes using Suc.hyps(2) by (subst unat_pow32) (simp_all add: power_add)
  show ?case
  proof (cases "4096 * 2 ^ i < unat len")
    case True
    have "19 - Suc i = d" "Suc i \<le> 19" using Suc.hyps(2) by auto
    from Suc.hyps(1) [OF this(1) [symmetric] this(2)] obtain j where j: "Suc i \<le> j" "j \<le> 19"
        "block_npages len (2 ^ Suc i) = Some (2 ^ j)" "unat len \<le> 4096 * 2 ^ j" "j = Suc i \<or> 4096 * 2 ^ (j - 1) < unat len" by blast
    moreover have "block_npages len (2 ^ i) = block_npages len (2 ^ Suc i)"
      by (subst block_npages.simps) (use True u in \<open>simp add: word_less_nat_alt push_bit_double mult.commute\<close>)
    ultimately show ?thesis using True by (intro exI [of _ j]) auto
  next
    case False
    then show ?thesis using u Suc.prems by (intro exI [of _ i]) (simp add: block_npages.simps word_less_nat_alt)
  qed
qed

lemma block_npages_Some:
  assumes "block_npages len n = Some r"
  shows "\<not> 0x1000 * r < len \<and> (\<exists>k. r = n * 2 ^ k)"
proof (rule block_npages.raw_induct [where P = "\<lambda>len n r. \<not> 0x1000 * r < len \<and> (\<exists>k. r = n * 2 ^ k)", OF _ assms], goal_cases)
  case (1 f len n r)
  show ?case
  proof (cases "0x1000 * n < len")
    case True
    then have "\<not> 0x1000 * r < len \<and> (\<exists>k. r = push_bit 1 n * 2 ^ k)" using 1(2) by (intro 1(1)) simp
    then obtain k where k: "\<not> 0x1000 * r < len" "r = push_bit 1 n * 2 ^ k" by blast
    then have "r = n * 2 ^ Suc k" by (simp add: push_bit_double)
    then show ?thesis using k(1) by blast
  next
    case False
    then show ?thesis using 1(2) by (auto intro: exI [of _ 0])
  qed
qed

text \<open>
  C33. The loop of \<open>mempool_allocmem\<close> that doubles the number of pages ends for requests of at most
  2 GiB, with the least power of two that holds the request; for longer requests the 32-bit
  product wraps to zero and the loop never ends.
\<close>

theorem block_npages_terminates:
  assumes "i \<le> 19"
  shows "if unat len \<le> 2 ^ 31
    then \<exists>j. i \<le> j \<and> j \<le> 19 \<and> block_npages len (2 ^ i) = Some (2 ^ j) \<and> unat len \<le> 4096 * 2 ^ j \<and>
      (j = i \<or> 4096 * 2 ^ (j - 1) < unat len)
    else block_npages len (2 ^ i) = None"
proof (cases "unat len \<le> 2 ^ 31")
  case True
  then show ?thesis using block_npages_ends [OF True assms] by simp
next
  case False
  have "block_npages len (2 ^ i) \<noteq> Some r" for r
  proof
    assume "block_npages len (2 ^ i) = Some r"
    then obtain k where r: "\<not> 0x1000 * r < len" "r = 2 ^ i * 2 ^ k" using block_npages_Some by blast
    then have e: "0x1000 * r = 2 ^ (i + k + 12)" by (simp add: power_add)
    show False
    proof (cases "i + k + 12 < 32")
      case True
      then have "unat (0x1000 * r) = 2 ^ (i + k + 12)" unfolding e by (rule unat_pow32)
      moreover have "(2 :: nat) ^ (i + k + 12) \<le> 2 ^ 31" using True by (intro power_increasing) auto
      ultimately show False using False r(1) by (simp add: word_less_nat_alt)
    next
      case f: False
      then show False using r(1) False pow32_zero [of "i + k + 12"] unfolding e by (simp add: word_less_nat_alt)
    qed
  qed
  then show ?thesis using False by (cases "block_npages len (2 ^ i)") auto
qed

theorem block_npages_terminates_witness:
  "(\<exists>j. block_npages 5000 (2 ^ 0) = Some (2 ^ j) \<and> 5000 \<le> 4096 * (2 :: nat) ^ j) \<and>
   block_npages 0xFFFFFFFF (2 ^ 0) = None"
  using block_npages_terminates [where i = 0 and len = 5000] block_npages_terminates [where i = 0 and len = "0xFFFFFFFF"] by auto

section \<open>Splitting an area\<close>

lemma new_block_result:
  assumes "new_block n mp st = Inr (p, q, mp', st')"
  shows "bl_free p = [q]" "bl_len p = 0x1000 * n" "ml_off q = 0" "ml_len q = 0x1000 * n"
    "mp_block mp' = mp_block mp @ [p]"
  using assms by (auto simp: new_block_def Let_def res_bind_Inr_iff)

lemma take_area_split:
  assumes "take_area len p q mp st = Inr (r, mp', st')" "ml_len q \<noteq> len" "bl_free p = [q]" "mp_block mp = [p]"
  shows "\<exists>p' q'. mp_block mp' = [p'] \<and> bl_p p' = bl_p p \<and> bl_len p' = bl_len p \<and> r = bl_p p + scast (ml_off q) \<and>
    bl_free p' = [q'] \<and> ml_off q' = ml_off q + len \<and> ml_len q' = ml_len q"
proof -
  let ?mp = "if ml_len q = bl_len p then mp\<lparr>mp_keep := mp_keep mp - 1\<rparr> else mp"
  obtain a st1 where "alloc sizeof_mempool_list st = Inr (a, st1)"
    using assms(1,2) by (auto simp: take_area_def Let_def res_bind_Inr_iff)
  then show ?thesis using assms by (auto simp: take_area_def Let_def put_block_def put_entry_def)
qed

lemma first_block:
  assumes "mp_block mp = []" "len \<noteq> 0" "block_npages len (mp_numpages mp) = Some n" "len \<noteq> 0x1000 * n"
    and a: "mempool_allocmem mp len st = Some (Inr (r, mp', st'))"
  shows "\<exists>p q. mp_block mp' = [p] \<and> bl_p p = r \<and> bl_len p = 0x1000 * n \<and> bl_free p = [q] \<and>
    ml_off q = len \<and> ml_len q = 0x1000 * n"
proof -
  have "find_free len (mp_block mp) = None" using assms(1) by (simp add: find_free_def)
  then have "res_bind (new_block n mp st) (\<lambda>(p, q, mp, st). take_area len p q mp st) = Inr (r, mp', st')"
    using a assms(2,3) by (simp add: mempool_allocmem_def)
  then obtain p q mp1 st1 where n: "new_block n mp st = Inr (p, q, mp1, st1)" and t: "take_area len p q mp1 st1 = Inr (r, mp', st')"
    by (auto simp: res_bind_Inr_iff)
  note b = new_block_result [OF n]
  have "ml_len q \<noteq> len" using b(4) assms(4) by simp
  from take_area_split [OF t this b(1)] show ?thesis using b assms(1) by auto
qed

text \<open>
  C34. Splitting an area does not shorten the rest: after a first request of \<open>len\<close> bytes, shorter
  than the block of \<open>0x1000 * n\<close> bytes that is made for it, a request of the size of the
  whole block is served from the same block, \<open>len\<close> bytes behind its start, and so ends \<open>len\<close>
  bytes behind the end of the block.
\<close>

theorem mempool_overruns_block:
  assumes "mp_block mp = []" "len \<noteq> 0" "len \<noteq> 0x1000 * n" "0x1000 * n \<noteq> 0"
    and "block_npages len (mp_numpages mp) = Some n"
    and "mempool_allocmem mp len st = Some (Inr (r, mp', st'))"
    and "mempool_allocmem mp' (0x1000 * n) st' = Some (Inr (r2, mp'', st''))"
  shows "\<exists>p. mp_block mp' = [p] \<and> bl_p p = r \<and> bl_len p = 0x1000 * n \<and> r2 = r + scast len"
proof -
  obtain p q where p: "mp_block mp' = [p]" "bl_p p = r" "bl_len p = 0x1000 * n" "bl_free p = [q]"
      "ml_off q = len" "ml_len q = 0x1000 * n"
    using first_block [OF assms(1,2,5,3,6)] by blast
  then have "find_free (0x1000 * n) (mp_block mp') = Some (p, q)" by (simp add: find_free_def)
  then have "take_area (0x1000 * n) p q mp' st' = Inr (r2, mp'', st'')"
    using assms(4,7) by (simp add: mempool_allocmem_def)
  then have "r2 = bl_p p + scast (ml_off q)" using p(6) by (simp add: take_area_def Let_def)
  then show ?thesis using p by simp
qed

lemma result_ok:
  "(case x of Some (Inr (r, m, s)) \<Rightarrow> P r m s | _ \<Rightarrow> False) \<Longrightarrow> \<exists>r m s. x = Some (Inr (r, m, s)) \<and> P r m s"
  by (auto split: option.splits sum.splits)

text \<open>A heap with one free page and one started chunk of cells for each structure.\<close>

definition example_heap :: heap where
  "example_heap = \<lparr>mm_start_phys = 0x40000000,
     freepage = (\<lambda>n. if n = 0 then [600] else []),
     pg_type = (\<lambda>p. if p = 600 then PAGE_TYPE_FREE else PAGE_TYPE_ALLOCATED_SMALL), pg_allocsize = (\<lambda>_. 0),
     small_bitmap = (\<lambda>_. 1), small_allocsize = (\<lambda>p. if p = 512 then 3 else 4),
     small_freelist = (\<lambda>k. if k = 3 then [512] else if k = 4 then [513] else []),
     tiny_bitmap = (\<lambda>_. 3), tiny_allocsize = (\<lambda>a. if a = 0x40200000 then 1 else 2),
     tiny_freelist = (\<lambda>t. if t = 1 then [0x40200000] else if t = 2 then [0x40201000] else []),
     contents = (\<lambda>_. 0)\<rparr>"

definition example_pool :: mempool where
  "example_pool = \<lparr>mp_addr = 0x40201040, mp_block = [], mp_numpages = 1, mp_numkeeps = 0, mp_clear = False, mp_keep = 0\<rparr>"

theorem mempool_overruns_block_witness:
  "\<exists>r mp' st' r2 mp'' st'' p. mempool_allocmem example_pool 16 example_heap = Some (Inr (r, mp', st')) \<and>
     mempool_allocmem mp' 0x1000 st' = Some (Inr (r2, mp'', st'')) \<and> mp_block mp' = [p] \<and> bl_len p = 0x1000 \<and>
     bl_p p = r \<and> r2 = r + 16"
proof -
  have "case mempool_allocmem example_pool 16 example_heap of
      Some (Inr (r, mp', st')) \<Rightarrow> (case mempool_allocmem mp' 0x1000 st' of Some (Inr (r2, mp'', st'')) \<Rightarrow> True | _ \<Rightarrow> False)
    | _ \<Rightarrow> False" by code_simp
  then obtain r mp' st' r2 mp'' st'' where a: "mempool_allocmem example_pool 16 example_heap = Some (Inr (r, mp', st'))"
      "mempool_allocmem mp' 0x1000 st' = Some (Inr (r2, mp'', st''))"
    by (auto dest!: result_ok)
  have n: "block_npages 16 1 = Some 1" by (simp add: block_npages.simps)
  have e: "mp_block example_pool = []" "mp_numpages example_pool = 1" by (simp_all add: example_pool_def)
  show ?thesis
    using mempool_overruns_block [of example_pool 16 1 example_heap r mp' st' r2 mp'' st''] a n e by auto
qed

end
