(* ===== verification/Mm_allocinv.thy ===== *)
theory Mm_allocinv
  imports Mm_alloc
begin

text \<open>
  The invariant of the byte allocator. A page of chunks is a page of type
  \<open>PAGE_TYPE_ALLOCATED_SMALL\<close> whose bitmap says which chunks are in use; a chunk cut into cells
  has a bitmap of cells in its header. \<open>chunk\<close>, \<open>cells\<close> and the runs of pages are what is
  in use; \<open>live\<close> is the set of all allocations. Every operation is shown to keep the invariant
  and to change this set as it should, and the regions of two allocations never meet.
\<close>

section \<open>The page allocator leaves the rest of the state alone\<close>

lemma update_more [simp]:
  "mm.more (set_type p t st) = mm.more st" "mm.more (set_allocsize p n st) = mm.more st"
  "mm.more (fl_add n p st) = mm.more st" "mm.more (fl_push n p st) = mm.more st" "mm.more (fl_del n p st) = mm.more st"
  by (simp_all add: mm_update_defs)

lemma free_2ndhalf_more: "mm_page_free_2ndhalf p st = Inr (q, st') \<Longrightarrow> mm.more st' = mm.more st"
  by (auto simp: mm_page_free_2ndhalf_def res_bind_Inr_iff Let_def split: if_splits)

lemma split_page_more: "split_page n p st = Inr st' \<Longrightarrow> mm.more st' = mm.more st"
proof (induction n p st arbitrary: st' rule: split_page.induct)
  case (1 n p st)
  show ?case
  proof (cases "pg_allocsize st p > n")
    case True
    then obtain q st1 where s: "mm_page_free_2ndhalf p st = Inr (q, st1)" "split_page n p st1 = Inr st'"
      using 1(2) by (subst (asm) split_page.simps) (auto simp: res_bind_Inr_iff)
    then show ?thesis using 1(1) [OF True s(1) refl s(2)] free_2ndhalf_more by metis
  next
    case False
    then show ?thesis using 1(2) by (subst (asm) split_page.simps) simp
  qed
qed

lemma alloc_sub_more: "mm_page_alloc_sub_from i n st = Inr (p, st') \<Longrightarrow> mm.more st' = mm.more st"
proof (induction i n st rule: mm_page_alloc_sub_from.induct)
  case (1 i n st)
  then show ?case
    by (subst (asm) (2) mm_page_alloc_sub_from.simps)
      (auto simp: res_bind_Inr_iff split: if_splits list.splits dest!: split_page_more)
qed

lemma mm_page_alloc_more:
  assumes "mm_page_alloc n st = Inr (p, st')"
  shows "mm.more st' = mm.more st"
proof -
  obtain st1 where "mm_page_alloc_sub_from n n st = Inr (Some p, st1)" "st' = set_type p PAGE_TYPE_ALLOCATED st1"
    using assms by (auto simp: mm_page_alloc_def mm_page_alloc_sub_def res_bind_Inr_iff Let_def split: option.splits)
  then show ?thesis using alloc_sub_more [of n n st "Some p" st1] by simp
qed

lemma mm_page_alloc_cont_more: "mm_page_alloc_cont n m st = Inr (p, st') \<Longrightarrow> mm.more st' = mm.more st"
  by (auto simp: mm_page_alloc_cont_def mm_page_alloc_sub_def res_bind_Inr_iff Let_def split: option.splits
      dest!: alloc_sub_more split_page_more free_2ndhalf_more)

lemma alloc_pages_more: "alloc_pages n st = Inr (p, st') \<Longrightarrow> mm.more st' = mm.more st"
  by (auto simp: alloc_pages_def split: option.splits dest: mm_page_alloc_more mm_page_alloc_cont_more)

lemma merge_step_more: "merge_step p st = Inr (Some (p', st')) \<Longrightarrow> mm.more st' = mm.more st"
  by (auto simp: merge_step_def res_bind_Inr_iff Let_def split: if_splits)

lemma merge_page_more: "merge_page p st = Inr st' \<Longrightarrow> mm.more st' = mm.more st"
proof (induction p st rule: merge_page.induct)
  case (1 p st)
  obtain r where r: "merge_step p st = Inr r" "(case r of None \<Rightarrow> Inr st | Some (p', st') \<Rightarrow> merge_page p' st') = Inr st'"
    using 1(2) by (subst (asm) merge_page.simps) (auto simp: res_bind_Inr_iff)
  show ?case
  proof (cases r)
    case None
    then show ?thesis using r(2) by simp
  next
    case (Some x)
    obtain p1 st1 where x: "x = (p1, st1)" by (cases x)
    then have "merge_page p1 st1 = Inr st'" using r(2) Some by simp
    then have "mm.more st' = mm.more st1" using 1(1) [OF r(1) Some x [symmetric]] by simp
    then show ?thesis using merge_step_more r(1) Some x by metis
  qed
qed

lemma mm_page_free_rest_more: "mm_page_free_rest p n s virt st = Inr (r, st') \<Longrightarrow> mm.more st' = mm.more st"
  by (auto simp: mm_page_free_rest_def res_bind_Inr_iff Let_def split: page_type.splits if_splits dest!: merge_page_more)

lemma mm_page_free_sub_more: "mm_page_free_sub p st = Inr (r, st') \<Longrightarrow> mm.more st' = mm.more st"
proof (induction p st arbitrary: r st' rule: mm_page_free_sub.induct)
  case (1 p st)
  have p: "p < NUM_OF_PAGES" using 1(2) by (subst (asm) mm_page_free_sub.simps) (auto split: if_splits)
  obtain s where s: "mm_page_get_allocsize (pg_allocsize st p) = Inr s"
    using 1(2) p by (subst (asm) mm_page_free_sub.simps) (auto simp: res_bind_Inr_iff Let_def)
  show ?case
  proof (cases "pg_type st p = PAGE_TYPE_ALLOCATED_CONT \<and> page_to_virt st p AND s = 0")
    case True
    let ?st = "set_type p PAGE_TYPE_ALLOCATED st"
    obtain q f st1 where q: "virt_to_page (page_to_virt st p OR s) = Inr q" "mm_page_free_sub q ?st = Inr (f, st1)"
        "mm_page_free_rest p (pg_allocsize st p) s (page_to_virt st p) st1 = Inr (r, st')"
      using 1(2) p s True by (subst (asm) mm_page_free_sub.simps) (auto simp: res_bind_Inr_iff Let_def)
    have "mm.more st1 = mm.more ?st" using 1(1) [OF _ refl s refl _ _ refl q(1,2)] p True by simp
    then show ?thesis using mm_page_free_rest_more [OF q(3)] by simp
  next
    case False
    then show ?thesis using 1(2) p s
      by (subst (asm) mm_page_free_sub.simps) (auto simp: res_bind_Inr_iff Let_def split: if_splits dest: mm_page_free_rest_more)
  qed
qed

lemma mm_page_free_more: "mm_page_free p st = Inr st' \<Longrightarrow> mm.more st' = mm.more st"
  by (auto simp: mm_page_free_def res_bind_Inr_iff split: option.splits dest: mm_page_free_sub_more)

lemma more_sel:
  "mm.more st' = mm.more st \<Longrightarrow>
     small_bitmap st' = small_bitmap st \<and> small_allocsize st' = small_allocsize st \<and> small_freelist st' = small_freelist st \<and>
     tiny_bitmap st' = tiny_bitmap st \<and> tiny_allocsize st' = tiny_allocsize st \<and> tiny_freelist st' = tiny_freelist st \<and>
     contents st' = contents st"
  by (cases st, cases st') simp

section \<open>Sizes and bitmaps\<close>

lemma small_sizes:
  assumes "k < 5"
  shows "unat (SMALL_ALLOCSIZE k) = 128 * 2 ^ k" "small_nbits k = 2 ^ (5 - k)" "small_full k = mask (small_nbits k)"
proof -
  have "k = 0 \<or> k = 1 \<or> k = 2 \<or> k = 3 \<or> k = 4" using assms by auto
  then show "unat (SMALL_ALLOCSIZE k) = 128 * 2 ^ k" "small_nbits k = 2 ^ (5 - k)" "small_full k = mask (small_nbits k)"
    by (elim disjE; simp; code_simp)+
qed

lemma tiny_sizes:
  assumes "t < 3"
  shows "unat (TINY_ALLOCSIZE t) = 16 * 2 ^ t" "get_small_allocsize (TINY_ALLOCSIZE t * 32) = Some (t + 2)"
proof -
  have "t = 0 \<or> t = 1 \<or> t = 2" using assms by auto
  then show "unat (TINY_ALLOCSIZE t) = 16 * 2 ^ t" "get_small_allocsize (TINY_ALLOCSIZE t * 32) = Some (t + 2)"
    by (elim disjE; simp; code_simp)+
qed

lemma nbits_bound: "k < 5 \<Longrightarrow> 0 < small_nbits k \<and> small_nbits k \<le> 32 \<and> 2 ^ k * small_nbits k = 32"
proof -
  assume k: "k < 5"
  have "2 ^ k * 2 ^ (5 - k) = (2 ^ 5 :: nat)" using k by (simp flip: power_add)
  moreover have "2 ^ (5 - k) \<le> (2 ^ 5 :: nat)" by (rule power_increasing) simp_all
  ultimately show ?thesis using small_sizes(2) [OF k] by simp
qed

lemma full_bit: "k < 5 \<Longrightarrow> bit (small_full k) i \<longleftrightarrow> i < small_nbits k"
  using nbits_bound [of k] by (auto simp: small_sizes(3) bit_mask_iff)

text \<open>\<open>FIND_NEXT_BIT\<close> isolates the lowest zero.\<close>

lemma find_next_bit:
  assumes "\<not> bit b i" "\<And>j. j < i \<Longrightarrow> bit b j" "i < 32"
  shows "FIND_NEXT_BIT b = push_bit i 1"
proof -
  define P where "P = push_bit (Suc i) (drop_bit (Suc i) b)"
  have P: "bit P n \<longleftrightarrow> i < n \<and> bit b n" for n
    unfolding P_def by (auto simp: bit_simps simp del: push_bit_Suc dest: bit_imp_le_length)
  have "b = P OR mask i"
    by (rule bit_eqI) (use assms in \<open>auto simp: P bit_simps less_Suc_eq not_less_iff_gr_or_eq\<close>)
  also have "\<dots> = P + mask i"
    by (rule disjunctive_add_eq_or [symmetric], rule bit_eqI) (auto simp: P bit_simps)
  finally have "b + 1 = P + mask i + 1" by simp
  also have "\<dots> = P + 2 ^ i" by (simp add: mask_eq_exp_minus_1)
  also have "\<dots> = P OR 2 ^ i"
    by (rule disjunctive_add_eq_or, rule bit_eqI) (auto simp: P bit_simps bit_exp_iff)
  finally have e: "b + 1 = P OR push_bit i 1" by (simp add: push_bit_eq_mult)
  show ?thesis unfolding FIND_NEXT_BIT_def e
    by (rule bit_eqI) (use assms in \<open>auto simp: P bit_simps bit_1_iff\<close>)
qed

lemma lowest_zero:
  assumes "b \<noteq> - 1"
  obtains i where "\<not> bit (b :: u32) i" "\<And>j. j < i \<Longrightarrow> bit b j" "i < 32"
proof -
  have "\<exists>i. i < 32 \<and> \<not> bit b i"
  proof (rule ccontr)
    assume "\<not> (\<exists>i. i < 32 \<and> \<not> bit b i)"
    then have "b = - 1" by (intro bit_eqI) auto
    then show False using assms by simp
  qed
  then obtain i where i: "i < 32" "\<not> bit b i" "\<forall>j < i. \<not> (j < 32 \<and> \<not> bit b j)"
    using exists_least_iff [of "\<lambda>i. i < 32 \<and> \<not> bit b i"] by blast
  then show ?thesis using that [of i] by auto
qed

lemma next_index:
  assumes "b \<noteq> - 1"
  obtains i where "FIND_NEXT_BIT b = push_bit i 1" "\<not> bit b i" "i < 32" "\<And>j. \<not> bit b j \<Longrightarrow> j < 32 \<Longrightarrow> i \<le> j"
proof -
  obtain i where i: "\<not> bit b i" "\<And>j. j < i \<Longrightarrow> bit b j" "i < 32" using lowest_zero [OF assms] by metis
  then show ?thesis using that [of i] find_next_bit [of b i] by (meson not_le)
qed

lemma bit_to_index: "i < 32 \<Longrightarrow> BIT_TO_INDEX (push_bit i 1) = int i"
proof -
  assume i: "i < 32"
  have "List.find (bit (push_bit i 1 :: u32)) [0..<32] = Some i"
    unfolding find_Some_iff using i by (intro exI [of _ i]) (auto simp: bit_simps bit_1_iff)
  then show ?thesis by (simp add: BIT_TO_INDEX_def builtin_ffs_def)
qed

lemma bit_push1: "bit (push_bit i 1 :: u32) j \<longleftrightarrow> j = i \<and> i < 32"
  by (auto simp: bit_simps bit_1_iff)

section \<open>Addresses inside pages\<close>

definition at :: "nat \<Rightarrow> nat \<Rightarrow> u64" where
  "at p off = addr p + word_of_nat off"

lemma unat_addr: "p < NUM_OF_PAGES \<Longrightarrow> unat (addr p) = 0x40000000 + 4096 * p"
proof -
  assume p: "p < NUM_OF_PAGES"
  have "addr p = 0x40000000 + 0x1000 * word_of_nat p"
    using page_to_virt_addr [OF p, of "undefined :: mm"] page_to_virt_eq [of "undefined :: mm" p] by simp
  then show ?thesis using p by (simp add: NUM_OF_PAGES_def unat_word_ariths unat_of_nat)
qed

lemma unat_at: "p < NUM_OF_PAGES \<Longrightarrow> off < 4096 \<Longrightarrow> unat (at p off) = 0x40000000 + 4096 * p + off"
  by (simp add: at_def unat_word_ariths unat_of_nat unat_addr NUM_OF_PAGES_def)

lemma virt_to_page_unat:
  assumes "unat v = 0x40000000 + 4096 * p + off" "p < NUM_OF_PAGES" "off < 4096"
  shows "virt_to_page v = Inr p"
proof -
  have "unat (v - VMM_START_VIRT) = 4096 * p + off"
    using assms by (subst unat_sub) (simp_all add: VMM_START_VIRT_def word_le_nat_alt)
  then have d: "unat (drop_bit 12 (v - VMM_START_VIRT)) = p"
    unfolding unat_drop_bit using assms(3) by simp
  then have "unat (ucast (drop_bit 12 (v - VMM_START_VIRT)) :: u32) = p"
    using assms(2) by (subst unat_ucast_exact) (simp_all add: NUM_OF_PAGES_def)
  then show ?thesis using assms(2) by (simp add: virt_to_page_def Let_def word_less_nat_alt NUM_OF_PAGES_def)
qed

lemma virt_to_page_at: "p < NUM_OF_PAGES \<Longrightarrow> off < 4096 \<Longrightarrow> virt_to_page (at p off) = Inr p"
  using virt_to_page_unat [OF unat_at] by blast

lemma at_offset:
  assumes "p < NUM_OF_PAGES" "off < 4096"
  shows "at p off AND mask 12 = word_of_nat off" "unat (ucast (at p off AND mask 12) :: u32) = off"
proof -
  have "unat (at p off AND mask 12) = off" unfolding unat_and_mask unat_at [OF assms]
    using assms(2) mod_mult_self2 [of off 4096 "0x40000 + p"] by (simp add: algebra_simps)
  then show "at p off AND mask 12 = word_of_nat off" "unat (ucast (at p off AND mask 12) :: u32) = off"
    using assms(2) by (auto simp: word_eq_of_nat unat_ucast_exact)
qed

lemma at_0 [simp]: "at p 0 = addr p" by (simp add: at_def)

section \<open>The invariant of the chunks\<close>

definition small_page :: "'a heap_scheme \<Rightarrow> nat \<Rightarrow> bool" where
  "small_page st p \<longleftrightarrow> p < NUM_OF_PAGES \<and> pg_type st p = PAGE_TYPE_ALLOCATED_SMALL"

definition small_inv :: "'a heap_scheme \<Rightarrow> bool" where
  "small_inv st \<longleftrightarrow> mm_inv {} st \<and> merged {} st \<and>
     (\<forall>p. small_page st p \<longrightarrow> pg_allocsize st p = 0 \<and> small_allocsize st p < 5 \<and> small_bitmap st p \<noteq> 0 \<and>
        (\<forall>i. bit (small_bitmap st p) i \<longrightarrow> i < small_nbits (small_allocsize st p))) \<and>
     (\<forall>k < 5. distinct (small_freelist st k) \<and>
        set (small_freelist st k) = {p. small_page st p \<and> small_allocsize st p = k \<and> small_bitmap st p \<noteq> small_full k})"

text \<open>The chunks in use with their size, and the blocks in use for other purposes.\<close>

definition chunk :: "'a heap_scheme \<Rightarrow> nat \<times> nat \<rightharpoonup> nat" where
  "chunk st = (\<lambda>(p, i). if small_page st p \<and> bit (small_bitmap st p) i then Some (small_allocsize st p) else None)"

definition pages :: "'a heap_scheme \<Rightarrow> nat \<rightharpoonup> page_type \<times> nat" where
  "pages st p = (if small_page st p then None else used st p)"

lemma page_preds_upd [simp]:
  "mm_inv X (small_bitmap_update b st) = mm_inv X st" "mm_inv X (small_allocsize_update a st) = mm_inv X st"
  "mm_inv X (small_freelist_update f st) = mm_inv X st" "merged X (small_bitmap_update b st) = merged X st"
  "merged X (small_allocsize_update a st) = merged X st" "merged X (small_freelist_update f st) = merged X st"
  "used (small_bitmap_update b st) = used st" "used (small_allocsize_update a st) = used st"
  "used (small_freelist_update f st) = used st" "free_pages (small_bitmap_update b st) = free_pages st"
  "free_pages (small_allocsize_update a st) = free_pages st" "free_pages (small_freelist_update f st) = free_pages st"
  "small_page (small_bitmap_update b st) = small_page st" "small_page (small_allocsize_update a st) = small_page st"
  "small_page (small_freelist_update f st) = small_page st"
  by (simp_all add: mm_inv_def blocks_ok_def lists_ok_def block_def merged_def used_def free_pages_def small_page_def fun_eq_iff)

lemma small_inv_page:
  assumes "small_inv st" "small_page st p"
  shows "pg_allocsize st p = 0" "small_allocsize st p < 5" "small_bitmap st p \<noteq> 0"
    "\<And>i. bit (small_bitmap st p) i \<Longrightarrow> i < small_nbits (small_allocsize st p)" "p < NUM_OF_PAGES"
  using assms unfolding small_inv_def by (blast, blast, blast, blast, simp add: small_page_def)

lemma small_inv_list:
  assumes "small_inv st" "k < 5"
  shows "distinct (small_freelist st k)"
    "\<And>p. p \<in> set (small_freelist st k) \<longleftrightarrow> small_page st p \<and> small_allocsize st p = k \<and> small_bitmap st p \<noteq> small_full k"
  using assms unfolding small_inv_def by blast+

lemma chunk_addr:
  assumes "k < 5" "i < small_nbits k"
  shows "128 * 2 ^ k * i < 4096" "ucast (SMALL_ALLOCSIZE k * word_of_int (int i) :: u32) = (word_of_nat (128 * 2 ^ k * i) :: u64)"
proof -
  have "2 ^ k * i < 2 ^ k * small_nbits k" using assms(2) by simp
  then have b: "2 ^ k * i < 32" using nbits_bound [OF assms(1)] by simp
  then show l: "128 * 2 ^ k * i < 4096" by (simp add: mult.commute)
  have i: "i < 32" using assms nbits_bound [of k] by auto
  have "unat (SMALL_ALLOCSIZE k * word_of_int (int i)) = 128 * 2 ^ k * i"
    using l i by (simp add: unat_word_ariths small_sizes [OF assms(1)] unat_of_nat)
  then show "ucast (SMALL_ALLOCSIZE k * word_of_int (int i) :: u32) = (word_of_nat (128 * 2 ^ k * i) :: u64)"
    using word_eq_of_nat [of "ucast (SMALL_ALLOCSIZE k * word_of_int (int i) :: u32) :: u64"] by simp
qed

definition same_rest :: "'a heap_scheme \<Rightarrow> 'a heap_scheme \<Rightarrow> bool" where
  "same_rest st st' \<longleftrightarrow> tiny_bitmap st' = tiny_bitmap st \<and> tiny_allocsize st' = tiny_allocsize st \<and>
     tiny_freelist st' = tiny_freelist st \<and> contents st' = contents st"

lemma same_rest_refl [simp]: "same_rest st st" by (simp add: same_rest_def)

lemma small_take_ok:
  assumes inv: "small_inv st" and k: "k < 5" and p: "p \<in> set (small_freelist st k)"
  shows "\<exists>i st'. small_take k p st = (push_bit i 1, st') \<and> small_inv st' \<and> i < small_nbits k \<and> small_page st p \<and>
    chunk st (p, i) = None \<and> chunk st' = (chunk st)((p, i) \<mapsto> k) \<and> pages st' = pages st \<and> same_rest st st' \<and>
    free_pages st' = free_pages st"
proof -
  let ?b = "small_bitmap st p"
  have pp: "small_page st p" "small_allocsize st p = k" "?b \<noteq> small_full k" using small_inv_list(2) [OF inv k] p by auto
  note pb = small_inv_page [OF inv pp(1)]
  obtain j where j: "j < small_nbits k" "\<not> bit ?b j"
  proof (rule ccontr)
    assume "\<not> thesis"
    then have "bit ?b j \<longleftrightarrow> j < small_nbits k" for j using that pb(4) pp(2) by auto
    then have "?b = small_full k" by (intro bit_eqI) (simp add: full_bit [OF k])
    then show False using pp(3) by simp
  qed
  have j32: "j < 32" using j(1) nbits_bound [OF k] by simp
  then have "?b \<noteq> - 1" using j(2) by auto
  then obtain i where i: "FIND_NEXT_BIT ?b = push_bit i 1" "\<not> bit ?b i" "i < 32" "i \<le> j"
    using next_index [of ?b] j(2) j32 by metis
  define b' where "b' = ?b OR push_bit i 1"
  have b': "bit b' n \<longleftrightarrow> bit ?b n \<or> n = i" for n using i(3) by (auto simp: b'_def bit_simps bit_push1)
  define st' where "st' = st\<lparr>small_bitmap := (small_bitmap st)(p := b'), small_freelist :=
      (if b' = small_full k then (small_freelist st)(k := remove1 p (small_freelist st k)) else small_freelist st)\<rparr>"
  have t: "small_take k p st = (push_bit i 1, st')"
    by (simp add: small_take_def Let_def i(1) st'_def b'_def)
  have s: "small_page st' = small_page st" "small_allocsize st' = small_allocsize st" "small_bitmap st' = (small_bitmap st)(p := b')"
      "pg_allocsize st' = pg_allocsize st" "mm_inv {} st'" "merged {} st'"
    using inv by (auto simp: st'_def small_inv_def)
  have "b' \<noteq> 0" using b' [of i] by auto
  moreover have "n < small_nbits k" if "bit b' n" for n using that b' pb(4) pp(2) i(4) j(1) by auto
  moreover have "distinct (small_freelist st' l) \<and> set (small_freelist st' l) =
      {q. small_page st' q \<and> small_allocsize st' q = l \<and> small_bitmap st' q \<noteq> small_full l}" if "l < 5" for l
    using small_inv_list [OF inv that] small_inv_list [OF inv k] pp unfolding s
    by (auto simp: st'_def split: if_splits)
  ultimately have "small_inv st'"
    unfolding small_inv_def using s(5,6) small_inv_page [OF inv] pp(2) unfolding s by auto
  moreover have "chunk st' = (chunk st)((p, i) \<mapsto> k)"
    using pp by (auto simp: chunk_def s b' fun_eq_iff split: if_splits)
  moreover have "chunk st (p, i) = None" using i(2) by (simp add: chunk_def)
  moreover have "pages st' = pages st" "same_rest st st'" "free_pages st' = free_pages st"
    by (auto simp: pages_def s fun_eq_iff st'_def same_rest_def)
  ultimately show ?thesis using t i(4) j(1) pp(1) by (intro exI [of _ i] exI [of _ st']) simp
qed

lemma set_type_kind:
  assumes inv: "mm_inv {} st" "merged {} st" and p: "used st p = Some (t, n)" and t': "t' \<notin> {PAGE_TYPE_FREE, PAGE_TYPE_NOT_HEAD}"
  shows "mm_inv {} (set_type p t' st)" "merged {} (set_type p t' st)"
    "free_pages (set_type p t' st) = free_pages st" "used (set_type p t' st) = (used st)(p \<mapsto> (t', n))"
proof -
  let ?st = "set_type p t' st"
  have pp: "p < NUM_OF_PAGES" "pg_type st p \<notin> {PAGE_TYPE_FREE, PAGE_TYPE_NOT_HEAD}" "pg_allocsize st p = n"
    using p by (auto simp: used_Some)
  have B: "block ?st h = block st h" and H: "head ?st h = head st h" for h
    using pp t' by (simp_all add: block_def set_type_def)
  have "blocks_ok st" "lists_ok {} st" using inv by (auto simp: mm_inv_def)
  moreover have "blocks_ok st \<longrightarrow> blocks_ok ?st" unfolding blocks_ok_def B H by (simp add: set_type_def)
  moreover have F: "pg_type ?st h = PAGE_TYPE_FREE \<longleftrightarrow> pg_type st h = PAGE_TYPE_FREE" for h
    using pp t' by (auto simp: set_type_def)
  moreover have "lists_ok {} st \<longrightarrow> lists_ok {} ?st" unfolding lists_ok_def F by (simp add: set_type_def)
  ultimately show "mm_inv {} ?st" by (simp add: mm_inv_def)
  show "merged {} ?st" using inv(2) unfolding merged_def F by (simp add: set_type_def)
  show "free_pages ?st = free_pages st" unfolding free_pages_def B F ..
  show "used ?st = (used st)(p \<mapsto> (t', n))" using pp t' by (auto simp: used_def set_type_def)
qed

lemma small_page_used: "small_page st p \<longleftrightarrow> (\<exists>n. used st p = Some (PAGE_TYPE_ALLOCATED_SMALL, n))"
  by (auto simp: small_page_def used_def)

lemma small_page_size: "used st p = Some (PAGE_TYPE_ALLOCATED_SMALL, n) \<Longrightarrow> small_page st p \<and> pg_allocsize st p = n"
  by (auto simp: small_page_def used_def split: if_splits)

text \<open>What the small pages are depends on the blocks in use only.\<close>

lemma small_inv_cong:
  assumes inv: "small_inv st" and st': "mm_inv {} st'" "merged {} st'" "used st' = used st"
    and s: "small_bitmap st' = small_bitmap st" "small_allocsize st' = small_allocsize st" "small_freelist st' = small_freelist st"
  shows "small_inv st'"
proof -
  have p: "small_page st' = small_page st" by (auto simp: small_page_used st'(3) fun_eq_iff)
  have "pg_allocsize st' q = pg_allocsize st q" if "small_page st q" for q
    using that fun_cong [OF st'(3), of q] by (auto simp: small_page_def used_def split: if_splits)
  then show ?thesis using inv st'(1,2) unfolding small_inv_def p s by simp
qed

lemma small_new_ok:
  assumes inv: "small_inv st" and k: "k < 5"
  shows "small_new k st = Inl (Panic ''Out of memory'') \<and> free_pages st = {} \<or>
    (\<exists>p st'. small_new k st = Inr (p, st') \<and> small_inv st' \<and> p < NUM_OF_PAGES \<and> \<not> small_page st p \<and> used st p = None \<and>
      chunk st' = (chunk st)((p, 0) \<mapsto> k) \<and> pages st' = pages st \<and> same_rest st st' \<and> free_pages st' \<subseteq> free_pages st)"
proof -
  have mi: "mm_inv {} st" "merged {} st" using inv by (auto simp: small_inv_def)
  have none: "free_pages st = {}" if "\<forall>h < NUM_OF_PAGES. pg_type st h = PAGE_TYPE_FREE \<longrightarrow> pg_allocsize st h < 0"
    using that by (auto simp: free_pages_def)
  consider (oom) "mm_page_alloc 0 st = Inl (Panic ''Out of memory'')" "free_pages st = {}"
    | (ok) p st1 where "mm_page_alloc 0 st = Inr (p, st1)" "mm_inv {} st1" "p < NUM_OF_PAGES" "p \<in> free_pages st"
        "free_pages st1 \<subseteq> free_pages st" "used st1 = (used st)(p \<mapsto> (PAGE_TYPE_ALLOCATED, 0))" "merged {} st1"
    using mm_page_alloc_ok [OF mi(1), of 0] mi(2) none by simp blast
  then show ?thesis
  proof cases
    case oom
    then show ?thesis by (simp add: small_new_def)
  next
    case ok
    have up: "used st p = None" using used_not_free [OF mi(1) ok(4)] .
    have m: "small_bitmap st1 = small_bitmap st" "small_allocsize st1 = small_allocsize st" "small_freelist st1 = small_freelist st"
        "same_rest st st1" using more_sel [OF mm_page_alloc_more [OF ok(1)]] by (auto simp: same_rest_def)
    have u1: "used st1 p = Some (PAGE_TYPE_ALLOCATED, 0)" using ok(6) by simp
    note st2 = set_type_kind [OF ok(2) ok(7) u1, of PAGE_TYPE_ALLOCATED_SMALL]
    let ?st2 = "set_type p PAGE_TYPE_ALLOCATED_SMALL st1"
    have m2: "small_bitmap ?st2 = small_bitmap st" "small_allocsize ?st2 = small_allocsize st" "small_freelist ?st2 = small_freelist st"
        "same_rest st ?st2" using m by (auto simp: set_type_def same_rest_def)
    define st' where "st' = ?st2\<lparr>small_allocsize := (small_allocsize st)(p := k), small_bitmap := (small_bitmap st)(p := 1),
        small_freelist := (small_freelist st)(k := p # small_freelist st k)\<rparr>"
    have f: "small_bitmap st' = (small_bitmap st)(p := 1)" "small_allocsize st' = (small_allocsize st)(p := k)"
      by (simp_all add: st'_def)
    have r: "small_new k st = Inr (p, st')" using ok(1) u1 by (simp add: small_new_def Let_def m2 st'_def used_Some)
    have u': "used st' = (used st)(p \<mapsto> (PAGE_TYPE_ALLOCATED_SMALL, 0))" using st2(4) ok(6) by (simp add: st'_def)
    have ns: "\<not> small_page st p" using up by (simp add: small_page_used)
    have sp: "small_page st' q \<longleftrightarrow> q = p \<or> small_page st q" for q using u' by (simp add: small_page_used)
    have asz: "pg_allocsize st' q = 0" if "small_page st' q" for q
      using that small_inv_page(1) [OF inv, of q] u' small_page_size [of st' q] small_page_size [of st q]
      by (auto simp: small_page_used split: if_splits)
    have n1: "1 < small_nbits k" unfolding small_sizes(2) [OF k] using k by (intro one_less_power) simp_all
    have full: "(1 :: u32) \<noteq> small_full k" using n1 full_bit [OF k, of 1] by (auto simp: bit_1_iff)
    have "distinct (small_freelist st' l) \<and> set (small_freelist st' l) =
        {q. small_page st' q \<and> small_allocsize st' q = l \<and> small_bitmap st' q \<noteq> small_full l}" if "l < 5" for l
      unfolding sp using small_inv_list [OF inv that] ns full by (auto simp: st'_def)
    moreover have "mm_inv {} st'" "merged {} st'" using st2(1,2) by (simp_all add: st'_def)
    moreover have "small_allocsize st' q < 5 \<and> small_bitmap st' q \<noteq> 0 \<and>
        (\<forall>i. bit (small_bitmap st' q) i \<longrightarrow> i < small_nbits (small_allocsize st' q))" if "small_page st' q" for q
      using that small_inv_page [OF inv, of q] k n1 unfolding sp by (auto simp: st'_def bit_1_iff)
    ultimately have "small_inv st'" unfolding small_inv_def using asz by blast
    moreover have "chunk st' = (chunk st)((p, 0) \<mapsto> k)"
      using ns f by (auto simp: chunk_def sp fun_eq_iff bit_1_iff)
    moreover have "pages st' = pages st" using up ns by (auto simp: pages_def sp u' fun_eq_iff)
    moreover have "same_rest st st'" "free_pages st' \<subseteq> free_pages st" using m2(4) st2(3) ok(5) by (auto simp: st'_def same_rest_def)
    ultimately show ?thesis using r ok(3) ns up by blast
  qed
qed

lemma chunk_Some: "chunk st (p, i) = Some k \<longleftrightarrow> small_page st p \<and> bit (small_bitmap st p) i \<and> small_allocsize st p = k"
  by (auto simp: chunk_def)

lemma chunk_not_free: "small_inv st \<Longrightarrow> chunk st (p, i) = Some k \<Longrightarrow> p \<notin> free_pages st"
  using used_not_free [of st p] by (auto simp: chunk_Some small_inv_def small_page_used)

lemma small_alloc_ok:
  assumes inv: "small_inv st" and k: "k < 5"
  shows "small_alloc k st = Inl (Panic ''Out of memory'') \<and> free_pages st = {} \<or>
    (\<exists>p i st'. small_alloc k st = Inr (at p (128 * 2 ^ k * i), st') \<and> small_inv st' \<and> p < NUM_OF_PAGES \<and> i < small_nbits k \<and>
      chunk st (p, i) = None \<and> pages st p = None \<and> p \<notin> free_pages st' \<and> chunk st' = (chunk st)((p, i) \<mapsto> k) \<and> pages st' = pages st \<and> same_rest st st' \<and>
      free_pages st' \<subseteq> free_pages st)"
proof (cases "small_freelist st k")
  case (Cons p ps)
  obtain i st' where t: "small_take k p st = (push_bit i 1, st')" "small_inv st'" "i < small_nbits k" "small_page st p"
      "chunk st (p, i) = None" "chunk st' = (chunk st)((p, i) \<mapsto> k)" "pages st' = pages st" "same_rest st st'"
      "free_pages st' = free_pages st"
    using small_take_ok [OF inv k, of p] Cons by auto
  have pN: "p < NUM_OF_PAGES" using t(4) by (simp add: small_page_def)
  have i: "i < 32" using t(3) nbits_bound [OF k] by simp
  have "small_alloc k st = Inr (at p (128 * 2 ^ k * i), st')"
    using Cons k t(1,3) bit_to_index [OF i] chunk_addr(2) [OF k t(3)] page_to_virt_addr [OF pN]
    by (simp add: small_alloc_def NUM_OF_SMALL_ALLOCSIZE_def at_def)
  moreover have "pages st p = None" using t(4) by (simp add: pages_def)
  moreover have "p \<notin> free_pages st'" using chunk_not_free [OF t(2), of p i k] t(6) by simp
  ultimately show ?thesis using t pN by blast
next
  case Nil
  have i0: "BIT_TO_INDEX 1 = 0" using bit_to_index [of 0] by simp
  have nb: "0 < small_nbits k" using nbits_bound [OF k] by simp
  show ?thesis
    using small_new_ok [OF inv k]
  proof
    assume "small_new k st = Inl (Panic ''Out of memory'') \<and> free_pages st = {}"
    then show ?thesis using Nil k by (simp add: small_alloc_def NUM_OF_SMALL_ALLOCSIZE_def)
  next
    assume "\<exists>p st'. small_new k st = Inr (p, st') \<and> small_inv st' \<and> p < NUM_OF_PAGES \<and> \<not> small_page st p \<and> used st p = None \<and>
      chunk st' = (chunk st)((p, 0) \<mapsto> k) \<and> pages st' = pages st \<and> same_rest st st' \<and> free_pages st' \<subseteq> free_pages st"
    then obtain p st' where n: "small_new k st = Inr (p, st')" "small_inv st'" "p < NUM_OF_PAGES" "\<not> small_page st p" "used st p = None"
        "chunk st' = (chunk st)((p, 0) \<mapsto> k)" "pages st' = pages st" "same_rest st st'" "free_pages st' \<subseteq> free_pages st" by blast
    have "small_alloc k st = Inr (at p (128 * 2 ^ k * 0), st')"
      using Nil k n(1) i0 nb page_to_virt_addr [OF n(3)] by (simp add: small_alloc_def NUM_OF_SMALL_ALLOCSIZE_def)
    moreover have "chunk st (p, 0) = None" "pages st p = None" using n(4,5) by (auto simp: chunk_def pages_def)
    moreover have "p \<notin> free_pages st'" using chunk_not_free [OF n(2), of p 0 k] n(6) by simp
    ultimately show ?thesis using n nb by blast
  qed
qed

lemma chunk_offset:
  assumes "k < 5" "i < small_nbits k" "unat off = 128 * 2 ^ k * i"
  shows "off mod SMALL_ALLOCSIZE k = 0" "unat (off div SMALL_ALLOCSIZE k) = i"
proof -
  have "unat (off mod SMALL_ALLOCSIZE k) = 0" "unat (off div SMALL_ALLOCSIZE k) = i"
    using assms by (simp_all add: unat_mod_distrib unat_div_distrib small_sizes)
  then show "off mod SMALL_ALLOCSIZE k = 0" "unat (off div SMALL_ALLOCSIZE k) = i" by (simp_all add: unsigned_eq_0_iff)
qed

lemma and_push1: "i < 32 \<Longrightarrow> (w AND push_bit i 1 = (0 :: u32)) \<longleftrightarrow> \<not> bit w i"
proof -
  assume i: "i < 32"
  have "(w AND push_bit i 1 = 0) \<longleftrightarrow> (\<forall>n. \<not> bit (w AND push_bit i 1) n)"
    by (auto intro: bit_eqI)
  then show ?thesis using i unfolding bit_and_iff bit_push1 by auto
qed

text \<open>The state of \<open>small_free\<close> before the page is given back.\<close>

definition small_clear :: "nat \<Rightarrow> nat \<Rightarrow> nat \<Rightarrow> u32 \<Rightarrow> 'a heap_scheme \<Rightarrow> 'a heap_scheme" where
  "small_clear p k i b' st =
     (let l = (if small_bitmap st p = small_full k then p # small_freelist st k else small_freelist st k)
      in st\<lparr>small_bitmap := (small_bitmap st)(p := b'),
            small_freelist := (small_freelist st)(k := if b' = 0 then remove1 p l else l)\<rparr>)"

lemma small_clear_sel [simp]:
  "small_bitmap (small_clear p k i b' st) = (small_bitmap st)(p := b')"
  "small_allocsize (small_clear p k i b' st) = small_allocsize st"
  "pg_type (small_clear p k i b' st) = pg_type st" "pg_allocsize (small_clear p k i b' st) = pg_allocsize st"
  "mm_inv X (small_clear p k i b' st) = mm_inv X st" "merged X (small_clear p k i b' st) = merged X st"
  "used (small_clear p k i b' st) = used st" "free_pages (small_clear p k i b' st) = free_pages st"
  "small_page (small_clear p k i b' st) = small_page st" "same_rest st (small_clear p k i b' st)"
  by (simp_all add: small_clear_def Let_def same_rest_def)

lemma small_free_run:
  assumes sp: "small_page st p" "small_allocsize st p = k" and k: "k < 5" and i: "i < small_nbits k"
    and off: "unat off = 128 * 2 ^ k * i"
  shows "small_free p off st =
    (let b' = small_bitmap st p XOR push_bit i 1; st' = small_clear p k i b' st in
     if bit b' i then Inl (Panic ''small_free: double free'')
     else if b' = 0 then mm_page_free p (set_type p PAGE_TYPE_ALLOCATED st') else Inr st')"
proof -
  have i32: "i < 32" using i nbits_bound [OF k] by simp
  show ?thesis
    using sp k i chunk_offset [OF k i off]
    unfolding small_free_def small_page_def
    by (simp add: Let_def and_push1 [OF i32] small_clear_def NUM_OF_SMALL_ALLOCSIZE_def del: push_bit_of_1)
qed

lemma small_free_double:
  assumes "small_inv st" "small_page st p" "small_allocsize st p = k" "i < small_nbits k" "chunk st (p, i) = None"
    "unat off = 128 * 2 ^ k * i"
  shows "small_free p off st = Inl (Panic ''small_free: double free'')"
proof -
  have k: "k < 5" using small_inv_page(2) assms(1-3) by blast
  have "\<not> bit (small_bitmap st p) i" using assms(2,5) by (auto simp: chunk_def split: if_splits)
  then have "bit (small_bitmap st p XOR push_bit i 1) i"
    using assms(4) nbits_bound [OF k] by (simp add: bit_simps bit_push1)
  then show ?thesis using small_free_run [OF assms(2,3) k assms(4,6)] by (simp add: Let_def)
qed

lemma small_clear_list:
  assumes inv: "small_inv st" and sp: "small_page st p" "small_allocsize st p = k" and l: "l < 5"
    and b': "\<not> bit b' i" "i < small_nbits k"
  shows "distinct (small_freelist (small_clear p k i b' st) l) \<and>
    set (small_freelist (small_clear p k i b' st) l) =
      {q. (if q = p then b' \<noteq> 0 \<and> l = k else small_page st q \<and> small_allocsize st q = l \<and> small_bitmap st q \<noteq> small_full l)}"
proof -
  have k: "k < 5" using small_inv_page(2) [OF inv sp(1)] sp(2) by simp
  show ?thesis
  proof (cases "l = k")
    case True
    then show ?thesis
      using small_inv_list [OF inv k] sp by (auto simp: small_clear_def Let_def set_remove1_eq)
  next
    case False
    then show ?thesis
      using small_inv_list [OF inv l] sp by (auto simp: small_clear_def Let_def)
  qed
qed

lemma small_free_ok:
  assumes inv: "small_inv st" and c: "chunk st (p, i) = Some k" and off: "unat off = 128 * 2 ^ k * i"
  shows "\<exists>st'. small_free p off st = Inr st' \<and> small_inv st' \<and> chunk st' = (chunk st)((p, i) := None) \<and>
    pages st' = pages st \<and> same_rest st st' \<and> free_pages st \<subseteq> free_pages st'"
proof -
  have sp: "small_page st p" "small_allocsize st p = k" "bit (small_bitmap st p) i" using c by (auto simp: chunk_Some)
  note pp = small_inv_page [OF inv sp(1)]
  have k: "k < 5" and i: "i < small_nbits k" using pp(2) pp(4) [OF sp(3)] sp(2) by auto
  define b' where "b' = small_bitmap st p XOR push_bit i 1"
  have i32: "i < 32" using i nbits_bound [OF k] by simp
  then have b': "bit b' n \<longleftrightarrow> bit (small_bitmap st p) n \<and> n \<noteq> i" for n
    using sp(3) by (auto simp: b'_def bit_simps bit_push1)
  define st1 where "st1 = small_clear p k i b' st"
  have run: "small_free p off st = (if b' = 0 then mm_page_free p (set_type p PAGE_TYPE_ALLOCATED st1) else Inr st1)"
    using small_free_run [OF sp(1,2) k i off] b' [of i] unfolding Let_def b'_def [symmetric] st1_def by simp
  have full: "b' \<noteq> small_full k" using b' [of i] full_bit [OF k, of i] i by auto
  have lists: "distinct (small_freelist st1 l) \<and> set (small_freelist st1 l) =
      {q. (if q = p then b' \<noteq> 0 \<and> l = k else small_page st q \<and> small_allocsize st q = l \<and> small_bitmap st q \<noteq> small_full l)}"
    if "l < 5" for l
    unfolding st1_def using small_clear_list [OF inv sp(1,2) that, of b' i] b' [of i] i by simp
  show ?thesis
  proof (cases "b' = 0")
    case False
    have "small_inv st1"
      unfolding small_inv_def using lists False full sp small_inv_page [OF inv] inv b'
      by (auto simp: st1_def small_inv_def)
    moreover have "chunk st1 = (chunk st)((p, i) := None)" using sp b' by (auto simp: chunk_def st1_def fun_eq_iff)
    moreover have "pages st1 = pages st" by (simp add: pages_def st1_def fun_eq_iff)
    ultimately show ?thesis using run False by (auto simp: st1_def)
  next
    case True
    have u1: "used st1 p = Some (PAGE_TYPE_ALLOCATED_SMALL, 0)" using sp(1) pp(1) by (auto simp: st1_def small_page_def used_def)
    have mi: "mm_inv {} st1" "merged {} st1" using inv by (auto simp: st1_def small_inv_def)
    let ?st2 = "set_type p PAGE_TYPE_ALLOCATED st1"
    note k2 = set_type_kind [OF mi u1, of PAGE_TYPE_ALLOCATED]
    obtain st' where f: "mm_page_free p ?st2 = Inr st'" "mm_inv {} st'" "merged {} st'"
        "free_pages st' = free_pages st \<union> {p..<p + 1}" "used st' = (used ?st2)(p := None)"
      using mm_page_free_ok [of ?st2 p PAGE_TYPE_ALLOCATED 0] k2 by (auto simp: st1_def)
    have u': "used st' = (used st)(p := None)" using f(5) k2(4) by (simp add: st1_def)
    have m: "small_bitmap st' = small_bitmap st1" "small_allocsize st' = small_allocsize st1" "small_freelist st' = small_freelist st1"
        "same_rest st st'" using more_sel [OF mm_page_free_more [OF f(1)]] small_clear_sel(10) [of st p k i b']
      by (auto simp: same_rest_def st1_def set_type_def)
    have sp': "small_page st' q \<longleftrightarrow> q \<noteq> p \<and> small_page st q" for q using u' by (simp add: small_page_used)
    have asz: "pg_allocsize st' q = pg_allocsize st q" if "q \<noteq> p" "small_page st q" for q
      using that fun_cong [OF u', of q] by (auto simp: small_page_def used_def split: if_splits)
    have "distinct (small_freelist st' l) \<and> set (small_freelist st' l) =
        {q. small_page st' q \<and> small_allocsize st' q = l \<and> small_bitmap st' q \<noteq> small_full l}" if "l < 5" for l
      unfolding m sp' using lists [OF that] True by (auto simp: st1_def split: if_splits)
    then have "small_inv st'"
      unfolding small_inv_def sp' using f(2,3) small_inv_page [OF inv] asz by (auto simp: m st1_def)
    moreover have "chunk st' = (chunk st)((p, i) := None)"
    proof -
      have "\<not> bit (small_bitmap st p) n" if "n \<noteq> i" for n using b' [of n] that True by simp
      then show ?thesis using sp by (auto simp: chunk_def sp' m st1_def fun_eq_iff)
    qed
    moreover have "pages st' = pages st" using sp(1) by (auto simp: pages_def sp' u' fun_eq_iff)
    ultimately show ?thesis using run True f(1,4) m(4) by auto
  qed
qed

section \<open>The invariant of the cells\<close>

text \<open>
  \<open>T\<close> are the chunks that are cut into cells, with the size of the cells. The source does not
  record them: a full block is on no list, and only an offset inside its chunk leads back to it.
\<close>

type_synonym cuts = "nat \<times> nat \<rightharpoonup> nat"

definition blk :: "nat \<Rightarrow> nat \<times> nat \<Rightarrow> u64" where
  "blk t = (\<lambda>(p, i). at p (128 * 2 ^ (t + 2) * i))"

definition tiny_inv :: "cuts \<Rightarrow> 'a heap_scheme \<Rightarrow> bool" where
  "tiny_inv T st \<longleftrightarrow> small_inv st \<and>
     (\<forall>c t. T c = Some t \<longrightarrow> t < 3 \<and> chunk st c = Some (t + 2) \<and> tiny_allocsize st (blk t c) = t \<and>
        tiny_bitmap st (blk t c) \<noteq> empty_bitmap t \<and> empty_bitmap t AND NOT (tiny_bitmap st (blk t c)) = 0) \<and>
     (\<forall>t < 3. distinct (tiny_freelist st t) \<and>
        set (tiny_freelist st t) = {blk t c | c. T c = Some t \<and> tiny_bitmap st (blk t c) \<noteq> - 1})"

definition cells :: "cuts \<Rightarrow> 'a heap_scheme \<Rightarrow> ((nat \<times> nat) \<times> nat \<times> nat) set" where
  "cells T st = {(c, t, j). T c = Some t \<and> bit (tiny_bitmap st (blk t c)) j \<and> \<not> bit (empty_bitmap t) j}"

definition plain :: "cuts \<Rightarrow> 'a heap_scheme \<Rightarrow> nat \<times> nat \<rightharpoonup> nat" where
  "plain T st = (chunk st) |` (- dom T)"

lemma tiny_inv_cut:
  assumes "tiny_inv T st" "T c = Some t"
  shows "t < 3" "chunk st c = Some (t + 2)" "tiny_allocsize st (blk t c) = t" "tiny_bitmap st (blk t c) \<noteq> empty_bitmap t"
    "empty_bitmap t AND NOT (tiny_bitmap st (blk t c)) = 0"
  using assms unfolding tiny_inv_def by blast+

lemma tiny_inv_list:
  assumes "tiny_inv T st" "t < 3"
  shows "distinct (tiny_freelist st t)"
    "\<And>a. a \<in> set (tiny_freelist st t) \<longleftrightarrow> (\<exists>c. a = blk t c \<and> T c = Some t \<and> tiny_bitmap st (blk t c) \<noteq> - 1)"
  using assms unfolding tiny_inv_def by blast+

lemma chunk_bounds:
  assumes "small_inv st" "chunk st (p, i) = Some k"
  shows "p < NUM_OF_PAGES" "k < 5" "i < small_nbits k" "128 * 2 ^ k * i < 4096" "128 * 2 ^ k * i + 128 * 2 ^ k \<le> 4096"
proof -
  have c: "small_page st p" "bit (small_bitmap st p) i" "small_allocsize st p = k" using assms(2) by (auto simp: chunk_Some)
  note pp = small_inv_page [OF assms(1) c(1)]
  show "p < NUM_OF_PAGES" and k: "k < 5" and i: "i < small_nbits k" using pp(5) pp(2) pp(4) [OF c(2)] c(3) by auto
  show "128 * 2 ^ k * i < 4096" by (rule chunk_addr(1) [OF k i])
  have "2 ^ k * (i + 1) \<le> 2 ^ k * small_nbits k" by (rule mult_le_mono2) (use i in simp)
  then have "2 ^ k * (i + 1) \<le> 32" using nbits_bound [OF k] by simp
  then show "128 * 2 ^ k * i + 128 * 2 ^ k \<le> 4096" by (simp add: algebra_simps)
qed

lemma same_chunk_addr:
  assumes inv: "small_inv st" and c: "chunk st (p, i) = Some k" "chunk st (p', i') = Some k'"
    and eq: "at p (128 * 2 ^ k * i) = at p' (128 * 2 ^ k' * i')"
  shows "p = p'" "i = i'" "k = k'"
proof -
  note b = chunk_bounds [OF inv c(1)] chunk_bounds [OF inv c(2)]
  have "4096 * p + 128 * 2 ^ k * i = 4096 * p' + 128 * 2 ^ k' * i'"
    using arg_cong [OF eq, of unat] unat_at [OF b(1) b(4)] unat_at [OF b(6) b(9)] by simp
  then have e: "(4096 * p + 128 * 2 ^ k * i) div 4096 = (4096 * p' + 128 * 2 ^ k' * i') div 4096" by simp
  then show p: "p = p'" using b(4,9) by simp
  then show k: "k = k'" using c by (simp add: chunk_Some)
  show "i = i'" using \<open>4096 * p + _ = _\<close> p k by simp
qed

lemma blk_inj:
  assumes inv: "tiny_inv T st" and c: "T c = Some t" "T c' = Some t'" and eq: "blk t c = blk t' c'"
  shows "c = c' \<and> t = t'"
proof -
  have si: "small_inv st" using inv by (simp add: tiny_inv_def)
  obtain p i p' i' where x: "c = (p, i)" "c' = (p', i')" by (cases c, cases c')
  have "chunk st (p, i) = Some (t + 2)" "chunk st (p', i') = Some (t' + 2)"
    using tiny_inv_cut(2) [OF inv c(1)] tiny_inv_cut(2) [OF inv c(2)] x by auto
  from same_chunk_addr [OF si this] eq show ?thesis by (simp add: x blk_def)
qed

lemma word_zero_bits: "(w :: u32) = 0 \<longleftrightarrow> (\<forall>n. \<not> bit w n)"
  by (auto intro: bit_eqI)

lemma sub_bitmap: "a AND NOT b = (0 :: u32) \<longleftrightarrow> (\<forall>n. bit a n \<longrightarrow> bit b n)"
proof -
  have "bit a n \<Longrightarrow> n < 32" for n using bit_imp_le_length [of a n] by simp
  then show ?thesis unfolding word_zero_bits bit_and_iff bit_not_iff by auto
qed

lemma empty_bit: "bit (empty_bitmap t) n \<longleftrightarrow> n = 0 \<or> n = 1 \<and> t = 0"
proof -
  have 3: "(3 :: u32) = 1 OR push_bit 1 1" by simp
  have "bit (3 :: u32) n \<longleftrightarrow> n = 0 \<or> n = 1" unfolding 3 bit_or_iff bit_push1 by (auto simp: bit_1_iff)
  then show ?thesis by (auto simp: empty_bitmap_def bit_1_iff)
qed

lemma tiny_upd [simp]:
  "small_inv (tiny_bitmap_update f st) = small_inv st" "small_inv (tiny_freelist_update g st) = small_inv st"
  "small_inv (tiny_allocsize_update h st) = small_inv st" "small_inv (contents_update d st) = small_inv st"
  "chunk (tiny_bitmap_update f st) = chunk st" "chunk (tiny_freelist_update g st) = chunk st"
  "chunk (tiny_allocsize_update h st) = chunk st" "chunk (contents_update d st) = chunk st"
  "pages (tiny_bitmap_update f st) = pages st" "pages (tiny_freelist_update g st) = pages st"
  "pages (tiny_allocsize_update h st) = pages st" "pages (contents_update d st) = pages st"
  "free_pages (tiny_bitmap_update f st) = free_pages st" "free_pages (tiny_freelist_update g st) = free_pages st"
  "free_pages (tiny_allocsize_update h st) = free_pages st" "free_pages (contents_update d st) = free_pages st"
  "small_page (tiny_bitmap_update f st) = small_page st" "small_page (tiny_freelist_update g st) = small_page st"
  "small_page (tiny_allocsize_update h st) = small_page st" "small_page (contents_update d st) = small_page st"
  by (simp_all add: small_inv_def mm_inv_def blocks_ok_def lists_ok_def block_def merged_def used_def free_pages_def
      small_page_def chunk_def pages_def fun_eq_iff)

lemma not_eq_0: "NOT (w :: u32) = 0 \<longleftrightarrow> w = - 1"
  by (metis bit.compl_zero bit.double_compl)

lemma tiny_take_ok:
  assumes inv: "tiny_inv T st" and c: "T c = Some t" and b: "tiny_bitmap st (blk t c) \<noteq> - 1"
  shows "\<exists>j st'. tiny_take t (blk t c) st = (push_bit j 1, st') \<and> tiny_inv T st' \<and> 0 < j \<and> j < 32 \<and> (c, t, j) \<notin> cells T st \<and>
    cells T st' = insert (c, t, j) (cells T st) \<and> chunk st' = chunk st \<and> pages st' = pages st \<and>
    contents st' = contents st \<and> free_pages st' = free_pages st"
proof -
  let ?a = "blk t c" and ?b = "tiny_bitmap st (blk t c)"
  note cc = tiny_inv_cut [OF inv c]
  have sub: "bit ?b n" if "bit (empty_bitmap t) n" for n using cc(5) that unfolding sub_bitmap by blast
  obtain j where j: "FIND_NEXT_BIT ?b = push_bit j 1" "\<not> bit ?b j" "j < 32" using next_index [OF b] by metis
  have je: "\<not> bit (empty_bitmap t) j" using sub j(2) by blast
  define b' where "b' = ?b OR push_bit j 1"
  have b': "bit b' n \<longleftrightarrow> bit ?b n \<or> n = j" for n using j(3) by (auto simp: b'_def bit_or_iff bit_push1 simp del: push_bit_of_1)
  define st' where "st' = st\<lparr>tiny_bitmap := (tiny_bitmap st)(?a := b'), tiny_freelist :=
      (if b' = - 1 then (tiny_freelist st)(t := remove1 ?a (tiny_freelist st t)) else tiny_freelist st)\<rparr>"
  have t: "tiny_take t ?a st = (push_bit j 1, st')"
    unfolding tiny_take_def Let_def j(1) b'_def [symmetric] by (simp add: st'_def not_eq_0)
  have at: "tiny_bitmap st' (blk t' c') = (if c' = c then b' else tiny_bitmap st (blk t' c'))" if "T c' = Some t'" for c' t'
    using that blk_inj [OF inv that c] c by (auto simp: st'_def)
  have "b' \<noteq> empty_bitmap t" using b' [of j] je by auto
  moreover have "empty_bitmap t AND NOT b' = 0" unfolding sub_bitmap b' using sub by blast
  moreover have "distinct (tiny_freelist st' u) \<and> set (tiny_freelist st' u) = {blk u d | d. T d = Some u \<and> tiny_bitmap st' (blk u d) \<noteq> - 1}"
    if u: "u < 3" for u
  proof (intro conjI set_eqI iffI)
    show "distinct (tiny_freelist st' u)" using tiny_inv_list(1) [OF inv] u by (simp add: st'_def)
  next
    fix x assume "x \<in> set (tiny_freelist st' u)"
    then have "x \<in> set (tiny_freelist st u)" "\<not> (b' = - 1 \<and> u = t \<and> x = ?a)"
      using tiny_inv_list(1) [OF inv u] by (auto simp: st'_def split: if_splits)
    moreover from this obtain d where d: "x = blk u d" "T d = Some u" "tiny_bitmap st (blk u d) \<noteq> - 1"
      using tiny_inv_list(2) [OF inv u, of x] by blast
    ultimately have "tiny_bitmap st' (blk u d) \<noteq> - 1" using at [OF d(2)] c by auto
    then show "x \<in> {blk u d | d. T d = Some u \<and> tiny_bitmap st' (blk u d) \<noteq> - 1}" using d by blast
  next
    fix x assume "x \<in> {blk u d | d. T d = Some u \<and> tiny_bitmap st' (blk u d) \<noteq> - 1}"
    then obtain d where d: "x = blk u d" "T d = Some u" "tiny_bitmap st' (blk u d) \<noteq> - 1" by blast
    have "tiny_bitmap st (blk u d) \<noteq> - 1" using d(2,3) at [OF d(2)] b c by (auto split: if_splits)
    then have "x \<in> set (tiny_freelist st u)" using tiny_inv_list(2) [OF inv u, of x] d(1,2) by blast
    moreover have "\<not> (b' = - 1 \<and> u = t \<and> x = ?a)" using d at [OF d(2)] blk_inj [OF inv d(2) c] by auto
    ultimately show "x \<in> set (tiny_freelist st' u)" by (auto simp: st'_def)
  qed
  moreover have s: "small_inv st'" "chunk st' = chunk st" "tiny_allocsize st' = tiny_allocsize st"
    using inv by (simp_all add: st'_def tiny_inv_def)
  ultimately have "tiny_inv T st'"
    unfolding tiny_inv_def s using tiny_inv_cut [OF inv] at c s(1) by auto
  moreover have "cells T st' = insert (c, t, j) (cells T st)"
    using at b' je c unfolding cells_def by (auto split: if_splits)
  moreover have "(c, t, j) \<notin> cells T st" using j(2) by (simp add: cells_def)
  moreover have "0 < j" using je by (cases j) (simp_all add: empty_bit)
  ultimately show ?thesis using t j(3) s(2) by (intro exI [of _ j] exI [of _ st']) (simp add: st'_def)
qed

lemma tiny_new_ok:
  assumes inv: "tiny_inv T st" and t: "t < 3"
  shows "tiny_new t st = Inl (Panic ''Out of memory'') \<and> free_pages st = {} \<or>
    (\<exists>c j st'. tiny_new t st = Inr (blk t c, push_bit j 1, st') \<and> tiny_inv (T(c \<mapsto> t)) st' \<and> 0 < j \<and> j < 32 \<and> T c = None \<and>
      cells (T(c \<mapsto> t)) st' = insert (c, t, j) (cells T st) \<and> chunk st c = None \<and> pages st (fst c) = None \<and>
      plain (T(c \<mapsto> t)) st' = plain T st \<and> pages st' = pages st \<and> contents st' = contents st \<and> free_pages st' \<subseteq> free_pages st)"
proof -
  have si: "small_inv st" using inv by (simp add: tiny_inv_def)
  have k: "t + 2 < 5" using t by simp
  show ?thesis
    using small_alloc_ok [OF si k]
  proof
    assume "small_alloc (t + 2) st = Inl (Panic ''Out of memory'') \<and> free_pages st = {}"
    then show ?thesis by (simp add: tiny_new_def tiny_sizes(2) [OF t] Let_def)
  next
    assume "\<exists>p i st'. small_alloc (t + 2) st = Inr (at p (128 * 2 ^ (t + 2) * i), st') \<and> small_inv st' \<and> p < NUM_OF_PAGES \<and>
      i < small_nbits (t + 2) \<and> chunk st (p, i) = None \<and> pages st p = None \<and> p \<notin> free_pages st' \<and> chunk st' = (chunk st)((p, i) \<mapsto> t + 2) \<and>
      pages st' = pages st \<and> same_rest st st' \<and> free_pages st' \<subseteq> free_pages st"
    then obtain p i st1 where a: "small_alloc (t + 2) st = Inr (at p (128 * 2 ^ (t + 2) * i), st1)" "small_inv st1"
        "chunk st (p, i) = None" "pages st p = None" "chunk st1 = (chunk st)((p, i) \<mapsto> t + 2)" "pages st1 = pages st"
        "same_rest st st1" "free_pages st1 \<subseteq> free_pages st" by blast
    let ?c = "(p, i)" let ?a = "blk t ?c"
    have aa: "at p (128 * 2 ^ (t + 2) * i) = ?a" by (simp add: blk_def)
    have Tc: "T ?c = None" using tiny_inv_cut(2) [OF inv, of ?c] a(3) by (cases "T ?c") auto
    have ne: "blk u d \<noteq> ?a" if "T d = Some u" for d u
    proof
      assume eq: "blk u d = ?a"
      obtain q l where d: "d = (q, l)" by (cases d)
      have c1: "chunk st1 (q, l) = Some (u + 2)" "d \<noteq> ?c" using tiny_inv_cut(2) [OF inv that] a(3,5) d by auto
      have c2: "chunk st1 ?c = Some (t + 2)" using a(5) by simp
      have "at q (128 * 2 ^ (u + 2) * l) = at p (128 * 2 ^ (t + 2) * i)" using eq unfolding d blk_def split_conv .
      from same_chunk_addr [OF a(2) c1(1) c2 this] show False using c1(2) d by blast
    qed
    define j :: nat where "j = (if t = 0 then 2 else 1)"
    have j: "FIND_NEXT_BIT (empty_bitmap t) = push_bit j 1" "0 < j" "j < 32" "\<not> bit (empty_bitmap t) j"
      using find_next_bit [of "empty_bitmap t" j] by (auto simp: j_def empty_bit less_Suc_eq numeral_2_eq_2)
    define b where "b = empty_bitmap t OR push_bit j 1"
    have b: "bit b n \<longleftrightarrow> bit (empty_bitmap t) n \<or> n = j" for n
      using j(3) by (auto simp: b_def bit_or_iff bit_push1 simp del: push_bit_of_1)
    have b1: "b \<noteq> - 1" using b [of 31] by (auto simp: empty_bit j_def split: if_splits)
    define st' where "st' = st1\<lparr>tiny_allocsize := (tiny_allocsize st)(?a := t), tiny_bitmap := (tiny_bitmap st)(?a := b),
        tiny_freelist := (tiny_freelist st)(t := ?a # tiny_freelist st t)\<rparr>"
    have r: "tiny_new t st = Inr (?a, push_bit j 1, st')"
      using a(1,7) unfolding tiny_new_def Let_def tiny_sizes(2) [OF t] j(1) b_def [symmetric] aa
      by (simp add: st'_def same_rest_def del: push_bit_of_1)
    have f: "small_inv st'" "chunk st' = (chunk st)(?c \<mapsto> t + 2)" "tiny_allocsize st' = (tiny_allocsize st)(?a := t)"
        "tiny_bitmap st' = (tiny_bitmap st)(?a := b)"
        "tiny_freelist st' = (tiny_freelist st)(t := ?a # tiny_freelist st t)"
      using a(2,5) by (simp_all add: st'_def)
    have "distinct (tiny_freelist st' u) \<and> set (tiny_freelist st' u) =
        {blk u d | d. (T(?c \<mapsto> t)) d = Some u \<and> tiny_bitmap st' (blk u d) \<noteq> - 1}" if u: "u < 3" for u
    proof -
      let ?S = "{blk u d | d. T d = Some u \<and> tiny_bitmap st (blk u d) \<noteq> - 1}"
      have 1: "set (tiny_freelist st u) = ?S" using tiny_inv_list(2) [OF inv u] by blast
      have 2: "?a \<notin> set (tiny_freelist st u)" 
      proof
        assume "?a \<in> set (tiny_freelist st u)"
        then obtain d where "?a = blk u d" "T d = Some u" unfolding 1 by blast
        then show False using ne [of d u] by simp
      qed
      have 3: "{blk u d | d. (T(?c \<mapsto> t)) d = Some u \<and> tiny_bitmap st' (blk u d) \<noteq> - 1} = ?S \<union> (if u = t then {?a} else {})"
        using Tc ne b1 unfolding f by (auto split: if_splits) (metis option.distinct(1))+
      have 4: "tiny_freelist st' u = (if u = t then ?a # tiny_freelist st u else tiny_freelist st u)" by (simp add: f)
      show ?thesis unfolding 3 4 1 [symmetric] using tiny_inv_list(1) [OF inv u] 2 by auto
    qed
    moreover have "b \<noteq> empty_bitmap t" using b [of j] j(4) by auto
    moreover have "empty_bitmap t AND NOT b = 0" unfolding sub_bitmap b by blast
    ultimately have "tiny_inv (T(?c \<mapsto> t)) st'"
      unfolding tiny_inv_def using tiny_inv_cut [OF inv] t ne a(3) f by auto
    moreover have "cells (T(?c \<mapsto> t)) st' = insert (?c, t, j) (cells T st)"
      using Tc ne b j(4) unfolding cells_def f by (auto split: if_splits)
    moreover have "plain (T(?c \<mapsto> t)) st' = plain T st"
      using a(3) by (auto simp: plain_def f restrict_map_def fun_eq_iff)
    moreover have "pages st' = pages st" "contents st' = contents st" "free_pages st' \<subseteq> free_pages st"
      using a(6-8) by (simp_all add: st'_def same_rest_def)
    ultimately show ?thesis using r j(2,3) Tc a(3,4)
      by (intro disjI2 exI [of _ ?c] exI [of _ j] exI [of _ st']) simp
  qed
qed

lemma cell_addr:
  assumes "t < 3" "j < 32"
  shows "ucast (TINY_ALLOCSIZE t * word_of_int (int j) :: u32) = (word_of_nat (16 * 2 ^ t * j) :: u64)"
    "16 * 2 ^ t * j + 16 * 2 ^ t \<le> 128 * 2 ^ (t + 2)"
proof -
  have t: "(2 :: nat) ^ t \<le> 4" using assms(1) power_increasing [of t 2 "2 :: nat"] by simp
  have "16 * 2 ^ t * j < 16 * 4 * 32" using t assms(2) by (meson le_less_trans mult_le_mono mult_less_mono2 order_refl
      zero_less_numeral mult_pos_pos less_le_trans mult_less_cancel1)
  then have "unat (TINY_ALLOCSIZE t * word_of_int (int j)) = 16 * 2 ^ t * j"
    using assms by (simp add: unat_word_ariths tiny_sizes unat_of_nat)
  then show "ucast (TINY_ALLOCSIZE t * word_of_int (int j) :: u32) = (word_of_nat (16 * 2 ^ t * j) :: u64)"
    using word_eq_of_nat [of "ucast (TINY_ALLOCSIZE t * word_of_int (int j) :: u32) :: u64"] by simp
  have "2 ^ t * (j + 1) \<le> 2 ^ t * 32" by (rule mult_le_mono2) (use assms in simp)
  then show "16 * 2 ^ t * j + 16 * 2 ^ t \<le> 128 * 2 ^ (t + 2)" by (simp add: algebra_simps power_add)
qed

definition cell_at :: "nat \<Rightarrow> nat \<times> nat \<Rightarrow> nat \<Rightarrow> u64" where
  "cell_at t = (\<lambda>(p, i) j. at p (128 * 2 ^ (t + 2) * i + 16 * 2 ^ t * j))"

lemma blk_plus: "blk t c + word_of_nat (16 * 2 ^ t * j) = cell_at t c j"
  by (cases c) (simp add: blk_def cell_at_def at_def)

lemma tiny_fits: "tiny_fits" by code_simp

lemma tiny_alloc_ok:
  assumes inv: "tiny_inv T st" and t: "t < 3"
  shows "tiny_alloc t st = Inl (Panic ''Out of memory'') \<and> free_pages st = {} \<or>
    (\<exists>c j st' T'. tiny_alloc t st = Inr (cell_at t c j, st') \<and> tiny_inv T' st' \<and> T' c = Some t \<and> 0 < j \<and> j < 32 \<and>
      (c, t, j) \<notin> cells T st \<and> cells T' st' = insert (c, t, j) (cells T st) \<and> plain T' st' = plain T st \<and>
      pages st' = pages st \<and> contents st' = contents st \<and> free_pages st' \<subseteq> free_pages st)"
proof (cases "tiny_freelist st t")
  case (Cons a as)
  then obtain c where c: "a = blk t c" "T c = Some t" "tiny_bitmap st (blk t c) \<noteq> - 1"
    using tiny_inv_list(2) [OF inv t, of a] by auto
  obtain j st' where k: "tiny_take t (blk t c) st = (push_bit j 1, st')" "tiny_inv T st'" "0 < j" "j < 32"
      "(c, t, j) \<notin> cells T st" "cells T st' = insert (c, t, j) (cells T st)" "chunk st' = chunk st" "pages st' = pages st"
      "contents st' = contents st" "free_pages st' = free_pages st"
    using tiny_take_ok [OF inv c(2,3)] by blast
  have "tiny_alloc t st = Inr (cell_at t c j, st')"
    using Cons c(1) t k(1,3,4) bit_to_index [OF k(4)] cell_addr(1) [OF t k(4)] blk_plus [of t c j] tiny_fits
    by (simp add: tiny_alloc_def NUM_OF_TINY_ALLOCSIZE_def)
  moreover have "plain T st' = plain T st" by (simp add: plain_def k(7))
  ultimately show ?thesis using k c(2) by blast
next
  case Nil
  show ?thesis
    using tiny_new_ok [OF inv t]
  proof
    assume "tiny_new t st = Inl (Panic ''Out of memory'') \<and> free_pages st = {}"
    then show ?thesis using Nil t tiny_fits by (simp add: tiny_alloc_def NUM_OF_TINY_ALLOCSIZE_def)
  next
    assume "\<exists>c j st'. tiny_new t st = Inr (blk t c, push_bit j 1, st') \<and> tiny_inv (T(c \<mapsto> t)) st' \<and> 0 < j \<and> j < 32 \<and> T c = None \<and>
      cells (T(c \<mapsto> t)) st' = insert (c, t, j) (cells T st) \<and> chunk st c = None \<and> pages st (fst c) = None \<and>
      plain (T(c \<mapsto> t)) st' = plain T st \<and> pages st' = pages st \<and> contents st' = contents st \<and> free_pages st' \<subseteq> free_pages st"
    then obtain c j st' where n: "tiny_new t st = Inr (blk t c, push_bit j 1, st')" "tiny_inv (T(c \<mapsto> t)) st'" "0 < j" "j < 32"
        "T c = None" "cells (T(c \<mapsto> t)) st' = insert (c, t, j) (cells T st)" "plain (T(c \<mapsto> t)) st' = plain T st"
        "pages st' = pages st" "contents st' = contents st" "free_pages st' \<subseteq> free_pages st" by blast
    have "tiny_alloc t st = Inr (cell_at t c j, st')"
      using Nil t n(1,3,4) bit_to_index [OF n(4)] cell_addr(1) [OF t n(4)] blk_plus [of t c j] tiny_fits
      by (simp add: tiny_alloc_def NUM_OF_TINY_ALLOCSIZE_def)
    moreover have "(c, t, j) \<notin> cells T st" using n(5) by (simp add: cells_def)
    moreover have "(T(c \<mapsto> t)) c = Some t" by simp
    ultimately show ?thesis using n by blast
  qed
qed

definition tiny_clear :: "u64 \<Rightarrow> nat \<Rightarrow> u32 \<Rightarrow> 'a heap_scheme \<Rightarrow> 'a heap_scheme" where
  "tiny_clear a t b' st =
     (let l = (if tiny_bitmap st a = - 1 then a # tiny_freelist st t else tiny_freelist st t)
      in st\<lparr>tiny_bitmap := (tiny_bitmap st)(a := b'),
            tiny_freelist := (tiny_freelist st)(t := if b' = empty_bitmap t then remove1 a l else l)\<rparr>)"

lemma tiny_clear_sel [simp]:
  "small_inv (tiny_clear a t b' st) = small_inv st" "chunk (tiny_clear a t b' st) = chunk st"
  "pages (tiny_clear a t b' st) = pages st" "free_pages (tiny_clear a t b' st) = free_pages st"
  "tiny_bitmap (tiny_clear a t b' st) = (tiny_bitmap st)(a := b')" "tiny_allocsize (tiny_clear a t b' st) = tiny_allocsize st"
  "contents (tiny_clear a t b' st) = contents st"
  by (simp_all add: tiny_clear_def Let_def)

lemma tiny_offset:
  assumes "t < 3" "j < 32" "unat off = 16 * 2 ^ t * j"
  shows "off mod TINY_ALLOCSIZE t = 0" "unat (off div TINY_ALLOCSIZE t) = j"
proof -
  have "unat (off mod TINY_ALLOCSIZE t) = 0" "unat (off div TINY_ALLOCSIZE t) = j"
    using assms by (simp_all add: unat_mod_distrib unat_div_distrib tiny_sizes)
  then show "off mod TINY_ALLOCSIZE t = 0" "unat (off div TINY_ALLOCSIZE t) = j" by (simp_all add: unsigned_eq_0_iff)
qed

lemma tiny_free_run:
  assumes t: "tiny_allocsize st a = t" "t < 3" and j: "j < 32" "\<not> bit (empty_bitmap t) j" and off: "unat off = 16 * 2 ^ t * j"
  shows "tiny_free p a off st =
    (let b' = tiny_bitmap st a XOR push_bit j 1; st' = tiny_clear a t b' st in
     if bit b' j then Inl (Panic ''tiny_free: double free'')
     else if b' = empty_bitmap t then small_free p (ucast (a AND mask 12)) st' else Inr st')"
proof -
  have e: "empty_bitmap t AND push_bit j 1 = 0" using and_push1 [OF j(1)] j(2) by simp
  show ?thesis
    using t j e tiny_offset [OF t(2) j(1) off] tiny_fits unfolding tiny_free_def
    by (simp add: Let_def and_push1 [OF j(1)] tiny_clear_def NUM_OF_TINY_ALLOCSIZE_def not_eq_0 del: push_bit_of_1)
qed

lemma cut_cong: "(\<And>d. T d = Some u \<Longrightarrow> P d = Q d) \<Longrightarrow> {f d | d. T d = Some u \<and> P d} = {f d | d. T d = Some u \<and> Q d}"
  by blast

lemma cut_remove:
  assumes "\<And>d. P d \<Longrightarrow> f d = f c \<Longrightarrow> d = c"
  shows "{f d | d. P d} - {f c} = {f d | d. P d \<and> d \<noteq> c}"
  using assms by auto

lemma tiny_clear_list:
  assumes inv: "tiny_inv T st" and c: "T c = Some t" and u: "u < 3"
  shows "distinct (tiny_freelist (tiny_clear (blk t c) t b' st) u)"
    "set (tiny_freelist (tiny_clear (blk t c) t b' st) u) =
      {blk u d | d. T d = Some u \<and> (if d = c then b' \<noteq> empty_bitmap t else tiny_bitmap st (blk u d) \<noteq> - 1)}" (is "_ = ?R")
proof -
  let ?a = "blk t c"
  let ?l = "if tiny_bitmap st ?a = - 1 then ?a # tiny_freelist st t else tiny_freelist st t"
  have t: "t < 3" using tiny_inv_cut(1) [OF inv c] .
  have in_l: "x \<in> set (tiny_freelist st w) \<longleftrightarrow> (\<exists>d. x = blk w d \<and> T d = Some w \<and> tiny_bitmap st (blk w d) \<noteq> - 1)" if "w < 3" for x w
    using tiny_inv_list(2) [OF inv that] .
  have a_in: "?a \<in> set (tiny_freelist st t) \<longleftrightarrow> tiny_bitmap st ?a \<noteq> - 1"
    using in_l [OF t, of ?a] c blk_inj [OF inv c] by metis
  then have d: "distinct ?l" using tiny_inv_list(1) [OF inv t] by simp
  then show "distinct (tiny_freelist (tiny_clear ?a t b' st) u)"
    using tiny_inv_list(1) [OF inv u] by (simp add: tiny_clear_def Let_def)
  show "set (tiny_freelist (tiny_clear ?a t b' st) u) = ?R"
  proof (cases "u = t")
    case False
    then have 1: "tiny_freelist (tiny_clear ?a t b' st) u = tiny_freelist st u" by (simp add: tiny_clear_def Let_def)
    have 2: "set (tiny_freelist st u) = {blk u d | d. T d = Some u \<and> tiny_bitmap st (blk u d) \<noteq> - 1}" using in_l [OF u] by blast
    show ?thesis unfolding 1 2 by (rule cut_cong) (use c False in auto)
  next
    case True
    have 1: "x \<in> set ?l \<longleftrightarrow> (\<exists>d. x = blk t d \<and> T d = Some t \<and> (d = c \<or> tiny_bitmap st (blk t d) \<noteq> - 1))" for x
      using in_l [OF t, of x] c by (auto simp del: split_paired_Ex split_paired_All)
    have 2: "set (tiny_freelist (tiny_clear ?a t b' st) t) = (if b' = empty_bitmap t then set ?l - {?a} else set ?l)"
      using d by (simp add: tiny_clear_def Let_def)
    have 3: "blk t d = ?a \<longleftrightarrow> d = c" if "T d = Some t" for d using that blk_inj [OF inv that c] by auto
    have 1: "set ?l = {blk t d | d. T d = Some t \<and> (d = c \<or> tiny_bitmap st (blk t d) \<noteq> - 1)}" using 1 by blast
    show ?thesis
    proof (cases "b' = empty_bitmap t")
      case b: True
      have "set ?l - {?a} = {blk t d | d. (T d = Some t \<and> (d = c \<or> tiny_bitmap st (blk t d) \<noteq> - 1)) \<and> d \<noteq> c}"
        unfolding 1 by (rule cut_remove) (simp add: 3)
      also have "\<dots> = ?R" unfolding True conj_assoc by (rule cut_cong) (use b in auto)
      finally show ?thesis using b True 2 by simp
    next
      case b: False
      have "set ?l = ?R" unfolding 1 True by (rule cut_cong) (use b in auto)
      then show ?thesis using b True 2 by simp
    qed
  qed
qed

lemma tiny_free_ok:
  assumes inv: "tiny_inv T st" and c: "((p, i), t, j) \<in> cells T st" and off: "unat off = 16 * 2 ^ t * j"
  shows "\<exists>T' st'. tiny_free p (blk t (p, i)) off st = Inr st' \<and> tiny_inv T' st' \<and> cells T' st' = cells T st - {((p, i), t, j)} \<and>
    plain T' st' = plain T st \<and> pages st' = pages st \<and> contents st' = contents st \<and> free_pages st \<subseteq> free_pages st'"
proof -
  let ?c = "(p, i)" and ?a = "blk t (p, i)" and ?b = "tiny_bitmap st (blk t (p, i))"
  have Tc: "T ?c = Some t" and bj: "bit ?b j" and je: "\<not> bit (empty_bitmap t) j" using c by (auto simp: cells_def)
  note cc = tiny_inv_cut [OF inv Tc]
  have si: "small_inv st" using inv by (simp add: tiny_inv_def)
  have j: "j < 32" using bit_imp_le_length [OF bj] by simp
  define b' where "b' = ?b XOR push_bit j 1"
  have b': "bit b' n \<longleftrightarrow> bit ?b n \<and> n \<noteq> j" for n
    using bj j by (auto simp: b'_def bit_xor_iff bit_push1 simp del: push_bit_of_1)
  define st1 where "st1 = tiny_clear ?a t b' st"
  have run: "tiny_free p ?a off st = (if b' = empty_bitmap t then small_free p (ucast (?a AND mask 12)) st1 else Inr st1)"
    using tiny_free_run [OF cc(3,1) j je off, of p] b' [of j] unfolding Let_def b'_def [symmetric] st1_def by simp
  have at: "tiny_bitmap st1 (blk u d) = (if d = ?c then b' else tiny_bitmap st (blk u d))" if "T d = Some u" for d u
    using that blk_inj [OF inv that Tc] Tc by (auto simp: st1_def)
  note lists = tiny_clear_list [OF inv Tc, of _ b', folded st1_def]
  have b1: "b' \<noteq> - 1" using b' [of j] j by auto
  have sub: "empty_bitmap t AND NOT b' = 0" using cc(5) je unfolding sub_bitmap b' by auto
  have s1: "small_inv st1" "chunk st1 = chunk st" "tiny_allocsize st1 = tiny_allocsize st" using si by (simp_all add: st1_def)
  show ?thesis
  proof (cases "b' = empty_bitmap t")
    case False
    have "set (tiny_freelist st1 u) = {blk u d | d. T d = Some u \<and> tiny_bitmap st1 (blk u d) \<noteq> - 1}" if "u < 3" for u
      unfolding lists(2) [OF that] by (rule cut_cong) (use at b1 False in auto)
    then have "tiny_inv T st1"
      unfolding tiny_inv_def s1 using tiny_inv_cut [OF inv] at Tc False sub s1(1) lists(1) by auto
    moreover have "cells T st1 = cells T st - {(?c, t, j)}"
      unfolding cells_def using at b' Tc by (auto split: if_splits)
    moreover have "plain T st1 = plain T st" by (simp add: plain_def s1)
    ultimately show ?thesis using run False by (auto simp: st1_def)
  next
    case True
    have c1: "chunk st1 ?c = Some (t + 2)" using cc(2) by (simp add: s1)
    note cb = chunk_bounds [OF si cc(2)]
    have o: "unat (ucast (?a AND mask 12) :: u32) = 128 * 2 ^ (t + 2) * i"
      using at_offset(2) [OF cb(1,4)] by (simp add: blk_def)
    obtain st' where f: "small_free p (ucast (?a AND mask 12)) st1 = Inr st'" "small_inv st'" "chunk st' = (chunk st)(?c := None)"
        "pages st' = pages st" "same_rest st1 st'" "free_pages st \<subseteq> free_pages st'"
      using small_free_ok [OF s1(1) c1 o] by (auto simp: s1 st1_def)
    have m: "tiny_bitmap st' = tiny_bitmap st1" "tiny_allocsize st' = tiny_allocsize st" "tiny_freelist st' = tiny_freelist st1"
        "contents st' = contents st" using f(5) by (auto simp: same_rest_def st1_def)
    let ?T = "T(?c := None)"
    have "set (tiny_freelist st' u) = {blk u d | d. ?T d = Some u \<and> tiny_bitmap st' (blk u d) \<noteq> - 1}" if "u < 3" for u
    proof -
      have "set (tiny_freelist st' u) = {blk u d | d. T d = Some u \<and> (d \<noteq> ?c \<and> tiny_bitmap st' (blk u d) \<noteq> - 1)}"
        unfolding m lists(2) [OF that] by (rule cut_cong) (use at True in auto)
      also have "\<dots> = {blk u d | d. ?T d = Some u \<and> tiny_bitmap st' (blk u d) \<noteq> - 1}" by (metis fun_upd_apply option.distinct(1))
      finally show ?thesis .
    qed
    then have "tiny_inv ?T st'"
      unfolding tiny_inv_def using f(2,3) tiny_inv_cut [OF inv] at lists(1) by (auto simp: m split: if_splits)
    moreover have "cells ?T st' = cells T st - {(?c, t, j)}"
    proof -
      have "n = j" if "bit ?b n" "\<not> bit (empty_bitmap t) n" for n using b' [of n] that True by auto
      then show ?thesis unfolding cells_def using at b' Tc by (auto simp: m split: if_splits)
    qed
    moreover have "plain ?T st' = plain T st" using Tc by (auto simp: plain_def f(3) restrict_map_def fun_eq_iff)
    ultimately show ?thesis using run True f m(4) by (intro exI [of _ ?T] exI [of _ st']) simp
  qed
qed

section \<open>Allocations\<close>

text \<open>An allocation: a run of pages, a chunk or a cell.\<close>

datatype loc = Run nat nat "nat option" | Chunk nat nat nat | Cell "nat \<times> nat" nat nat

fun loc_addr :: "loc \<Rightarrow> u64" where
  "loc_addr (Run p i j) = addr p"
| "loc_addr (Chunk p i k) = at p (128 * 2 ^ k * i)"
| "loc_addr (Cell c t j) = cell_at t c j"

fun loc_size :: "loc \<Rightarrow> nat" where
  "loc_size (Run p i j) = 4096 * total_pages (i, j)"
| "loc_size (Chunk p i k) = 128 * 2 ^ k"
| "loc_size (Cell c t j) = 16 * 2 ^ t"

definition region :: "loc \<Rightarrow> nat set" where
  "region l = {unat (loc_addr l)..<unat (loc_addr l) + loc_size l}"

text \<open>\<open>P\<close> are the runs of pages handed out.\<close>

type_synonym runs = "nat \<rightharpoonup> nat \<times> nat option"

definition run_ok :: "'a heap_scheme \<Rightarrow> nat \<Rightarrow> nat \<times> nat option \<Rightarrow> bool" where
  "run_ok st p = (\<lambda>(i, j). size_ok (i, j) \<and> (case j of
       None \<Rightarrow> pages st p = Some (PAGE_TYPE_ALLOCATED, i)
     | Some m \<Rightarrow> 2 ^ (i + 1) dvd p \<and> pages st p = Some (PAGE_TYPE_ALLOCATED_CONT, i) \<and>
         pages st (p + 2 ^ i) = Some (PAGE_TYPE_ALLOCATED, m)))"

definition heap_inv :: "runs \<Rightarrow> cuts \<Rightarrow> 'a heap_scheme \<Rightarrow> bool" where
  "heap_inv P T st \<longleftrightarrow> tiny_inv T st \<and> (\<forall>p r. P p = Some r \<longrightarrow> run_ok st p r) \<and>
     (\<forall>p r p' r'. P p = Some r \<longrightarrow> P p' = Some r' \<longrightarrow> p \<noteq> p' \<longrightarrow>
        {p..<p + total_pages r} \<inter> {p'..<p' + total_pages r'} = {})"

definition live :: "runs \<Rightarrow> cuts \<Rightarrow> 'a heap_scheme \<Rightarrow> loc set" where
  "live P T st = {l. case l of
       Run p i j \<Rightarrow> P p = Some (i, j)
     | Chunk p i k \<Rightarrow> plain T st (p, i) = Some k
     | Cell c t j \<Rightarrow> (c, t, j) \<in> cells T st}"

lemma live_iff [simp]:
  "Run p i j \<in> live P T st \<longleftrightarrow> P p = Some (i, j)" "Chunk p i k \<in> live P T st \<longleftrightarrow> plain T st (p, i) = Some k"
  "Cell c t n \<in> live P T st \<longleftrightarrow> (c, t, n) \<in> cells T st"
  by (simp_all add: live_def)

lemma heap_invD:
  assumes "heap_inv P T st"
  shows "tiny_inv T st" "small_inv st" "mm_inv {} st" "merged {} st" "\<And>p r. P p = Some r \<Longrightarrow> run_ok st p r"
  using assms by (auto simp: heap_inv_def tiny_inv_def small_inv_def)

lemma used_block:
  assumes "mm_inv {} st" "used st q = Some (t, n)"
  shows "{q..<q + 2 ^ n} \<subseteq> {..<NUM_OF_PAGES}" "{q..<q + 2 ^ n} \<inter> free_pages st = {}"
    "\<And>r u m. used st r = Some (u, m) \<Longrightarrow> r \<noteq> q \<Longrightarrow> {q..<q + 2 ^ n} \<inter> {r..<r + 2 ^ m} = {}"
proof -
  have ok: "blocks_ok st" using assms(1) by (simp add: mm_inv_def)
  have q: "q < NUM_OF_PAGES" "pg_type st q = t" "t \<notin> {PAGE_TYPE_FREE, PAGE_TYPE_NOT_HEAD}" "block st q = {q..<q + 2 ^ n}"
    using assms(2) by (auto simp: used_Some block_def)
  note h = blocks_ok_head [OF ok q(1)]
  have "q + 2 ^ n \<le> NUM_OF_PAGES"
    using h(1,2) q assms(2) aligned_fits [of n q] by (auto simp: used_Some)
  then show "{q..<q + 2 ^ n} \<subseteq> {..<NUM_OF_PAGES}" by auto
  show "{q..<q + 2 ^ n} \<inter> free_pages st = {}"
    using block_disjoint [OF ok q(1)] q(2,3,4) unfolding free_pages_def by fastforce
  fix r u m assume r: "used st r = Some (u, m)" "r \<noteq> q"
  then have "r < NUM_OF_PAGES" "pg_type st r = u" "u \<notin> {PAGE_TYPE_FREE, PAGE_TYPE_NOT_HEAD}" "block st r = {r..<r + 2 ^ m}"
    by (auto simp: used_Some block_def)
  then show "{q..<q + 2 ^ n} \<inter> {r..<r + 2 ^ m} = {}"
    using block_disjoint [OF ok q(1), of r] q r(2) by auto
qed

lemma pages_used: "pages st p = Some x \<Longrightarrow> used st p = Some x \<and> \<not> small_page st p"
  by (auto simp: pages_def split: if_splits)

lemma run_pages:
  assumes inv: "heap_inv P T st" and r: "run_ok st p (i, j)"
  shows "{p..<p + total_pages (i, j)} \<subseteq> {..<NUM_OF_PAGES}" "{p..<p + total_pages (i, j)} \<inter> free_pages st = {}"
    "\<And>q. small_page st q \<Longrightarrow> q \<notin> {p..<p + total_pages (i, j)}"
proof -
  note mi = heap_invD(3) [OF inv]
  have small: "q \<notin> {x..<x + 2 ^ n}" if s: "small_page st q" and u: "used st x = Some (t, n)" "\<not> small_page st x" for q x t n
  proof -
    obtain m where m: "used st q = Some (PAGE_TYPE_ALLOCATED_SMALL, m)" using s by (auto simp: small_page_used)
    have "q \<noteq> x" using s u by auto
    from used_block(3) [OF mi u(1) m this] have "{x..<x + 2 ^ n} \<inter> {q..<q + 2 ^ m} = {}" .
    moreover have "q \<in> {q..<q + 2 ^ m}" by simp
    ultimately show ?thesis by blast
  qed
  have "{p..<p + total_pages (i, j)} \<subseteq> {..<NUM_OF_PAGES} \<and> {p..<p + total_pages (i, j)} \<inter> free_pages st = {} \<and>
      (\<forall>q. small_page st q \<longrightarrow> q \<notin> {p..<p + total_pages (i, j)})"
  proof (cases j)
    case None
    then have u: "used st p = Some (PAGE_TYPE_ALLOCATED, i)" "\<not> small_page st p" using r by (auto simp: run_ok_def dest: pages_used)
    show ?thesis using used_block [OF mi u(1)] small [OF _ u] None by auto
  next
    case (Some m)
    then have u: "used st p = Some (PAGE_TYPE_ALLOCATED_CONT, i)" "\<not> small_page st p"
        "used st (p + 2 ^ i) = Some (PAGE_TYPE_ALLOCATED, m)" "\<not> small_page st (p + 2 ^ i)"
      using r by (auto simp: run_ok_def dest: pages_used)
    have e: "{p..<p + total_pages (i, j)} = {p..<p + 2 ^ i} \<union> {p + 2 ^ i..<p + 2 ^ i + 2 ^ m}" using Some by auto
    show ?thesis unfolding e using used_block [OF mi u(1)] used_block [OF mi u(3)] small [OF _ u(1,2)] small [OF _ u(3,4)] by blast
  qed
  then show "{p..<p + total_pages (i, j)} \<subseteq> {..<NUM_OF_PAGES}" "{p..<p + total_pages (i, j)} \<inter> free_pages st = {}"
    "\<And>q. small_page st q \<Longrightarrow> q \<notin> {p..<p + total_pages (i, j)}" by blast+
qed

definition chunk_region :: "nat \<Rightarrow> nat \<Rightarrow> nat \<Rightarrow> nat set" where
  "chunk_region p i k = {0x40000000 + 4096 * p + 128 * 2 ^ k * i..<0x40000000 + 4096 * p + 128 * 2 ^ k * i + 128 * 2 ^ k}"

definition page_region :: "nat \<Rightarrow> nat \<Rightarrow> nat set" where
  "page_region p n = {0x40000000 + 4096 * p..<0x40000000 + 4096 * (p + n)}"

lemma page_region_disjoint: "{p..<p + n} \<inter> {q..<q + m} = {} \<Longrightarrow> page_region p n \<inter> page_region q m = {}"
proof (rule ccontr)
  assume d: "{p..<p + n} \<inter> {q..<q + m} = {}" and "page_region p n \<inter> page_region q m \<noteq> {}"
  then obtain x where "x \<in> page_region p n" "x \<in> page_region q m" by blast
  then have "(x - 0x40000000) div 4096 \<in> {p..<p + n}" "(x - 0x40000000) div 4096 \<in> {q..<q + m}"
    unfolding page_region_def by auto
  then show False using d by blast
qed

lemma chunk_region_page:
  assumes "small_inv st" "chunk st (p, i) = Some k"
  shows "chunk_region p i k \<subseteq> page_region p 1"
  using chunk_bounds(5) [OF assms] by (auto simp: chunk_region_def page_region_def)

lemma chunk_region_disjoint:
  assumes inv: "small_inv st" and c: "chunk st (p, i) = Some k" "chunk st (p', i') = Some k'" "(p, i) \<noteq> (p', i')"
  shows "chunk_region p i k \<inter> chunk_region p' i' k' = {}"
proof (cases "p = p'")
  case False
  then have "page_region p 1 \<inter> page_region p' 1 = {}" by (intro page_region_disjoint) auto
  then show ?thesis using chunk_region_page [OF inv c(1)] chunk_region_page [OF inv c(2)] by blast
next
  case True
  then have e: "k' = k" "i \<noteq> i'" using c by (auto simp: chunk_Some)
  have "128 * 2 ^ k * a + 128 * 2 ^ k \<le> 128 * 2 ^ k * b" if "a < b" for a b :: nat
    using that mult_le_mono2 [of "a + 1" b "128 * 2 ^ k"] by (simp add: algebra_simps)
  from this [of i i'] this [of i' i] e(2) show ?thesis unfolding chunk_region_def True e(1) by (cases "i < i'") auto
qed

lemma region_chunk:
  assumes "small_inv st" "chunk st (p, i) = Some k"
  shows "region (Chunk p i k) = chunk_region p i k"
  using unat_at [OF chunk_bounds(1,4) [OF assms]] by (simp add: region_def chunk_region_def)

lemma region_run:
  assumes "p < NUM_OF_PAGES"
  shows "region (Run p i j) = page_region p (total_pages (i, j))"
  using unat_addr [OF assms] by (simp add: region_def page_region_def algebra_simps)

lemma cell_off:
  assumes inv: "tiny_inv T st" and c: "T (p, i) = Some t" and j: "j < 32"
  shows "p < NUM_OF_PAGES" "128 * 2 ^ (t + 2) * i + 16 * 2 ^ t * j < 4096"
    "unat (cell_at t (p, i) j) = 0x40000000 + 4096 * p + (128 * 2 ^ (t + 2) * i + 16 * 2 ^ t * j)"
proof -
  have si: "small_inv st" using inv by (simp add: tiny_inv_def)
  note b = chunk_bounds [OF si tiny_inv_cut(2) [OF inv c]]
  show p: "p < NUM_OF_PAGES" by (rule b(1))
  have "(0 :: nat) < 16 * 2 ^ t" by simp
  then show o: "128 * 2 ^ (t + 2) * i + 16 * 2 ^ t * j < 4096"
    using cell_addr(2) [OF tiny_inv_cut(1) [OF inv c] j] b(5) by linarith
  show "unat (cell_at t (p, i) j) = 0x40000000 + 4096 * p + (128 * 2 ^ (t + 2) * i + 16 * 2 ^ t * j)"
    using unat_at [OF p o] by (simp add: cell_at_def)
qed

lemma cell_bit: "(c, t, j) \<in> cells T st \<Longrightarrow> j < 32 \<and> T c = Some t \<and> 0 < j"
proof -
  assume c: "(c, t, j) \<in> cells T st"
  then have "bit (tiny_bitmap st (blk t c)) j" "\<not> bit (empty_bitmap t) j" "T c = Some t" by (auto simp: cells_def)
  then show ?thesis using bit_imp_le_length [of "tiny_bitmap st (blk t c)" j] by (cases j) (auto simp: empty_bit)
qed

lemma region_cell:
  assumes inv: "tiny_inv T st" and c: "((p, i), t, j) \<in> cells T st"
  shows "region (Cell (p, i) t j) \<subseteq> chunk_region p i (t + 2)"
proof -
  have j: "j < 32" "T (p, i) = Some t" using cell_bit [OF c] by auto
  show ?thesis
    using cell_off(3) [OF inv j(2,1)] cell_addr(2) [OF tiny_inv_cut(1) [OF inv j(2)] j(1)]
    by (auto simp: region_def chunk_region_def)
qed

lemma region_cells_disjoint:
  assumes inv: "tiny_inv T st" and c: "((p, i), t, j) \<in> cells T st" "((p, i), t, j') \<in> cells T st" "j \<noteq> j'"
  shows "region (Cell (p, i) t j) \<inter> region (Cell (p, i) t j') = {}"
proof -
  have j: "j < 32" "T (p, i) = Some t" "j' < 32" using cell_bit [OF c(1)] cell_bit [OF c(2)] by auto
  have "16 * 2 ^ t * a + 16 * 2 ^ t \<le> 16 * 2 ^ t * b" if "a < b" for a b :: nat
    using that mult_le_mono2 [of "a + 1" b "16 * 2 ^ t"] by (simp add: algebra_simps)
  from this [of j j'] this [of j' j] c(3) show ?thesis
    unfolding region_def loc_addr.simps cell_off(3) [OF inv j(2,1)] cell_off(3) [OF inv j(2,3)] loc_size.simps
    by (cases "j < j'") auto
qed

lemma live_cases:
  assumes inv: "heap_inv P T st" and l: "l \<in> live P T st"
  obtains (run) p i j where "l = Run p i j" "P p = Some (i, j)" "region l = page_region p (total_pages (i, j))" "p < NUM_OF_PAGES"
  | (chunk) p i k where "l = Chunk p i k" "chunk st (p, i) = Some k" "T (p, i) = None" "region l = chunk_region p i k"
  | (cell) p i t j where "l = Cell (p, i) t j" "((p, i), t, j) \<in> cells T st" "T (p, i) = Some t" "chunk st (p, i) = Some (t + 2)"
      "region l \<subseteq> chunk_region p i (t + 2)"
proof -
  note ti = heap_invD(1) [OF inv] and si = heap_invD(2) [OF inv]
  consider p i j where "l = Run p i j" "P p = Some (i, j)" | p i k where "l = Chunk p i k" "plain T st (p, i) = Some k"
    | p i t j where "l = Cell (p, i) t j" "((p, i), t, j) \<in> cells T st"
    using l by (cases l) auto
  then show ?thesis
  proof cases
    case 1
    have "p \<in> {p..<p + total_pages (i, j)}" by (cases j) auto
    then have "p < NUM_OF_PAGES" using run_pages(1) [OF inv heap_invD(5) [OF inv 1(2)]] by blast
    then show ?thesis using run [OF 1] region_run 1(1) by blast
  next
    case 2
    then have c: "chunk st (p, i) = Some k" "T (p, i) = None"
      by (auto simp: plain_def restrict_map_def split: if_splits)
    then show ?thesis using chunk [OF 2(1) c] region_chunk [OF si c(1)] 2(1) by blast
  next
    case 3
    have t: "T (p, i) = Some t" using cell_bit [OF 3(2)] by simp
    show ?thesis using cell [OF 3 t tiny_inv_cut(2) [OF ti t]] region_cell [OF ti 3(2)] 3(1) by blast
  qed
qed

lemma run_chunk_disjoint:
  assumes inv: "heap_inv P T st" and r: "P p = Some (i, j)" and c: "chunk st (q, n) = Some k"
  shows "page_region p (total_pages (i, j)) \<inter> chunk_region q n k = {}"
proof -
  have "small_page st q" using c by (simp add: chunk_Some)
  then have "q \<notin> {p..<p + total_pages (i, j)}" using run_pages(3) [OF inv heap_invD(5) [OF inv r]] by blast
  then have "page_region p (total_pages (i, j)) \<inter> page_region q 1 = {}" by (intro page_region_disjoint) auto
  then show ?thesis using chunk_region_page [OF heap_invD(2) [OF inv] c] by blast
qed

lemma live_disjoint:
  assumes inv: "heap_inv P T st" and l: "l \<in> live P T st" "l' \<in> live P T st" "l \<noteq> l'"
  shows "region l \<inter> region l' = {}"
proof -
  note ti = heap_invD(1) [OF inv] and si = heap_invD(2) [OF inv]
  have rr: "page_region p (total_pages r) \<inter> page_region p' (total_pages r') = {}"
    if "P p = Some r" "P p' = Some r'" "p \<noteq> p'" for p r p' r'
    using inv that unfolding heap_inv_def by (intro page_region_disjoint) blast
  note rc = run_chunk_disjoint [OF inv] and cc = chunk_region_disjoint [OF si]
  show ?thesis
  proof (cases rule: live_cases [OF inv l(1)])
    case a: (1 p i j)
    show ?thesis
    proof (cases rule: live_cases [OF inv l(2)])
      case b: (1 p' i' j')
      have "p \<noteq> p'" using a b l(3) by auto
      then show ?thesis using a b rr [of p "(i, j)" p' "(i', j')"] by simp
    next
      case b: (2 p' i' k')
      then show ?thesis using a rc [OF a(2) b(2)] by simp
    next
      case b: (3 p' i' t j')
      then show ?thesis using a rc [OF a(2) b(4)] by blast
    qed
  next
    case a: (2 p i k)
    show ?thesis
    proof (cases rule: live_cases [OF inv l(2)])
      case b: (1 p' i' j')
      then show ?thesis using a rc [OF b(2) a(2)] by (simp add: Int_commute)
    next
      case b: (2 p' i' k')
      have "(p, i) \<noteq> (p', i')" using a b l(3) by auto
      then show ?thesis using a b cc [OF a(2) b(2)] by simp
    next
      case b: (3 p' i' t j)
      have "(p, i) \<noteq> (p', i')" using a b by auto
      then show ?thesis using a b cc [OF a(2) b(4)] by blast
    qed
  next
    case a: (3 p i t j)
    show ?thesis
    proof (cases rule: live_cases [OF inv l(2)])
      case b: (1 p' i' j')
      then show ?thesis using a rc [OF b(2) a(4)] by blast
    next
      case b: (2 p' i' k')
      have "(p, i) \<noteq> (p', i')" using a b by auto
      then show ?thesis using a b cc [OF a(4) b(2)] by blast
    next
      case b: (3 p' i' t' j')
      show ?thesis
      proof (cases "(p, i) = (p', i')")
        case True
        then show ?thesis using a b l(3) region_cells_disjoint [OF ti, of p i t j j'] by auto
      next
        case False
        then show ?thesis using a b cc [OF a(4) b(4)] by blast
      qed
    qed
  qed
qed

section \<open>\<open>alloc\<close> and \<open>free\<close>\<close>

lemma small_inv_pages:
  assumes inv: "small_inv st" and st': "mm_inv {} st'" "merged {} st'" "mm.more st' = mm.more st"
    and u: "\<And>q. small_page st q \<or> small_page st' q \<Longrightarrow> used st' q = used st q"
  shows "small_inv st'" "small_page st' = small_page st" "chunk st' = chunk st" "same_rest st st'"
proof -
  note m = more_sel [OF st'(3)]
  show p: "small_page st' = small_page st"
    using u by (auto simp: small_page_used fun_eq_iff) metis+
  have "pg_allocsize st' q = pg_allocsize st q" if "small_page st q" for q
    using that u [of q] p by (auto simp: small_page_def used_def split: if_splits)
  then show "small_inv st'" using inv st'(1,2) m unfolding small_inv_def p by simp
  show "chunk st' = chunk st" "same_rest st st'" using m by (auto simp: chunk_def p same_rest_def)
qed

lemma tiny_inv_same:
  assumes "tiny_inv T st" "small_inv st'" "same_rest st st'" "\<And>d. d \<in> dom T \<Longrightarrow> chunk st' d = chunk st d"
  shows "tiny_inv T st'" "cells T st' = cells T st"
proof -
  have "chunk st' d = Some (t + 2)" if "T d = Some t" for d t using that assms(4) [of d] tiny_inv_cut(2) [OF assms(1) that] by auto
  then show "tiny_inv T st'" using assms(1-3) unfolding tiny_inv_def same_rest_def by auto
  show "cells T st' = cells T st" using assms(3) by (simp add: cells_def same_rest_def)
qed

lemma heap_inv_pages:
  assumes "heap_inv P T st" "tiny_inv T' st'" "pages st' = pages st"
  shows "heap_inv P T' st'"
proof -
  have "run_ok st' = run_ok st" unfolding run_ok_def assms(3) ..
  then show ?thesis using assms(1,2) unfolding heap_inv_def by simp
qed

lemma get_small_allocsize_Some: "get_small_allocsize len = Some k \<Longrightarrow> k < 5 \<and> unat len \<le> 128 * 2 ^ k"
proof -
  assume "get_small_allocsize len = Some k"
  then obtain n where "n < 5" "[0..<5] ! n = k" "len \<le> SMALL_ALLOCSIZE k"
    unfolding get_small_allocsize_def find_Some_iff NUM_OF_SMALL_ALLOCSIZE_def by auto
  then show ?thesis using small_sizes(1) [of k] by (simp add: word_le_nat_alt)
qed

lemma get_small_allocsize_None: "get_small_allocsize len = None \<Longrightarrow> 2048 < unat len"
proof -
  assume "get_small_allocsize len = None"
  then have "\<not> len \<le> SMALL_ALLOCSIZE 4"
    unfolding get_small_allocsize_def find_None_iff NUM_OF_SMALL_ALLOCSIZE_def by simp
  then show ?thesis using small_sizes(1) [of 4] by (simp add: word_le_nat_alt)
qed

lemma get_tiny_allocsize_Some: "get_tiny_allocsize len = Some t \<Longrightarrow> t < 3 \<and> unat len \<le> 16 * 2 ^ t"
proof -
  assume "get_tiny_allocsize len = Some t"
  then obtain n where "n < 3" "[0..<3] ! n = t" "len \<le> TINY_ALLOCSIZE t"
    unfolding get_tiny_allocsize_def find_Some_iff NUM_OF_TINY_ALLOCSIZE_def by auto
  then show ?thesis using tiny_sizes(1) [of t] by (simp add: word_le_nat_alt)
qed

lemma alloc_chunk_ok:
  assumes inv: "heap_inv P T st" and k: "k < 5"
  shows "small_alloc k st = Inl (Panic ''Out of memory'') \<and> free_pages st = {} \<or>
    (\<exists>p i st'. small_alloc k st = Inr (loc_addr (Chunk p i k), st') \<and> heap_inv P T st' \<and> Chunk p i k \<notin> live P T st \<and>
      live P T st' = insert (Chunk p i k) (live P T st) \<and> contents st' = contents st \<and> free_pages st' \<subseteq> free_pages st)"
  using small_alloc_ok [OF heap_invD(2) [OF inv] k]
proof
  assume "\<exists>p i st'. small_alloc k st = Inr (at p (128 * 2 ^ k * i), st') \<and> small_inv st' \<and> p < NUM_OF_PAGES \<and> i < small_nbits k \<and>
      chunk st (p, i) = None \<and> pages st p = None \<and> p \<notin> free_pages st' \<and> chunk st' = (chunk st)((p, i) \<mapsto> k) \<and> pages st' = pages st \<and>
      same_rest st st' \<and> free_pages st' \<subseteq> free_pages st"
  then obtain p i st' where a: "small_alloc k st = Inr (at p (128 * 2 ^ k * i), st')" "small_inv st'" "chunk st (p, i) = None"
      "chunk st' = (chunk st)((p, i) \<mapsto> k)" "pages st' = pages st" "same_rest st st'" "free_pages st' \<subseteq> free_pages st" by blast
  note ti = heap_invD(1) [OF inv]
  have Tc: "T (p, i) = None" using tiny_inv_cut(2) [OF ti, of "(p, i)"] a(3) by (cases "T (p, i)") auto
  have ch: "\<And>d. d \<in> dom T \<Longrightarrow> chunk st' d = chunk st d" using Tc a(4) by auto
  have ti': "tiny_inv T st'" "cells T st' = cells T st" using tiny_inv_same [OF ti a(2,6)] ch by blast+
  have pl: "plain T st' = (plain T st)((p, i) \<mapsto> k)" "plain T st (p, i) = None"
    using a(3,4) Tc by (auto simp: plain_def restrict_map_def fun_eq_iff)
  have "live P T st' = insert (Chunk p i k) (live P T st)"
  proof (rule set_eqI)
    show "l \<in> live P T st' \<longleftrightarrow> l \<in> insert (Chunk p i k) (live P T st)" for l using pl ti'(2) by (cases l) auto
  qed
  moreover have "Chunk p i k \<notin> live P T st" using pl(2) by simp
  moreover have "contents st' = contents st" using a(6) by (simp add: same_rest_def)
  ultimately show ?thesis using a(1,7) heap_inv_pages [OF inv ti'(1) a(5)] by auto
qed blast

lemma alloc_cell_ok:
  assumes inv: "heap_inv P T st" and t: "t < 3"
  shows "tiny_alloc t st = Inl (Panic ''Out of memory'') \<and> free_pages st = {} \<or>
    (\<exists>c j st' T'. tiny_alloc t st = Inr (loc_addr (Cell c t j), st') \<and> heap_inv P T' st' \<and> Cell c t j \<notin> live P T st \<and>
      live P T' st' = insert (Cell c t j) (live P T st) \<and> contents st' = contents st \<and> free_pages st' \<subseteq> free_pages st)"
  using tiny_alloc_ok [OF heap_invD(1) [OF inv] t]
proof
  assume "\<exists>c j st' T'. tiny_alloc t st = Inr (cell_at t c j, st') \<and> tiny_inv T' st' \<and> T' c = Some t \<and> 0 < j \<and> j < 32 \<and>
      (c, t, j) \<notin> cells T st \<and> cells T' st' = insert (c, t, j) (cells T st) \<and> plain T' st' = plain T st \<and>
      pages st' = pages st \<and> contents st' = contents st \<and> free_pages st' \<subseteq> free_pages st"
  then obtain c j st' T' where a: "tiny_alloc t st = Inr (cell_at t c j, st')" "tiny_inv T' st'" "(c, t, j) \<notin> cells T st"
      "cells T' st' = insert (c, t, j) (cells T st)" "plain T' st' = plain T st" "pages st' = pages st" "contents st' = contents st"
      "free_pages st' \<subseteq> free_pages st" by blast
  have "l \<in> live P T' st' \<longleftrightarrow> l \<in> insert (Cell c t j) (live P T st)" for l using a(4,5) by (cases l) auto
  then have "live P T' st' = insert (Cell c t j) (live P T st)" "Cell c t j \<notin> live P T st" using a(3) by auto
  then show ?thesis using a(1,7,8) heap_inv_pages [OF inv a(2,6)] by (metis loc_addr.simps(3))
qed blast

lemma run_ok_cong:
  assumes "run_ok st p r" "\<And>q. pages st q \<noteq> None \<Longrightarrow> pages st' q = pages st q"
  shows "run_ok st' p r"
  using assms(1) assms(2) [of p] assms(2) [of "p + 2 ^ fst r"] by (auto simp: run_ok_def split: prod.splits option.splits)

lemma heap_inv_add_run:
  assumes inv: "heap_inv P T st" and ti: "tiny_inv T st'" and free: "{p..<p + total_pages r} \<subseteq> free_pages st"
    and pg: "\<And>q. pages st q \<noteq> None \<Longrightarrow> pages st' q = pages st q" and r: "run_ok st' p r"
  shows "heap_inv (P(p \<mapsto> r)) T st'"
proof -
  have old: "run_ok st' q s" "{q..<q + total_pages s} \<inter> {p..<p + total_pages r} = {}" if "P q = Some s" for q s
  proof -
    have s: "run_ok st q s" using heap_invD(5) [OF inv that] .
    then show "run_ok st' q s" using run_ok_cong pg by blast
    show "{q..<q + total_pages s} \<inter> {p..<p + total_pages r} = {}"
      using run_pages(2) [OF inv, of q "fst s" "snd s"] s free unfolding prod.collapse by blast
  qed
  show ?thesis unfolding heap_inv_def
  proof (intro conjI allI impI)
    show "tiny_inv T st'" by (rule ti)
    show "run_ok st' q s" if "(P(p \<mapsto> r)) q = Some s" for q s using that old(1) r by (auto split: if_splits)
    fix q s q' s'
    assume a: "(P(p \<mapsto> r)) q = Some s" "(P(p \<mapsto> r)) q' = Some s'" "q \<noteq> q'"
    consider "q = p" "P q' = Some s'" "s = r" | "q' = p" "P q = Some s" "s' = r" | "P q = Some s" "P q' = Some s'"
      using a by (cases "q = p"; cases "q' = p"; simp)
    then show "{q..<q + total_pages s} \<inter> {q'..<q' + total_pages s'} = {}"
    proof cases
      case 1
      then show ?thesis using old(2) [of q' s'] by (simp add: Int_commute)
    next
      case 2
      then show ?thesis using old(2) [of q s] by simp
    next
      case 3
      then show ?thesis using inv a(3) unfolding heap_inv_def by blast
    qed
  qed
qed

lemma used_new_run:
  assumes inv: "heap_inv P T st" and free: "{p..<p + total_pages (i, j)} \<subseteq> free_pages st"
    and st': "mm_inv {} st'" "merged {} st'" "mm.more st' = mm.more st" and sz: "size_ok (i, j)"
    and u: "case j of None \<Rightarrow> used st' = (used st)(p \<mapsto> (PAGE_TYPE_ALLOCATED, i))
        | Some m \<Rightarrow> 2 ^ (i + 1) dvd p \<and>
            used st' = (used st)(p \<mapsto> (PAGE_TYPE_ALLOCATED_CONT, i), p + 2 ^ i \<mapsto> (PAGE_TYPE_ALLOCATED, m))"
  shows "small_inv st'" "chunk st' = chunk st" "same_rest st st'" "run_ok st' p (i, j)"
    "\<And>q. pages st q \<noteq> None \<Longrightarrow> pages st' q = pages st q" "pages st p = None" "p < NUM_OF_PAGES"
proof -
  define N where "N = (case j of None \<Rightarrow> {p} | Some m \<Rightarrow> {p, p + 2 ^ i})"
  have N: "N \<subseteq> {p..<p + total_pages (i, j)}" "p \<in> N" by (cases j; simp add: N_def)+
  have un: "used st q = None" if "q \<in> N" for q using used_not_free [OF heap_invD(3) [OF inv]] that N(1) free by blast
  have same: "used st' q = used st q" if "q \<notin> N" for q using u that by (cases j) (auto simp: N_def)
  have big: "\<not> small_page st' q" if "q \<in> N" for q using u that by (cases j) (auto simp: N_def small_page_used split: if_splits)
  have small: "used st' q = used st q" if "small_page st q \<or> small_page st' q" for q
    using that un [of q] same [of q] big [of q] by (cases "q \<in> N") (auto simp: small_page_used)
  note s = small_inv_pages [OF heap_invD(2) [OF inv] st' small]
  show "small_inv st'" "chunk st' = chunk st" "same_rest st st'" using s by blast+
  show pg: "pages st' q = pages st q" if "pages st q \<noteq> None" for q
    using that un [of q] same [of q] s(2) by (cases "q \<in> N") (auto simp: pages_def)
  show "pages st p = None" using un [OF N(2)] by (simp add: pages_def)
  have "used st' p \<noteq> None" using u by (cases j) auto
  then show "p < NUM_OF_PAGES" by (simp add: used_def split: if_splits)
  show "run_ok st' p (i, j)" using u big sz by (cases j) (auto simp: run_ok_def pages_def N_def)
qed

lemma alloc_run_ok:
  assumes inv: "heap_inv P T st" and n: "0 < n" "n \<le> 4096"
  shows "alloc_pages (word_of_nat n) st = Inl (Panic ''Out of memory'') \<or>
    (\<exists>p i j st'. alloc_pages (word_of_nat n) st = Inr (p, st') \<and> p < NUM_OF_PAGES \<and> n \<le> total_pages (i, j) \<and>
      heap_inv (P(p \<mapsto> (i, j))) T st' \<and> Run p i j \<notin> live P T st \<and>
      live (P(p \<mapsto> (i, j))) T st' = insert (Run p i j) (live P T st) \<and> contents st' = contents st \<and>
      free_pages st' \<subseteq> free_pages st)"
proof (cases "alloc_pages (word_of_nat n) st = Inl (Panic ''Out of memory'')")
  case False
  obtain i j where ij: "get_alloc_pages_size (word_of_nat n) = Some (i, j)" "n \<le> total_pages (i, j)" "size_ok (i, j)"
    using get_alloc_pages_size_ok [OF n] by (metis prod.collapse)
  obtain p st' where a: "alloc_pages (word_of_nat n) st = Inr (p, st')" "mm_inv {} st'" "merged {} st'"
      "{p..<p + total_pages (i, j)} \<subseteq> free_pages st" "free_pages st' = free_pages st - {p..<p + total_pages (i, j)}"
      "case j of None \<Rightarrow> used st' = (used st)(p \<mapsto> (PAGE_TYPE_ALLOCATED, i))
        | Some m \<Rightarrow> 2 ^ (i + 1) dvd p \<and>
            used st' = (used st)(p \<mapsto> (PAGE_TYPE_ALLOCATED_CONT, i), p + 2 ^ i \<mapsto> (PAGE_TYPE_ALLOCATED, m))"
    using alloc_pages_ok [OF heap_invD(3,4) [OF inv] n ij(1)] False by blast
  note u = used_new_run [OF inv a(4,2,3) alloc_pages_more [OF a(1)] ij(3) a(6)]
  have ti: "tiny_inv T st'" "cells T st' = cells T st" using tiny_inv_same [OF heap_invD(1) [OF inv] u(1,3)] u(2) by auto
  have "heap_inv (P(p \<mapsto> (i, j))) T st'" using heap_inv_add_run [OF inv ti(1) a(4)] u(4,5) by blast
  moreover have Pn: "P p = None"
  proof (cases "P p")
    case (Some r)
    from heap_invD(5) [OF inv this] show ?thesis using u(6) by (auto simp: run_ok_def split: prod.splits option.splits)
  qed
  moreover have "l \<in> live (P(p \<mapsto> (i, j))) T st' \<longleftrightarrow> l \<in> insert (Run p i j) (live P T st)" for l
    using Pn ti(2) u(2) by (cases l) (auto simp: plain_def)
  ultimately show ?thesis using a(1,5) ij(2) u(3,7) by (auto simp: same_rest_def)
qed simp

lemma length_pages:
  assumes "2048 < unat (len :: u32)" "unat len \<le> 4096 * 4096"
  shows "\<exists>n. (len + 4095) div 4096 = word_of_nat n \<and> 0 < n \<and> n \<le> 4096 \<and> unat len \<le> 4096 * n"
proof (intro exI conjI)
  let ?n = "(unat len + 4095) div 4096"
  have "unat ((len + 4095) div 4096) = ?n" using assms(2) by (simp add: unat_div unat_word_ariths)
  then show "(len + 4095) div 4096 = word_of_nat ?n" by (simp add: word_eq_of_nat)
  show "0 < ?n" "?n \<le> 4096" "unat len \<le> 4096 * ?n" using assms by auto
qed

lemma alloc_ok:
  assumes inv: "heap_inv P T st" and len: "unat len \<le> 0x1000000"
  shows "alloc len st = Inl (Panic ''Out of memory'') \<or>
    (\<exists>l st' P' T'. alloc len st = Inr (loc_addr l, st') \<and> unat len \<le> loc_size l \<and> heap_inv P' T' st' \<and>
      l \<notin> live P T st \<and> live P' T' st' = insert l (live P T st) \<and> contents st' = contents st \<and>
      free_pages st' \<subseteq> free_pages st)"
proof (cases "get_small_allocsize len")
  case None
  obtain n where n: "(len + 4095) div 4096 = word_of_nat n" "0 < n" "n \<le> 4096" "unat len \<le> 4096 * n"
    using length_pages [OF get_small_allocsize_None [OF None]] len by auto
  have run: "alloc len st = res_bind (alloc_pages (word_of_nat n) st) (\<lambda>(p, st). Inr (page_to_virt st p, st))"
    using None n(1) by (simp add: alloc_def)
  show ?thesis using alloc_run_ok [OF inv n(2,3)]
  proof (elim disjE exE conjE, goal_cases)
    case 1
    then show ?case using run by simp
  next
    case (2 p i j st')
    then have "alloc len st = Inr (loc_addr (Run p i j), st')" "unat len \<le> loc_size (Run p i j)"
      using run n(4) page_to_virt_addr by auto
    then show ?case using 2 by blast
  qed
next
  case (Some k)
  note k = get_small_allocsize_Some [OF Some]
  show ?thesis
  proof (cases "if k = 0 then get_tiny_allocsize len else None")
    case n: None
    then have run: "alloc len st = small_alloc k st" using Some by (simp add: alloc_def)
    show ?thesis using alloc_chunk_ok [OF inv conjunct1 [OF k]]
    proof (elim disjE exE conjE, goal_cases)
      case 1
      then show ?case using run by simp
    next
      case (2 p i st')
      moreover have "unat len \<le> loc_size (Chunk p i k)" using k by simp
      ultimately show ?case unfolding run by blast
    qed
  next
    case t: (Some t)
    then have "get_tiny_allocsize len = Some t" by (auto split: if_splits)
    then have tt: "t < 3 \<and> unat len \<le> 16 * 2 ^ t" by (rule get_tiny_allocsize_Some)
    have run: "alloc len st = tiny_alloc t st" using Some t by (simp add: alloc_def)
    show ?thesis using alloc_cell_ok [OF inv conjunct1 [OF tt]]
    proof (elim disjE exE conjE, goal_cases)
      case 1
      then show ?case using run by simp
    next
      case (2 c j st' T')
      moreover have "unat len \<le> loc_size (Cell c t j)" using tt by simp
      ultimately show ?case unfolding run by blast
    qed
  qed
qed

lemma run_heads:
  assumes "heap_inv P T st" "P p = Some (i, j)" "P q = Some (i', j')" "p \<noteq> q"
    and "x \<in> (case j of None \<Rightarrow> {p} | Some m \<Rightarrow> {p, p + 2 ^ i})" "y \<in> (case j' of None \<Rightarrow> {q} | Some m \<Rightarrow> {q, q + 2 ^ i'})"
  shows "x \<noteq> y"
proof -
  have "x \<in> {p..<p + total_pages (i, j)}" using assms(5) by (cases j) auto
  moreover have "y \<in> {q..<q + total_pages (i', j')}" using assms(6) by (cases j') auto
  moreover have "{p..<p + total_pages (i, j)} \<inter> {q..<q + total_pages (i', j')} = {}"
    using assms(1-4) unfolding heap_inv_def by blast
  ultimately show ?thesis by blast
qed

lemma free_run_ok:
  assumes inv: "heap_inv P T st" and r: "P p = Some (i, j)"
  shows "\<exists>st'. mm_page_free p st = Inr st' \<and> heap_inv (P(p := None)) T st' \<and>
    live (P(p := None)) T st' = live P T st - {Run p i j} \<and> contents st' = contents st \<and> free_pages st \<subseteq> free_pages st'"
proof -
  define N where "N = (case j of None \<Rightarrow> {p} | Some m \<Rightarrow> {p, p + 2 ^ i})"
  note ok = heap_invD(5) [OF inv r]
  have "\<exists>st'. mm_page_free p st = Inr st' \<and> mm_inv {} st' \<and> merged {} st' \<and> free_pages st \<subseteq> free_pages st' \<and>
      used st' = (\<lambda>q. if q \<in> N then None else used st q)"
  proof (cases j)
    case None
    then have "used st p = Some (PAGE_TYPE_ALLOCATED, i)" using ok by (auto simp: run_ok_def dest: pages_used)
    from mm_page_free_ok [OF heap_invD(3) [OF inv] this] show ?thesis
      using heap_invD(4) [OF inv] None by (auto simp: N_def fun_eq_iff)
  next
    case (Some m)
    then have "used st p = Some (PAGE_TYPE_ALLOCATED_CONT, i)" "2 ^ (i + 1) dvd p" "used st (p + 2 ^ i) = Some (PAGE_TYPE_ALLOCATED, m)"
      using ok by (auto simp: run_ok_def dest: pages_used)
    from mm_page_free_cont_ok [OF heap_invD(3) [OF inv] this] show ?thesis
      using heap_invD(4) [OF inv] Some by (auto simp: N_def fun_eq_iff)
  qed
  then obtain st' where st': "mm_page_free p st = Inr st'" "mm_inv {} st'" "merged {} st'" "free_pages st \<subseteq> free_pages st'"
      and u: "used st' = (\<lambda>q. if q \<in> N then None else used st q)" by blast
  have big: "\<not> small_page st q" if "q \<in> N" for q
    using ok that by (cases j) (auto simp: N_def run_ok_def dest: pages_used)
  have small: "used st' q = used st q" if "small_page st q \<or> small_page st' q" for q
    using that big [of q] u by (auto simp: small_page_used split: if_splits)
  note s = small_inv_pages [OF heap_invD(2) [OF inv] st'(2,3) mm_page_free_more [OF st'(1)] small]
  have ti: "tiny_inv T st'" "cells T st' = cells T st" using tiny_inv_same [OF heap_invD(1) [OF inv] s(1,4)] s(3) by auto
  have pg: "pages st' q = pages st q" if "q \<notin> N" for q using that u s(2) by (simp add: pages_def)
  have "run_ok st' q (i', j')" if q: "P q = Some (i', j')" "q \<noteq> p" for q i' j'
  proof -
    have "y \<notin> N" if "y \<in> (case j' of None \<Rightarrow> {q} | Some m \<Rightarrow> {q, q + 2 ^ i'})" for y
      using run_heads [OF inv r q(1) q(2) [symmetric] _ that] unfolding N_def by blast
    then show ?thesis using heap_invD(5) [OF inv q(1)] pg by (cases j') (auto simp: run_ok_def)
  qed
  then have "heap_inv (P(p := None)) T st'" using inv ti(1) unfolding heap_inv_def by auto
  moreover have "l \<in> live (P(p := None)) T st' \<longleftrightarrow> l \<in> live P T st - {Run p i j}" for l
    using r ti(2) s(3) by (cases l) (auto simp: plain_def)
  ultimately show ?thesis using st'(1,4) s(4) by (auto simp: same_rest_def)
qed

lemma free_chunk_ok:
  assumes inv: "heap_inv P T st" and c: "plain T st (p, i) = Some k" and off: "unat off = 128 * 2 ^ k * i"
  shows "\<exists>st'. small_free p off st = Inr st' \<and> heap_inv P T st' \<and> live P T st' = live P T st - {Chunk p i k} \<and>
    contents st' = contents st \<and> free_pages st \<subseteq> free_pages st'"
proof -
  have ch: "chunk st (p, i) = Some k" "T (p, i) = None" using c by (auto simp: plain_def restrict_map_def split: if_splits)
  obtain st' where a: "small_free p off st = Inr st'" "small_inv st'" "chunk st' = (chunk st)((p, i) := None)"
      "pages st' = pages st" "same_rest st st'" "free_pages st \<subseteq> free_pages st'"
    using small_free_ok [OF heap_invD(2) [OF inv] ch(1) off] by blast
  have d: "\<And>d. d \<in> dom T \<Longrightarrow> chunk st' d = chunk st d" using ch(2) a(3) by auto
  have ti: "tiny_inv T st'" "cells T st' = cells T st" using tiny_inv_same [OF heap_invD(1) [OF inv] a(2,5)] d by blast+
  have pl: "plain T st' = (plain T st)((p, i) := None)" using a(3) by (auto simp: plain_def restrict_map_def fun_eq_iff)
  have "l \<in> live P T st' \<longleftrightarrow> l \<in> live P T st - {Chunk p i k}" for l
    using pl c ti(2) by (cases l) auto
  then show ?thesis using a(1,5,6) heap_inv_pages [OF inv ti(1) a(4)] by (auto simp: same_rest_def)
qed

lemma free_cell_ok:
  assumes inv: "heap_inv P T st" and c: "((p, i), t, j) \<in> cells T st" and off: "unat off = 16 * 2 ^ t * j"
  shows "\<exists>T' st'. tiny_free p (blk t (p, i)) off st = Inr st' \<and> heap_inv P T' st' \<and> live P T' st' = live P T st - {Cell (p, i) t j} \<and>
    contents st' = contents st \<and> free_pages st \<subseteq> free_pages st'"
proof -
  obtain T' st' where a: "tiny_free p (blk t (p, i)) off st = Inr st'" "tiny_inv T' st'" "cells T' st' = cells T st - {((p, i), t, j)}"
      "plain T' st' = plain T st" "pages st' = pages st" "contents st' = contents st" "free_pages st \<subseteq> free_pages st'"
    using tiny_free_ok [OF heap_invD(1) [OF inv] c off] by blast
  have "l \<in> live P T' st' \<longleftrightarrow> l \<in> live P T st - {Cell (p, i) t j}" for l
    using a(3,4) by (cases l) auto
  then show ?thesis using a(1,6,7) heap_inv_pages [OF inv a(2,5)] by blast
qed

lemma small_offset:
  assumes "p < NUM_OF_PAGES" "off < 4096" "k < 5"
  shows "unat ((ucast (at p off AND mask 12) :: u32) mod SMALL_ALLOCSIZE k) = off mod (128 * 2 ^ k)"
  using at_offset(2) [OF assms(1,2)] small_sizes(1) [OF assms(3)] by (simp only: unat_mod)

lemma at_minus:
  fixes w :: u32
  assumes "unat w \<le> off"
  shows "at p off - ucast w = at p (off - unat w)"
proof -
  have "(ucast w :: u64) = word_of_nat (unat w)" using word_eq_of_nat [of "ucast w :: u64"] by (simp add: unat_ucast_exact)
  then show ?thesis using assms by (simp add: at_def of_nat_diff)
qed

lemma chunk_free:
  assumes si: "small_inv st" and c: "chunk st (p, i) = Some k"
  shows "free (at p (128 * 2 ^ k * i)) st = small_free p (ucast (at p (128 * 2 ^ k * i) AND mask 12)) st"
    "get_alloc_len (at p (128 * 2 ^ k * i)) st = Inr (SMALL_ALLOCSIZE k)"
proof -
  let ?v = "at p (128 * 2 ^ k * i)"
  note b = chunk_bounds [OF si c]
  have s: "pg_type st p = PAGE_TYPE_ALLOCATED_SMALL" "small_allocsize st p = k" using c by (auto simp: chunk_Some small_page_def)
  have "unat ((ucast (?v AND mask 12) :: u32) mod SMALL_ALLOCSIZE k) = 0" unfolding small_offset [OF b(1,4,2)] by simp
  then have z: "(ucast (?v AND mask 12) :: u32) mod SMALL_ALLOCSIZE k = 0" by (simp only: unat_eq_zero)
  show "free ?v st = small_free p (ucast (?v AND mask 12)) st"
    unfolding free_def virt_to_page_at [OF b(1,4)] using s z by (simp add: Let_def)
  show "get_alloc_len ?v st = Inr (SMALL_ALLOCSIZE k)"
    unfolding get_alloc_len_def virt_to_page_at [OF b(1,4)]
    using s z b(2) by (simp add: Let_def small_getlen_def NUM_OF_SMALL_ALLOCSIZE_def)
qed

lemma cell_block:
  assumes ti: "tiny_inv T st" and c: "((p, i), t, j) \<in> cells T st"
  defines "w \<equiv> (ucast (cell_at t (p, i) j AND mask 12) :: u32) mod SMALL_ALLOCSIZE (t + 2)"
  shows "unat w = 16 * 2 ^ t * j" "cell_at t (p, i) j - ucast w = blk t (p, i)" "virt_to_page (cell_at t (p, i) j) = Inr p"
    "pg_type st p = PAGE_TYPE_ALLOCATED_SMALL" "small_allocsize st p = t + 2" "w \<noteq> 0" "t < 3"
proof -
  have j: "j < 32" "T (p, i) = Some t" "0 < j" using cell_bit [OF c] by auto
  note o = cell_off [OF ti j(2,1)] and cut = tiny_inv_cut [OF ti j(2)]
  show "t < 3" by (rule cut(1))
  have e: "cell_at t (p, i) j = at p (128 * 2 ^ (t + 2) * i + 16 * 2 ^ t * j)" by (simp add: cell_at_def)
  have l: "16 * 2 ^ t * j < 128 * 2 ^ (t + 2)" using cell_addr(2) [OF cut(1) j(1)] zero_less_power [of "2 :: nat" t] by linarith
  have "unat w = (128 * 2 ^ (t + 2) * i + 16 * 2 ^ t * j) mod (128 * 2 ^ (t + 2))"
    unfolding w_def e using cut(1) by (intro small_offset [OF o(1,2)]) simp
  then show w: "unat w = 16 * 2 ^ t * j" using mod_less [OF l] by (simp only: mod_mult_self3 mod_mult_self4)
  show "w \<noteq> 0" using w j(3) by auto
  have "cell_at t (p, i) j - ucast w = at p (128 * 2 ^ (t + 2) * i + 16 * 2 ^ t * j - unat w)"
    unfolding e by (rule at_minus) (simp add: w)
  then show "cell_at t (p, i) j - ucast w = blk t (p, i)" unfolding w by (simp add: blk_def)
  show "virt_to_page (cell_at t (p, i) j) = Inr p" unfolding e by (rule virt_to_page_at [OF o(1,2)])
  show "pg_type st p = PAGE_TYPE_ALLOCATED_SMALL" "small_allocsize st p = t + 2"
    using cut(2) by (auto simp: chunk_Some small_page_def)
qed

lemma cell_free:
  assumes ti: "tiny_inv T st" and c: "((p, i), t, j) \<in> cells T st"
  shows "\<exists>off. unat off = 16 * 2 ^ t * j \<and> free (cell_at t (p, i) j) st = tiny_free p (blk t (p, i)) off st"
    "get_alloc_len (cell_at t (p, i) j) st = Inr (TINY_ALLOCSIZE t)"
proof -
  let ?w = "(ucast (cell_at t (p, i) j AND mask 12) :: u32) mod SMALL_ALLOCSIZE (t + 2)"
  note b = cell_block [OF ti c]
  have "free (cell_at t (p, i) j) st = tiny_free p (blk t (p, i)) ?w st"
    using b(2-6) by (simp add: free_def Let_def)
  then show "\<exists>off. unat off = 16 * 2 ^ t * j \<and> free (cell_at t (p, i) j) st = tiny_free p (blk t (p, i)) off st"
    using b(1) by blast
  have "tiny_allocsize st (blk t (p, i)) = t" using tiny_inv_cut(3) [OF ti] cell_bit [OF c] by simp
  then show "get_alloc_len (cell_at t (p, i) j) st = Inr (TINY_ALLOCSIZE t)"
    using b(2-7) by (simp add: get_alloc_len_def Let_def tiny_getlen_def NUM_OF_TINY_ALLOCSIZE_def)
qed

lemma run_free:
  assumes inv: "heap_inv P T st" and r: "P p = Some (i, j)"
  shows "free (addr p) st = mm_page_free p st" "p < NUM_OF_PAGES"
proof -
  have "p \<in> {p..<p + total_pages (i, j)}" by (cases j) auto
  then show p: "p < NUM_OF_PAGES" using run_pages(1) [OF inv heap_invD(5) [OF inv r]] by blast
  have "pages st p \<noteq> None" using heap_invD(5) [OF inv r] by (cases j) (auto simp: run_ok_def)
  then have "pg_type st p \<noteq> PAGE_TYPE_ALLOCATED_SMALL" using p by (auto simp: pages_def small_page_def)
  moreover have "virt_to_page (addr p) = Inr p" using virt_to_page_at [OF p, of 0] by (simp add: at_0)
  ultimately show "free (addr p) st = mm_page_free p st" by (simp add: free_def)
qed

lemma free_ok:
  assumes inv: "heap_inv P T st" and l: "l \<in> live P T st"
  shows "\<exists>P' T' st'. free (loc_addr l) st = Inr st' \<and> heap_inv P' T' st' \<and> live P' T' st' = live P T st - {l} \<and>
    contents st' = contents st \<and> free_pages st \<subseteq> free_pages st'"
proof (cases l)
  case (Run p i j)
  then have r: "P p = Some (i, j)" using l by simp
  show ?thesis using free_run_ok [OF inv r] unfolding Run loc_addr.simps run_free(1) [OF inv r] by blast
next
  case (Chunk p i k)
  then have c: "plain T st (p, i) = Some k" using l by simp
  then have ch: "chunk st (p, i) = Some k" by (auto simp: plain_def restrict_map_def split: if_splits)
  note b = chunk_bounds [OF heap_invD(2) [OF inv] ch]
  show ?thesis using free_chunk_ok [OF inv c at_offset(2) [OF b(1,4)]]
    unfolding Chunk loc_addr.simps chunk_free(1) [OF heap_invD(2) [OF inv] ch] by blast
next
  case (Cell c t j)
  obtain p i where pi: "c = (p, i)" by (cases c)
  then have c: "((p, i), t, j) \<in> cells T st" using l Cell by simp
  obtain off where "unat off = 16 * 2 ^ t * j" "free (cell_at t (p, i) j) st = tiny_free p (blk t (p, i)) off st"
    using cell_free(1) [OF heap_invD(1) [OF inv] c] by blast
  then show ?thesis using free_cell_ok [OF inv c] unfolding Cell pi loc_addr.simps by metis
qed

section \<open>Use of the allocator\<close>

text \<open>
  The state after start-up: no page is cut into chunks and the lists are empty. The fields that
  stand for headers hold what the memory held before.
\<close>

definition heap_init :: "u64 \<Rightarrow> u64 \<Rightarrow> u64 \<Rightarrow> (u64 \<Rightarrow> u32) \<Rightarrow> (u64 \<Rightarrow> nat) \<Rightarrow> mem \<Rightarrow> heap res" where
  "heap_init vmm_start_phys img_head img_end bm sz m =
     res_bind (mm_init_global vmm_start_phys img_head img_end) (\<lambda>st.
       Inr (mm.extend st (heap.fields (\<lambda>_. 0) (\<lambda>_. 0) (\<lambda>_. []) bm sz (\<lambda>_. []) m)))"

text \<open>
  The states that users of the allocator can reach, with the map from the pointers they hold to
  the lengths they asked for. They may write to their memory at any time.
\<close>

inductive heap_reach :: "heap \<Rightarrow> (u64 \<rightharpoonup> u32) \<Rightarrow> bool" where
  heap_reach_start: "heap_init vmm_start_phys img_head img_end bm sz m = Inr st \<Longrightarrow> heap_reach st Map.empty"
| heap_reach_alloc: "heap_reach st A \<Longrightarrow> unat len \<le> 0x1000000 \<Longrightarrow> alloc len st = Inr (v, st') \<Longrightarrow> heap_reach st' (A(v \<mapsto> len))"
| heap_reach_free: "heap_reach st A \<Longrightarrow> A v = Some n \<Longrightarrow> free v st = Inr st' \<Longrightarrow> heap_reach st' (A(v := None))"
| heap_reach_write: "heap_reach st A \<Longrightarrow> heap_reach (st\<lparr>contents := m\<rparr>) A"

definition owns :: "runs \<Rightarrow> cuts \<Rightarrow> 'a heap_scheme \<Rightarrow> (u64 \<rightharpoonup> u32) \<Rightarrow> bool" where
  "owns P T st A \<longleftrightarrow> (\<forall>v n. A v = Some n \<longrightarrow> (\<exists>l \<in> live P T st. loc_addr l = v \<and> unat n \<le> loc_size l))"

lemma total_pages_pos: "0 < total_pages r"
  by (cases r rule: total_pages.cases) auto

lemma loc_size_pos: "0 < loc_size l"
  using total_pages_pos by (cases l) auto

lemma live_addr_inj:
  assumes "heap_inv P T st" "l \<in> live P T st" "l' \<in> live P T st" "loc_addr l = loc_addr l'"
  shows "l = l'"
proof (rule ccontr)
  assume "l \<noteq> l'"
  then have "region l \<inter> region l' = {}" using live_disjoint assms by blast
  moreover have "unat (loc_addr l) \<in> region l" "unat (loc_addr l) \<in> region l'"
    using loc_size_pos [of l] loc_size_pos [of l'] assms(4) by (auto simp: region_def)
  ultimately show False by blast
qed

lemma heap_init_ok:
  assumes "heap_init sp h e bm sz m = Inr st"
  shows "heap_inv Map.empty Map.empty st" "live Map.empty Map.empty st = {}"
proof -
  let ?f = "heap.fields (\<lambda>_. 0) (\<lambda>_. 0) (\<lambda>_. []) bm sz (\<lambda>_. []) m"
  obtain s where s: "mm_inv {} s" "merged {} s" "used s = (\<lambda>i. if i < NUM_OF_PAGES \<and> kept h e i then Some (PAGE_TYPE_RESERVED, 0) else None)"
      "st = mm.extend s ?f"
    using mm_init_global_ok [of sp h e] assms by (auto simp: heap_init_def)
  have x: "mm_inv {} st = mm_inv {} s" "merged {} st = merged {} s" "used st = used s"
    by (simp_all add: s(4) mm_inv_def merged_def used_def blocks_ok_def lists_ok_def block_def mm.defs fun_eq_iff)
  have f: "small_freelist st = (\<lambda>_. [])" "tiny_freelist st = (\<lambda>_. [])" by (simp_all add: s(4) mm.defs heap.defs)
  have sp: "\<not> small_page st p" for p by (auto simp: small_page_used x s(3))
  then have "small_inv st" using s(1,2) x(1,2) by (simp add: small_inv_def f)
  then show "heap_inv Map.empty Map.empty st" by (simp add: heap_inv_def tiny_inv_def f)
  have "l \<notin> live Map.empty Map.empty st" for l using sp by (cases l) (auto simp: plain_def chunk_def cells_def)
  then show "live Map.empty Map.empty st = {}" by blast
qed

lemma contents_upd [simp]:
  "mm_inv X (contents_update f st) = mm_inv X st" "merged X (contents_update f st) = merged X st"
  "used (contents_update f st) = used st" "free_pages (contents_update f st) = free_pages st"
  by (simp_all add: mm_inv_def merged_def used_def blocks_ok_def lists_ok_def block_def free_pages_def fun_eq_iff)

lemma contents_upd2 [simp]:
  "small_page (contents_update f st) = small_page st" "chunk (contents_update f st) = chunk st"
  by (simp_all add: small_page_def chunk_def fun_eq_iff)

lemma contents_upd3 [simp]:
  "pages (contents_update f st) = pages st" "plain T (contents_update f st) = plain T st"
  "cells T (contents_update f st) = cells T st" "small_inv (contents_update f st) = small_inv st"
  by (simp_all add: pages_def plain_def cells_def small_inv_def fun_eq_iff)

lemma tiny_inv_write [simp]: "tiny_inv T (contents_update f st) = tiny_inv T st"
  by (simp add: tiny_inv_def)

lemma run_ok_write [simp]: "run_ok (contents_update f st) = run_ok st"
  unfolding run_ok_def contents_upd3(1) ..

lemma live_write [simp]: "live P T (contents_update f st) = live P T st"
proof (rule set_eqI)
  show "l \<in> live P T (contents_update f st) \<longleftrightarrow> l \<in> live P T st" for l by (cases l) auto
qed

lemma heap_inv_write [simp]: "heap_inv P T (contents_update f st) = heap_inv P T st"
  by (simp add: heap_inv_def)

lemma heap_reach_inv: "heap_reach st A \<Longrightarrow> \<exists>P T. heap_inv P T st \<and> owns P T st A"
proof (induction rule: heap_reach.induct)
  case (heap_reach_start sp h e bm sz m st)
  then show ?case using heap_init_ok by (fastforce simp: owns_def)
next
  case (heap_reach_alloc st A len v st')
  then obtain P T where inv: "heap_inv P T st" "owns P T st A" by blast
  obtain l P' T' where l: "v = loc_addr l" "unat len \<le> loc_size l" "heap_inv P' T' st'" "live P' T' st' = insert l (live P T st)"
    using alloc_ok [OF inv(1) heap_reach_alloc.hyps(2)] heap_reach_alloc.hyps(3) by auto
  then have "owns P' T' st' (A(v \<mapsto> len))" using inv(2) by (auto simp: owns_def)
  then show ?case using l(3) by blast
next
  case (heap_reach_free st A v n st')
  then obtain P T where inv: "heap_inv P T st" "owns P T st A" by blast
  obtain l where l: "l \<in> live P T st" "loc_addr l = v" using inv(2) heap_reach_free.hyps(2) by (auto simp: owns_def)
  obtain P' T' where f: "heap_inv P' T' st'" "live P' T' st' = live P T st - {l}"
    using free_ok [OF inv(1) l(1)] l(2) heap_reach_free.hyps(3) by auto
  have "owns P' T' st' (A(v := None))" unfolding owns_def
  proof (intro allI impI)
    fix w m assume "(A(v := None)) w = Some m"
    then have "w \<noteq> v" "A w = Some m" by (auto split: if_splits)
    then obtain l' where "l' \<in> live P T st" "loc_addr l' = w" "unat m \<le> loc_size l'" using inv(2) by (auto simp: owns_def)
    then show "\<exists>l' \<in> live P' T' st'. loc_addr l' = w \<and> unat m \<le> loc_size l'" using \<open>w \<noteq> v\<close> l(2) f(2) by blast
  qed
  then show ?case using f(1) by blast
next
  case (heap_reach_write st A m)
  then obtain P T where "heap_inv P T st" "owns P T st A" by blast
  then have "heap_inv P T (st\<lparr>contents := m\<rparr>)" "owns P T (st\<lparr>contents := m\<rparr>) A" by (auto simp: owns_def)
  then show ?case by blast
qed

lemma live_bounds:
  assumes "heap_inv P T st" "l \<in> live P T st"
  shows "0x40000000 \<le> unat (loc_addr l)" "unat (loc_addr l) + loc_size l \<le> 0x48000000"
proof -
  have pr: "page_region p n \<subseteq> {0x40000000..<0x48000000}" if "p + n \<le> NUM_OF_PAGES" for p n
    using that by (auto simp: page_region_def NUM_OF_PAGES_def)
  have ch: "chunk_region p i k \<subseteq> {0x40000000..<0x48000000}" if "chunk st (p, i) = Some k" for p i k
    using chunk_region_page [OF heap_invD(2) [OF assms(1)] that] chunk_bounds(1) [OF heap_invD(2) [OF assms(1)] that] pr [of p 1] by auto
  have "region l \<subseteq> {0x40000000..<0x48000000}"
  proof (cases rule: live_cases [OF assms])
    case (1 p i j)
    have "p + total_pages (i, j) \<le> NUM_OF_PAGES"
      using run_pages(1) [OF assms(1) heap_invD(5) [OF assms(1) 1(2)]] total_pages_pos [of "(i, j)"] by (auto simp: subset_iff dest!: spec [of _ "p + total_pages (i, j) - 1"])
    then show ?thesis using 1(3) pr by blast
  next
    case (2 p i k)
    then show ?thesis using ch by blast
  next
    case (3 p i t j)
    then show ?thesis using ch by blast
  qed
  then show "0x40000000 \<le> unat (loc_addr l)" "unat (loc_addr l) + loc_size l \<le> 0x48000000"
    using loc_size_pos [of l] by (auto simp: region_def)
qed

lemma heap_reach_cases:
  assumes "heap_reach st A"
  shows "\<exists>P T. heap_inv P T st \<and> (\<forall>v n. A v = Some n \<longrightarrow> (\<exists>l \<in> live P T st. loc_addr l = v \<and> unat n \<le> loc_size l))"
  using heap_reach_inv [OF assms] by (auto simp: owns_def)


text \<open>A run from start-up: an allocation of 100 bytes.\<close>

lemma example_reach:
  "\<exists>st v st'. heap_init 0x38000000 0x40000000 0x40100000 (\<lambda>_. 0) (\<lambda>_. 0) (\<lambda>_. 0) = Inr st \<and>
     alloc 100 st = Inr (v, st') \<and> heap_reach st' [v \<mapsto> 100]"
proof -
  obtain s where s: "mm_init_global 0x38000000 0x40000000 0x40100000 = Inr s" "free_pages s = {512..<32768}"
    by (rule example_start)
  define st where "st = mm.extend s (heap.fields (\<lambda>_. 0) (\<lambda>_. 0) (\<lambda>_. []) (\<lambda>_. 0) (\<lambda>_. 0) (\<lambda>_. []) (\<lambda>_. 0))"
  have i: "heap_init 0x38000000 0x40000000 0x40100000 (\<lambda>_. 0) (\<lambda>_. 0) (\<lambda>_. 0) = Inr st"
    by (simp add: heap_init_def s(1) st_def)
  have "free_pages st = free_pages s" by (simp add: st_def free_pages_def block_def mm.defs)
  then have f: "free_pages st \<noteq> {}" using s(2) by simp
  have z: "get_small_allocsize 100 = Some 0" "get_tiny_allocsize 100 = None" by code_simp+
  then have run: "alloc 100 st = small_alloc 0 st" by (simp add: alloc_def)
  obtain v st' where a: "alloc 100 st = Inr (v, st')"
    using alloc_chunk_ok [OF heap_init_ok(1) [OF i], of 0] f unfolding run by auto
  have "heap_reach st' (Map.empty(v \<mapsto> 100))"
    by (rule heap_reach_alloc [OF heap_reach_start [OF i] _ a]) simp
  then show ?thesis using i a by blast
qed


section \<open>Requests that do not fit an \<open>int\<close>\<close>

lemma sint_negative:
  assumes "2 ^ 31 \<le> unat (w :: u32)"
  shows "sint w < 0"
proof -
  have l: "unat w < 2 ^ 32" by (rule order_less_le_trans [OF unsigned_less]) simp
  have "unat w div 2 ^ 31 = 1" using assms l by (intro div_nat_eqI) auto
  then have "bit (unat w) 31" by (simp add: bit_iff_odd)
  then have "bit w 31" by (simp add: bit_unsigned_iff)
  then show ?thesis using bit_last_iff [of w] by simp
qed

text \<open>
  C36. A request of 2 GiB or more is taken for one page: the 32-bit size of the pages in bytes is negative or
  zero, so \<open>alloc\<close> hands out a single page as if it held the request.
\<close>

theorem alloc_huge_one_page:
  assumes "2 ^ 31 \<le> unat len"
  shows "alloc len st = res_bind (mm_page_alloc 0 st) (\<lambda>(p, st). Inr (page_to_virt st p, st))"
proof -
  let ?n = "(len + 4095) div 4096"
  have l: "unat len < 2 ^ 32" by (rule order_less_le_trans [OF unsigned_less]) simp
  have "sint (?n * 0x1000) \<le> 0"
  proof (cases "unat len + 4095 < 2 ^ 32")
    case True
    then have n: "unat ?n = (unat len + 4095) div 4096" by (simp add: unat_div unat_word_ariths)
    have "unat (?n * 0x1000) = 4096 * ((unat len + 4095) div 4096)"
      using True n by (simp add: unat_word_ariths)
    then have "2 ^ 31 \<le> unat (?n * 0x1000)" using assms by simp
    then show ?thesis using sint_negative [of "?n * 0x1000"] by simp
  next
    case False
    have "unat (len + 4095) < 4096" using False l by (simp add: unat_word_ariths le_mod_geq)
    then have "unat ?n = 0" by (simp add: unat_div)
    then have "?n = 0" by (simp only: unat_eq_zero)
    then show ?thesis by simp
  qed
  then have "get_alloc_pages_size ?n = Some (0, None)"
    unfolding get_alloc_pages_size_def by (subst get_alloc_pages_size_from.simps) (simp add: NUM_OF_ALLOCSIZE_def Let_def)
  moreover have "get_small_allocsize len = None"
  proof (cases "get_small_allocsize len")
    case (Some k)
    then have "k < 5" "unat len \<le> 128 * 2 ^ k" using get_small_allocsize_Some by auto
    moreover have "(2 :: nat) ^ k \<le> 2 ^ 4" using \<open>k < 5\<close> by (intro power_increasing) auto
    ultimately have False using assms by simp
    then show ?thesis by simp
  qed
  ultimately show ?thesis by (simp add: alloc_def alloc_pages_def)
qed

theorem alloc_huge_one_page_witness:
  "\<forall>st :: heap. alloc 0x80000000 st = res_bind (mm_page_alloc 0 st) (\<lambda>(p, st). Inr (page_to_virt st p, st))"
proof
  show "alloc 0x80000000 st = res_bind (mm_page_alloc 0 st) (\<lambda>(p, st). Inr (page_to_virt st p, st))" for st :: heap
    by (rule alloc_huge_one_page) simp
qed

section \<open>Releasing a range of reserved pages\<close>

definition reserved_in :: "'a mm_scheme \<Rightarrow> nat \<Rightarrow> nat \<Rightarrow> nat set" where
  "reserved_in st p q = {x. p \<le> x \<and> x < q \<and> used st x = Some (PAGE_TYPE_RESERVED, 0)}"

lemma free_pages_loop_ok:
  assumes "mm_inv {} st" "\<forall>x n. used st x = Some (PAGE_TYPE_RESERVED, n) \<longrightarrow> n = 0" "q \<le> NUM_OF_PAGES" "p \<le> q"
    "unat c = 0x40000000 + 4096 * p" "unat e = 0x40000000 + 4096 * q" "unat img_head \<le> 0x40000000 + 4096 * p" "e \<le> end'"
  shows "\<exists>st'. free_pages_loop img_head end' c e st = Some (Inr st') \<and> mm_inv {} st' \<and>
    used st' = (\<lambda>x. if x \<in> reserved_in st p q then None else used st x) \<and> free_pages st' = free_pages st \<union> reserved_in st p q"
  using assms
proof (induction "q - p" arbitrary: p c st)
  case 0
  then have "p = q" "\<not> c < e" by (auto simp: word_less_nat_alt)
  moreover have "reserved_in st q q = {}" by (auto simp: reserved_in_def)
  ultimately show ?case using 0 by (subst free_pages_loop.simps) simp
next
  case (Suc d)
  then have pq: "p < q" "p < NUM_OF_PAGES" by auto
  have g: "c < e" "img_head \<le> c" "c < end'" using Suc.prems pq by (auto simp: word_less_nat_alt word_le_nat_alt)
  have vp: "virt_to_page c = Inr p" using virt_to_page_unat [of c p 0] Suc.prems(5) pq by simp
  have c': "unat (c + 0x1000) = 0x40000000 + 4096 * Suc p"
    using Suc.prems(5) pq by (simp add: unat_word_ariths NUM_OF_PAGES_def)
  define F where "F = (if used st p = Some (PAGE_TYPE_RESERVED, 0) then {p} else {})"
  have R: "reserved_in st p q = F \<union> reserved_in st (Suc p) q" using pq by (auto simp: reserved_in_def F_def Suc_le_eq order_le_less)
  have "\<exists>st1. (if pg_type st p = PAGE_TYPE_RESERVED then mm_page_free p st else Inr st) = Inr st1 \<and> mm_inv {} st1 \<and>
      used st1 = (\<lambda>x. if x \<in> F then None else used st x) \<and> free_pages st1 = free_pages st \<union> F"
  proof (cases "pg_type st p = PAGE_TYPE_RESERVED")
    case True
    then have "used st p = Some (PAGE_TYPE_RESERVED, pg_allocsize st p)" using pq by (simp add: used_def)
    then have u: "used st p = Some (PAGE_TYPE_RESERVED, 0)" using Suc.prems(2) by metis
    then show ?thesis using mm_page_free_ok [OF Suc.prems(1) u] True by (auto simp: F_def fun_eq_iff)
  next
    case False
    then have "used st p \<noteq> Some (PAGE_TYPE_RESERVED, 0)" by (auto simp: used_Some)
    then show ?thesis using False Suc.prems(1) by (simp add: F_def)
  qed
  then obtain st1 where s1: "(if pg_type st p = PAGE_TYPE_RESERVED then mm_page_free p st else Inr st) = Inr st1" "mm_inv {} st1"
      "used st1 = (\<lambda>x. if x \<in> F then None else used st x)" "free_pages st1 = free_pages st \<union> F" by blast
  have run: "free_pages_loop img_head end' c e st = free_pages_loop img_head end' (c + 0x1000) e st1"
    by (subst free_pages_loop.simps) (simp add: g vp s1(1))
  have res: "\<forall>x n. used st1 x = Some (PAGE_TYPE_RESERVED, n) \<longrightarrow> n = 0" using Suc.prems(2) by (auto simp: s1(3) split: if_splits)
  have R1: "reserved_in st1 (Suc p) q = reserved_in st (Suc p) q" by (auto simp: reserved_in_def s1(3) F_def split: if_splits)
  have "\<exists>st'. free_pages_loop img_head end' (c + 0x1000) e st1 = Some (Inr st') \<and> mm_inv {} st' \<and>
      used st' = (\<lambda>x. if x \<in> reserved_in st1 (Suc p) q then None else used st1 x) \<and>
      free_pages st' = free_pages st1 \<union> reserved_in st1 (Suc p) q"
    using Suc.hyps(2) Suc.prems pq c' by (intro Suc.hyps(1) [OF _ s1(2) res]) auto
  then show ?case unfolding run R R1 s1(3,4) by (auto simp: fun_eq_iff)
qed

lemma round_up: "(0x40000000 + (if s mod 4096 = 0 then s else s + 4096)) div 4096 * 4096 = 0x40000000 + 4096 * ((s + 4095) div (4096 :: nat))"
proof -
  define k r where "k = s div 4096" and "r = s mod 4096"
  have s: "s = 4096 * k + r" "r < 4096" by (simp_all add: k_def r_def)
  have a: "(0x40000000 + s) div 4096 = 0x40000 + k" "(0x40000000 + (s + 4096)) div 4096 = 0x40000 + (k + 1)"
    using s(2) by (auto simp: s(1) intro!: div_nat_eqI)
  have "(s + 4095) div 4096 = (if r = 0 then k else k + 1)" using s(2) by (auto simp: s(1) intro!: div_nat_eqI)
  then show ?thesis using a s(2) r_def by simp
qed

text \<open>
  C24. \<open>free_pages_range\<close> ends and releases exactly the reserved pages that lie wholly inside the
  range, for every range of the memory of the hypervisor behind \<open>head\<close>; all other pages stay as
  they were.
\<close>

theorem free_pages_range_exact:
  assumes "mm_inv {} st" "\<forall>x n. used st x = Some (PAGE_TYPE_RESERVED, n) \<longrightarrow> n = 0"
    and "0x40000000 \<le> unat img_head" "unat img_head \<le> unat start" "unat start \<le> unat end'" "unat end' \<le> 0x48000000"
  shows "\<exists>st'. free_pages_range img_head start end' st = Some (Inr st') \<and> mm_inv {} st' \<and>
    (let R = {x. used st x = Some (PAGE_TYPE_RESERVED, 0) \<and> unat start \<le> 0x40000000 + 4096 * x \<and>
                 0x40000000 + 4096 * (x + 1) \<le> unat end'} in
     used st' = (\<lambda>x. if x \<in> R then None else used st x) \<and> free_pages st' = free_pages st \<union> R)"
proof -
  define s where "s = unat start - 0x40000000"
  define t where "t = unat end' - 0x40000000"
  have st: "unat start = 0x40000000 + s" "unat end' = 0x40000000 + t" "s \<le> t" "t \<le> 0x8000000" using assms by (auto simp: s_def t_def)
  define p where "p = (s + 4095) div 4096"
  define q where "q = t div 4096"
  define c where "c = (if start AND mask 12 \<noteq> 0 then start + 0x1000 else start) AND NOT (mask 12)"
  define e where "e = end' AND NOT (mask 12)"
  have ue: "unat e = 0x40000000 + 4096 * q" unfolding e_def unat_and_not_mask st(2) q_def using div_mult_self2 [of 4096 t "0x40000"] by (simp add: add.commute)
  have z: "(start AND mask 12 = 0) = (s mod 4096 = 0)"
  proof -
    have "unat (start AND mask 12) = s mod 4096" unfolding unat_and_mask st(1) using mod_mult_self2 [of s 4096 "0x40000"] by (simp add: add.commute)
    then show ?thesis by (metis unat_eq_zero)
  qed
  have "unat (if start AND mask 12 \<noteq> 0 then start + 0x1000 else start) = 0x40000000 + (if s mod 4096 = 0 then s else s + 4096)"
    using z st by (simp add: unat_word_ariths)
  then have "unat c = (0x40000000 + (if s mod 4096 = 0 then s else s + 4096)) div 4096 * 4096" unfolding c_def unat_and_not_mask by simp
  also have "\<dots> = 0x40000000 + 4096 * p" unfolding p_def by (rule round_up)
  finally have uc: "unat c = 0x40000000 + 4096 * p" .
  have run: "free_pages_range img_head start end' st = free_pages_loop img_head end' c e st"
    by (simp add: free_pages_range_def c_def e_def)
  let ?R = "{x. used st x = Some (PAGE_TYPE_RESERVED, 0) \<and> unat start \<le> 0x40000000 + 4096 * x \<and> 0x40000000 + 4096 * (x + 1) \<le> unat end'}"
  have R: "?R = reserved_in st p q" unfolding reserved_in_def st p_def q_def by auto
  have "\<exists>st'. free_pages_loop img_head end' c e st = Some (Inr st') \<and> mm_inv {} st' \<and>
    used st' = (\<lambda>x. if x \<in> reserved_in st p q then None else used st x) \<and> free_pages st' = free_pages st \<union> reserved_in st p q"
  proof (cases "p \<le> q")
    case True
    have "q \<le> NUM_OF_PAGES" "unat img_head \<le> 0x40000000 + 4096 * p" "e \<le> end'"
      using st assms(4) ue by (auto simp: q_def p_def NUM_OF_PAGES_def word_le_nat_alt)
    then show ?thesis using free_pages_loop_ok [OF assms(1,2) _ True uc ue] by blast
  next
    case False
    then have "\<not> c < e" "reserved_in st p q = {}" using uc ue by (auto simp: word_less_nat_alt reserved_in_def)
    then show ?thesis using assms(1) by (subst free_pages_loop.simps) simp
  qed
  then show ?thesis unfolding run Let_def R .
qed

theorem free_pages_range_exact_witness:
  "\<exists>st'. free_pages_range 0x40000000 0x40000010 0x40002FFF (mm_init_pages 0x38000000) = Some (Inr st') \<and>
     free_pages st' = {1}"
proof -
  let ?st = "mm_init_pages 0x38000000"
  have u: "used ?st = (\<lambda>i. if i < NUM_OF_PAGES then Some (PAGE_TYPE_RESERVED, 0) else None)"
    by (auto simp: used_def mm_init_pages_def)
  have r: "\<forall>x n. used ?st x = Some (PAGE_TYPE_RESERVED, n) \<longrightarrow> n = 0" by (simp add: u)
  have R: "{x. used ?st x = Some (PAGE_TYPE_RESERVED, 0) \<and> unat (0x40000010 :: u64) \<le> 0x40000000 + 4096 * x \<and>
      0x40000000 + 4096 * (x + 1) \<le> unat (0x40002FFF :: u64)} = {1}"
    by (auto simp: u NUM_OF_PAGES_def)
  obtain st' where "free_pages_range 0x40000000 0x40000010 0x40002FFF ?st = Some (Inr st')" "free_pages st' = free_pages ?st \<union> {1}"
    using free_pages_range_exact [OF mm_init_pages_inv(1) r, of "0x40000000" "0x40000010" "0x40002FFF"] unfolding R Let_def by auto
  then show ?thesis using mm_init_pages_inv(3) by auto
qed

section \<open>\<open>realloc\<close>\<close>

lemma allocsize_u32:
  assumes "n < 13"
  shows "unat (ucast (push_bit n 4096 :: u64) :: u32) = 4096 * 2 ^ n"
    "ucast (ucast (push_bit n 4096 :: u64) :: u32) = (push_bit n 4096 :: u64)"
proof -
  have b: "(2 :: nat) ^ n \<le> 2 ^ 12" using assms by (intro power_increasing) auto
  have w: "(push_bit n 4096 :: u64) = word_of_nat (4096 * 2 ^ n)" by (simp add: push_bit_eq_mult mult.commute)
  have u: "unat (push_bit n 4096 :: u64) = 4096 * 2 ^ n" unfolding w by (rule unat_of_nat_exact) (use b in simp)
  show v: "unat (ucast (push_bit n 4096 :: u64) :: u32) = 4096 * 2 ^ n" using b u by (simp add: unat_ucast_exact)
  show "ucast (ucast (push_bit n 4096 :: u64) :: u32) = (push_bit n 4096 :: u64)"
    unfolding word_unat_eq_iff using b u v by (simp add: unat_ucast_exact)
qed

lemma run_len:
  assumes inv: "heap_inv P T st" and r: "P p = Some (i, j)"
  shows "\<exists>w. get_alloc_len (addr p) st = Inr w \<and> unat w = 4096 * total_pages (i, j)"
proof -
  note ok = heap_invD(5) [OF inv r] and p = run_free(2) [OF inv r]
  have i: "i < 13" using ok by (cases j) (auto simp: run_ok_def)
  have v: "virt_to_page (addr p) = Inr p" by (rule virt_to_page_addr [OF p])
  show ?thesis
  proof (cases j)
    case None
    then have "used st p = Some (PAGE_TYPE_ALLOCATED, i)" using ok by (auto simp: run_ok_def dest: pages_used)
    then have "pg_type st p = PAGE_TYPE_ALLOCATED" "pg_allocsize st p = i" by (auto simp: used_Some)
    then show ?thesis using v i None allocsize_u32(1) [OF i] by (simp add: get_alloc_len_def Let_def)
  next
    case (Some m)
    then have u: "used st p = Some (PAGE_TYPE_ALLOCATED_CONT, i)" "2 ^ (i + 1) dvd p" "used st (p + 2 ^ i) = Some (PAGE_TYPE_ALLOCATED, m)" "m < i"
      using ok by (auto simp: run_ok_def dest: pages_used)
    then have t: "pg_type st p = PAGE_TYPE_ALLOCATED_CONT" "pg_allocsize st p = i" "pg_allocsize st (p + 2 ^ i) = m" by (auto simp: used_Some)
    have q: "virt_to_page (addr p OR push_bit i 4096) = Inr (p + 2 ^ i)"
    proof -
      have "even (p div 2 ^ i)" using u(2) by (auto elim!: dvdE)
      then show ?thesis using second_half_page [OF p i, of st] page_to_virt_addr [OF p, of st] by simp
    qed
    have b: "4096 * 2 ^ i + 4096 * 2 ^ m < (2 :: nat) ^ 32"
      using power_increasing [of i 12 "2 :: nat"] power_increasing [of m 12 "2 :: nat"] i u(4) by simp
    have "unat (ucast (push_bit i 4096 :: u64) + ucast (push_bit m 4096 :: u64) :: u32) = 4096 * 2 ^ i + 4096 * 2 ^ m"
      using allocsize_u32(1) [OF i] allocsize_u32(1) [of m] u(4) i b by (simp add: unat_word_ariths)
    then show ?thesis using v i u(4) Some t q allocsize_u32(2) [OF i] by (simp add: get_alloc_len_def Let_def)
  qed
qed

lemma live_len:
  assumes inv: "heap_inv P T st" and l: "l \<in> live P T st"
  shows "\<exists>w. get_alloc_len (loc_addr l) st = Inr w \<and> unat w = loc_size l"
proof (cases l)
  case (Run p i j)
  then show ?thesis using run_len [OF inv, of p i j] l by simp
next
  case (Chunk p i k)
  then have "plain T st (p, i) = Some k" using l by simp
  then have ch: "chunk st (p, i) = Some k" by (auto simp: plain_def restrict_map_def split: if_splits)
  show ?thesis using chunk_free(2) [OF heap_invD(2) [OF inv] ch] small_sizes(1) [OF chunk_bounds(2) [OF heap_invD(2) [OF inv] ch]] Chunk by simp
next
  case (Cell c t j)
  obtain p i where pi: "c = (p, i)" by (cases c)
  then have c: "((p, i), t, j) \<in> cells T st" using l Cell by simp
  show ?thesis
    using cell_free(2) [OF heap_invD(1) [OF inv] c] tiny_sizes(1) [of t] cell_block(7) [OF heap_invD(1) [OF inv] c] Cell pi by simp
qed

lemma small_least: "get_small_allocsize len = Some k \<Longrightarrow> k' < 5 \<Longrightarrow> unat len \<le> 128 * 2 ^ k' \<Longrightarrow> k \<le> k'"
proof (rule ccontr)
  assume a: "get_small_allocsize len = Some k" "k' < 5" "unat len \<le> 128 * 2 ^ k'" "\<not> k \<le> k'"
  then have "\<not> len \<le> SMALL_ALLOCSIZE k'"
    unfolding get_small_allocsize_def find_Some_iff NUM_OF_SMALL_ALLOCSIZE_def by auto
  then show False using a(3) small_sizes(1) [OF a(2)] by (simp add: word_le_nat_alt)
qed

lemma tiny_least: "get_tiny_allocsize len = Some t \<Longrightarrow> t' < 3 \<Longrightarrow> unat len \<le> 16 * 2 ^ t' \<Longrightarrow> t \<le> t'"
proof (rule ccontr)
  assume a: "get_tiny_allocsize len = Some t" "t' < 3" "unat len \<le> 16 * 2 ^ t'" "\<not> t \<le> t'"
  then have "\<not> len \<le> TINY_ALLOCSIZE t'"
    unfolding get_tiny_allocsize_def find_Some_iff NUM_OF_TINY_ALLOCSIZE_def by auto
  then show False using a(3) tiny_sizes(1) [OF a(2)] by (simp add: word_le_nat_alt)
qed

lemma get_tiny_allocsize_None: "get_tiny_allocsize len = None \<Longrightarrow> 64 < unat len"
proof -
  assume "get_tiny_allocsize len = None"
  then have "\<not> len \<le> TINY_ALLOCSIZE 2"
    unfolding get_tiny_allocsize_def find_None_iff NUM_OF_TINY_ALLOCSIZE_def by simp
  then show ?thesis using tiny_sizes(1) [of 2] by (simp add: word_le_nat_alt)
qed

lemma length_pages_eq:
  assumes "2048 < unat (len :: u32)" "unat len \<le> 4096 * 4096"
  shows "\<exists>n. (len + 4095) div 4096 = word_of_nat n \<and> 0 < n \<and> n \<le> 4096 \<and> n = (unat len + 4095) div 4096"
proof (intro exI conjI)
  let ?n = "(unat len + 4095) div 4096"
  have "unat ((len + 4095) div 4096) = ?n" using assms(2) by (simp add: unat_div unat_word_ariths)
  then show "(len + 4095) div 4096 = word_of_nat ?n" by (simp add: word_eq_of_nat)
  show "0 < ?n" "?n \<le> 4096" "?n = ?n" using assms by auto
qed

lemma pages_size_le:
  assumes "2048 < unat len" "unat len \<le> 0x1000000" "size_ok r" "unat len \<le> 4096 * total_pages r" "get_small_allocsize len = None"
  shows "\<exists>w. get_actual_allocate_size len = Inr w \<and> unat w \<le> 4096 * total_pages r"
proof -
  have "unat len \<le> 4096 * 4096" using assms(2) by simp
  then obtain n where n: "(len + 4095) div 4096 = word_of_nat n" "0 < n" "n \<le> 4096" "n = (unat len + 4095) div 4096"
    using length_pages_eq [OF assms(1)] by blast
  have le: "n \<le> total_pages r" unfolding n(4) using assms(4) by linarith
  obtain i j where ij: "get_alloc_pages_size (word_of_nat n) = Some (i, j)" "size_ok (i, j)" "total_pages (i, j) \<le> total_pages r"
    using get_alloc_pages_size_ok [OF n(2,3)] assms(3) le by (metis prod.collapse)
  have i: "i < 13" using ij(2) by (cases j) auto
  show ?thesis
  proof (cases j)
    case None
    then show ?thesis using ij assms(5) n(1) i allocsize_u32(1) [OF i] by (simp add: get_actual_allocate_size_def)
  next
    case (Some m)
    then have m: "m < 13" using ij(2) by simp
    have b: "4096 * 2 ^ i + 4096 * 2 ^ m < (2 :: nat) ^ 32"
      using power_increasing [of i 12 "2 :: nat"] power_increasing [of m 12 "2 :: nat"] i m by simp
    have "unat (ucast (push_bit i 4096 :: u64) + ucast (push_bit m 4096 :: u64) :: u32) = 4096 * 2 ^ i + 4096 * 2 ^ m"
      using allocsize_u32(1) [OF i] allocsize_u32(1) [OF m] b by (simp add: unat_word_ariths)
    then show ?thesis using Some ij assms(5) n(1) i m by (simp add: get_actual_allocate_size_def)
  qed
qed

lemma actual_size_le:
  assumes inv: "heap_inv P T st" and l: "l \<in> live P T st" and len: "unat len \<le> 0x1000000" "unat len \<le> loc_size l"
  shows "\<exists>w. get_actual_allocate_size len = Inr w \<and> unat w \<le> loc_size l"
proof -
  note ti = heap_invD(1) [OF inv] and si = heap_invD(2) [OF inv]
  consider (run) p i j where "l = Run p i j" "size_ok (i, j)" | (chunk) p i k where "l = Chunk p i k" "k < 5" | (cell) c t j where "l = Cell c t j" "t < 3"
  proof (cases rule: live_cases [OF inv l])
    case (1 p i j)
    then show thesis using that(1) heap_invD(5) [OF inv 1(2)] by (auto simp: run_ok_def)
  next
    case (2 p i k)
    then show thesis using that(2) chunk_bounds(2) [OF si 2(2)] by blast
  next
    case (3 p i t j)
    then show thesis using that(3) tiny_inv_cut(1) [OF ti 3(3)] by blast
  qed
  note c = this
  have small: "\<exists>w. get_actual_allocate_size len = Inr w \<and> unat w \<le> loc_size l" if s: "get_small_allocsize len = Some k" for k
  proof -
    note k = get_small_allocsize_Some [OF s]
    show ?thesis
    proof (cases "if k = 0 then get_tiny_allocsize len else None")
      case n: None
      then have w: "get_actual_allocate_size len = Inr (SMALL_ALLOCSIZE k)" using s by (simp add: get_actual_allocate_size_def)
      have "64 < unat len \<or> k \<noteq> 0" using n get_tiny_allocsize_None by (auto split: if_splits)
      then have big: "64 < unat len" using small_least [OF s, of 0] by fastforce
      have "128 * 2 ^ k \<le> loc_size l" using c
      proof cases
        case run
        have "(2 :: nat) ^ k \<le> 2 ^ 4" using k by (intro power_increasing) auto
        moreover have "1 \<le> total_pages (i, j)" using total_pages_pos [of "(i, j)"] by simp
        ultimately show ?thesis using run(1) by simp
      next
        case chunk
        then show ?thesis using small_least [OF s] len(2) by (simp add: power_increasing)
      next
        case cell
        have "(2 :: nat) ^ t \<le> 2 ^ 2" using cell(2) by (intro power_increasing) auto
        then show ?thesis using cell big len(2) by simp
      qed
      then show ?thesis using w small_sizes(1) k by auto
    next
      case t: (Some t)
      then have tt: "get_tiny_allocsize len = Some t" by (auto split: if_splits)
      have w: "get_actual_allocate_size len = Inr (TINY_ALLOCSIZE t)" using s t by (simp add: get_actual_allocate_size_def)
      note t3 = get_tiny_allocsize_Some [OF tt]
      have t64: "16 * (2 :: nat) ^ t \<le> 64" using power_increasing [of t 2 "2 :: nat"] t3 by simp
      have "16 * 2 ^ t \<le> loc_size l" using c
      proof cases
        case run
        then show ?thesis using t64 total_pages_pos [of "(i, j)"] by simp
      next
        case (chunk p i k)
        have "(1 :: nat) \<le> 2 ^ k" by simp
        then show ?thesis using t64 unfolding chunk(1) loc_size.simps by linarith
      next
        case (cell c t' j)
        then show ?thesis using tiny_least [OF tt] len(2) by (simp add: power_increasing)
      qed
      then show ?thesis using w tiny_sizes(1) t3 by auto
    qed
  qed
  show ?thesis
  proof (cases "get_small_allocsize len")
    case (Some k)
    then show ?thesis by (rule small)
  next
    case None
    note g = get_small_allocsize_None [OF None]
    show ?thesis using c
    proof cases
      case run
      then show ?thesis using pages_size_le [OF g len(1) run(2) _ None] len(2) by simp
    next
      case (chunk p i k)
      have "(2 :: nat) ^ k \<le> 2 ^ 4" using chunk by (intro power_increasing) auto
      then show ?thesis using chunk g len(2) by simp
    next
      case (cell c t j)
      have "(2 :: nat) ^ t \<le> 2 ^ 2" using cell by (intro power_increasing) auto
      then show ?thesis using cell g len(2) by simp
    qed
  qed
qed

lemma move_ok:
  assumes inv: "heap_inv P T st" and l: "l \<in> live P T st" and len: "unat len \<le> 0x1000000"
    and n: "n \<le> loc_size l" "n \<le> unat len" "unat cl = n"
  shows "realloc_move (loc_addr l) len cl st = Inl (Panic ''Out of memory'') \<or>
    (\<exists>v st'. realloc_move (loc_addr l) len cl st = Inr (v, st') \<and>
      (\<forall>k < n. contents st' (unat v + k) = contents st (unat (loc_addr l) + k)))"
  using alloc_ok [OF inv len]
proof (elim disjE exE conjE, goal_cases)
  case 1
  then show ?case by (simp add: realloc_move_def)
next
  case (2 l' st1 P' T')
  let ?v = "loc_addr l" and ?w = "loc_addr l'"
  let ?m = "memcpy (contents st1) (unat ?w) (unat ?v) n"
  have ne: "l' \<noteq> l" using 2(4) l by blast
  have d: "region l' \<inter> region l = {}" using live_disjoint [OF 2(3), of l' l] 2(5) l ne by blast
  have s: "unat ?w \<le> unat ?v \<or> unat ?v + n \<le> unat ?w"
  proof (rule ccontr)
    assume "\<not> ?thesis"
    then have "unat ?w \<in> region l" "unat ?w \<in> region l'" using n(1) loc_size_pos [of l'] by (auto simp: region_def)
    then show False using d by blast
  qed
  have i2: "heap_inv P' T' (st1\<lparr>contents := ?m\<rparr>)" using 2(3) by simp
  have l2: "l \<in> live P' T' (st1\<lparr>contents := ?m\<rparr>)" using 2(5) l by simp
  obtain st2 where f: "free ?v (st1\<lparr>contents := ?m\<rparr>) = Inr st2" "contents st2 = ?m"
    using free_ok [OF i2 l2] by auto
  have run: "realloc_move ?v len cl st = Inr (?w, st2)" using 2(1) f(1) n(3) by (simp add: realloc_move_def Let_def)
  have "contents st2 (unat ?w + k) = contents st (unat ?v + k)" if "k < n" for k
    unfolding f(2) memcpy_moved [OF s] using that 2(6) by (simp add: moved_def)
  then show ?case using run by blast
qed



end
