(* ===== verification/Printf.thy ===== *)
theory Printf
  imports Strtol
begin

text \<open>
  Formatted output, \<^verbatim>\<open>core/printf.c\<close>: the format parser, the conversions, the loop over
  the format and the two character sinks.

  A sink (the \<open>func\<close> and \<open>data\<close> of the source) is a function from the character and
  its state to whether it succeeded and the new state. The argument list holds the 64-bit
  slots of the LP64 calling convention; a \<open>char *\<close> argument is the string it points to, or
  \<open>None\<close> for \<open>NULL\<close>. Taking an argument that is not there or is of the other kind is
  \<open>Out_of_bounds\<close>. An \<open>int\<close> is a 32-bit word; a loop \<open>while (n--)\<close> runs
  \<open>unat n\<close> times.
\<close>

section \<open>Flags\<close>

definition FLAG_ALTERNATE_FORM :: u32 where "FLAG_ALTERNATE_FORM = 0x1"
definition FLAG_ZERO_PADDED :: u32 where "FLAG_ZERO_PADDED = 0x2"
definition FLAG_LEFT_ADJUSTED :: u32 where "FLAG_LEFT_ADJUSTED = 0x4"
definition FLAG_POSITIVE_BLANK :: u32 where "FLAG_POSITIVE_BLANK = 0x8"
definition FLAG_POSITIVE_SIGN :: u32 where "FLAG_POSITIVE_SIGN = 0x10"
definition HAS_WIDTH :: u32 where "HAS_WIDTH = 0x20"
definition HAS_PRECISION :: u32 where "HAS_PRECISION = 0x40"
definition LENGTH_SHORT :: u32 where "LENGTH_SHORT = 0x80"
definition LENGTH_CHAR :: u32 where "LENGTH_CHAR = 0x100"
definition LENGTH_LONG :: u32 where "LENGTH_LONG = 0x200"
definition LENGTH_LONGLONG :: u32 where "LENGTH_LONGLONG = 0x400"
definition LENGTH_INTMAX :: u32 where "LENGTH_INTMAX = 0x800"
definition LENGTH_SIZE :: u32 where "LENGTH_SIZE = 0x1000"
definition LENGTH_PTRDIFF :: u32 where "LENGTH_PTRDIFF = 0x2000"
definition CONVERSION_INT :: u32 where "CONVERSION_INT = 0x4000"
definition CONVERSION_DECIMAL :: u32 where "CONVERSION_DECIMAL = 0x8000"
definition CONVERSION_UINT :: u32 where "CONVERSION_UINT = 0x10000"
definition CONVERSION_OCTAL :: u32 where "CONVERSION_OCTAL = 0x20000"
definition CONVERSION_CAPITAL :: u32 where "CONVERSION_CAPITAL = 0x40000"
definition CONVERSION_HEXADECIMAL :: u32 where "CONVERSION_HEXADECIMAL = 0x80000"
definition CONVERSION_CHARACTER :: u32 where "CONVERSION_CHARACTER = 0x100000"
definition CONVERSION_CHARP :: u32 where "CONVERSION_CHARP = 0x200000"
definition CONVERSION_VOIDP :: u32 where "CONVERSION_VOIDP = 0x400000"
definition CONVERSION_NONE :: u32 where "CONVERSION_NONE = 0x800000"
definition END_STRING :: u32 where "END_STRING = 0x1000000"
definition FLAG_MINUS :: u32 where "FLAG_MINUS = 0x2000000"
definition FLAG_PLUS :: u32 where "FLAG_PLUS = 0x4000000"

lemmas flag_defs =
  FLAG_ALTERNATE_FORM_def FLAG_ZERO_PADDED_def FLAG_LEFT_ADJUSTED_def FLAG_POSITIVE_BLANK_def
  FLAG_POSITIVE_SIGN_def HAS_WIDTH_def HAS_PRECISION_def LENGTH_SHORT_def LENGTH_CHAR_def
  LENGTH_LONG_def LENGTH_LONGLONG_def LENGTH_INTMAX_def LENGTH_SIZE_def LENGTH_PTRDIFF_def
  CONVERSION_INT_def CONVERSION_DECIMAL_def CONVERSION_UINT_def CONVERSION_OCTAL_def
  CONVERSION_CAPITAL_def CONVERSION_HEXADECIMAL_def CONVERSION_CHARACTER_def CONVERSION_CHARP_def
  CONVERSION_VOIDP_def CONVERSION_NONE_def END_STRING_def FLAG_MINUS_def FLAG_PLUS_def

text \<open>The test \<open>f & flag\<close>.\<close>

definition has :: "u32 \<Rightarrow> u32 \<Rightarrow> bool" where
  "has f flag \<longleftrightarrow> f AND flag \<noteq> 0"

section \<open>The format parser\<close>

text \<open>The character under examination is the head of the rest of the format. \<open>None\<close> is the
  end of the string, on which the source returns \<open>END_STRING\<close>.\<close>

fun parse_flags :: "u32 \<Rightarrow> cstr \<Rightarrow> (u32 \<times> cstr) option" where
  "parse_flags r [] = None"
| "parse_flags r (c # s) =
     (if c = 0x23 then parse_flags (r OR FLAG_ALTERNATE_FORM) s
      else if c = 0x30 then parse_flags (r OR FLAG_ZERO_PADDED) s
      else if c = 0x2D then parse_flags (r OR FLAG_LEFT_ADJUSTED) s
      else if c = 0x20 then parse_flags (r OR FLAG_POSITIVE_BLANK) s
      else if c = 0x2B then parse_flags (r OR FLAG_POSITIVE_SIGN) s
      else Some (r, c # s))"

definition dec_digit :: "u8 \<Rightarrow> bool" where
  "dec_digit c \<longleftrightarrow> 0x30 \<le> c \<and> c \<le> 0x39"

fun parse_width :: "u32 \<Rightarrow> u32 \<Rightarrow> cstr \<Rightarrow> (u32 \<times> u32 \<times> cstr) option" where
  "parse_width r width [] = None"
| "parse_width r width (c # s) =
     (if dec_digit c then parse_width (r OR HAS_WIDTH) (width * 10 + ucast (c - 0x30)) s
      else Some (r, width, c # s))"

fun parse_precision :: "u32 \<Rightarrow> cstr \<Rightarrow> (u32 \<times> cstr) option" where
  "parse_precision precision [] = None"
| "parse_precision precision (c # s) =
     (if dec_digit c then parse_precision (precision * 10 + ucast (c - 0x30)) s
      else Some (precision, c # s))"

fun parse_length :: "u32 \<Rightarrow> cstr \<Rightarrow> (u32 \<times> cstr) option" where
  "parse_length r [] = None"
| "parse_length r (c # s) =
     (if c = 0x68 then parse_length (r OR (if has r LENGTH_SHORT then LENGTH_CHAR else LENGTH_SHORT)) s
      else if c = 0x6C then parse_length (r OR (if has r LENGTH_LONG then LENGTH_LONGLONG else LENGTH_LONG)) s
      else if c = 0x6A then parse_length (r OR LENGTH_INTMAX) s
      else if c = 0x7A then parse_length (r OR LENGTH_SIZE) s
      else if c = 0x74 then parse_length (r OR LENGTH_PTRDIFF) s
      else Some (r, c # s))"

definition parse_conversion :: "u8 \<Rightarrow> u32" where
  "parse_conversion c =
     (if c = 0x64 \<or> c = 0x69 then CONVERSION_INT OR CONVERSION_DECIMAL
      else if c = 0x6F then CONVERSION_UINT OR CONVERSION_OCTAL
      else if c = 0x75 then CONVERSION_UINT OR CONVERSION_DECIMAL
      else if c = 0x58 then CONVERSION_CAPITAL OR CONVERSION_UINT OR CONVERSION_HEXADECIMAL
      else if c = 0x78 then CONVERSION_UINT OR CONVERSION_HEXADECIMAL
      else if c = 0x63 then CONVERSION_INT OR CONVERSION_CHARACTER
      else if c = 0x73 then CONVERSION_CHARP
      else if c = 0x70 then CONVERSION_VOIDP OR CONVERSION_HEXADECIMAL OR FLAG_ALTERNATE_FORM
      else if c = 0x25 then CONVERSION_NONE
      else 0)"

text \<open>Flags, width, precision and the rest of the format.\<close>

definition parse_format :: "cstr \<Rightarrow> u32 \<times> u32 \<times> u32 \<times> cstr" where
  "parse_format s =
     (case parse_flags 0 s of
        None \<Rightarrow> (END_STRING, 0, 0, [])
      | Some (r, s) \<Rightarrow>
     (case parse_width r 0 s of
        None \<Rightarrow> (END_STRING, 0, 0, [])
      | Some (r, width, s) \<Rightarrow>
     (case (if cur s = 0x2E
            then map_option (\<lambda>(precision, s). (r OR HAS_PRECISION, precision, s)) (parse_precision 0 (tl s))
            else Some (r, 0, s)) of
        None \<Rightarrow> (END_STRING, 0, 0, [])
      | Some (r, precision, s) \<Rightarrow>
     (case parse_length r s of
        None \<Rightarrow> (END_STRING, 0, 0, [])
      | Some (r, s) \<Rightarrow> (r OR parse_conversion (cur s), width, precision, tl s)))))"

section \<open>Conversions\<close>

definition sub10 :: "u64 list" where
  "sub10 = [10000000000000000000, 1000000000000000000, 100000000000000000, 10000000000000000,
    1000000000000000, 100000000000000, 10000000000000, 1000000000000, 100000000000, 10000000000,
    1000000000, 100000000, 10000000, 1000000, 100000, 10000, 1000, 100, 10, 1, 0]"

definition sub8 :: "u64 list" where
  "sub8 = [0x8000000000000000, 0x1000000000000000, 0x200000000000000, 0x40000000000000,
    0x8000000000000, 0x1000000000000, 0x200000000000, 0x40000000000, 0x8000000000, 0x1000000000,
    0x200000000, 0x40000000, 0x8000000, 0x1000000, 0x200000, 0x40000, 0x8000, 0x1000, 0x200, 0x40,
    0x8, 0x1, 0]"

definition sub16 :: "u64 list" where
  "sub16 = [0x1000000000000000, 0x100000000000000, 0x10000000000000, 0x1000000000000,
    0x100000000000, 0x10000000000, 0x1000000000, 0x100000000, 0x10000000, 0x1000000, 0x100000,
    0x10000, 0x1000, 0x100, 0x10, 0x1, 0]"

function sub_digit :: "u64 \<Rightarrow> u64 \<Rightarrow> nat \<Rightarrow> nat \<times> u64" where
  "sub_digit val s digit = (if s \<noteq> 0 \<and> s \<le> val then sub_digit (val - s) s (digit + 1) else (digit, val))"
  by pat_completeness auto
termination
  by (relation "measure (\<lambda>(val, s, digit). unat val)")
    (auto simp: unat_sub word_le_nat_alt word_unat_eq_iff)

declare sub_digit.simps [simp del]

text \<open>\<open>while (val < *sub) sub++\<close>\<close>

fun skip_sub :: "u64 \<Rightarrow> u64 list \<Rightarrow> u64 list res" where
  "skip_sub val [] = Inl Out_of_bounds"
| "skip_sub val (s # sub) = (if val < s then skip_sub val sub else Inr (s # sub))"

definition nth_char :: "cstr \<Rightarrow> nat \<Rightarrow> u8 res" where
  "nth_char str i = (if i < length str then Inr (str ! i) else Inl Out_of_bounds)"

text \<open>The digits, with their number \<open>n\<close> so far checked against the 32 bytes of \<open>buf\<close>.\<close>

fun valconv_loop :: "u64 \<Rightarrow> u64 list \<Rightarrow> cstr \<Rightarrow> nat \<Rightarrow> cstr res" where
  "valconv_loop val [] str n = Inl Out_of_bounds"
| "valconv_loop val (s # sub) str n =
     (if s = 0 then Inr []
      else let (digit, val) = sub_digit val s 0 in
        res_bind (nth_char str digit) (\<lambda>c.
        if n < 32 then res_bind (valconv_loop val sub str (n + 1)) (\<lambda>cs. Inr (c # cs))
        else Inl Out_of_bounds))"

definition valconv :: "u64 \<Rightarrow> u64 list \<Rightarrow> cstr \<Rightarrow> cstr res" where
  "valconv val sub str =
     (if val = 0 then Inr [0x30]
      else res_bind (skip_sub val sub) (\<lambda>sub. valconv_loop val sub str 0))"

text \<open>\<open>PUTCHAR\<close> in sequence: the number of characters accepted before the first failure, and
  whether there was none.\<close>

type_synonym 's sink = "u32 \<Rightarrow> 's \<Rightarrow> bool \<times> 's"

fun put_all :: "'s sink \<Rightarrow> u32 list \<Rightarrow> u32 \<Rightarrow> 's \<Rightarrow> u32 \<times> bool \<times> 's" where
  "put_all func [] n data = (n, True, data)"
| "put_all func (c # cs) n data =
     (case func c data of
        (False, data) \<Rightarrow> (n, False, data)
      | (True, data) \<Rightarrow> put_all func cs (n + 1) data)"

text \<open>The characters of \<open>do_conversion_int\<close>: blanks, sign or base prefix, zeros, digits, blanks.\<close>

definition int_digits :: "u64 \<Rightarrow> u32 \<Rightarrow> cstr res" where
  "int_digits val f =
     (if has f CONVERSION_DECIMAL then valconv val sub10 (bytes ''0123456789'')
      else if has f CONVERSION_OCTAL then valconv val sub8 (bytes ''01234567'')
      else if has f CONVERSION_HEXADECIMAL \<and> has f CONVERSION_CAPITAL
        then valconv val sub16 (bytes ''0123456789ABCDEF'')
      else if has f CONVERSION_HEXADECIMAL then valconv val sub16 (bytes ''0123456789abcdef'')
      else Inr [])"

definition int_prefix :: "u64 \<Rightarrow> u32 \<Rightarrow> u32 \<Rightarrow> cstr" where
  "int_prefix val f leftzero =
     (let leftbuf =
        (if \<not> has f CONVERSION_DECIMAL \<and> has f FLAG_ALTERNATE_FORM \<and> val \<noteq> 0 then
           (if has f CONVERSION_OCTAL \<and> leftzero = 0 then bytes ''0''
            else if has f CONVERSION_HEXADECIMAL then
              (if has f CONVERSION_CAPITAL then bytes ''0X'' else bytes ''0x'')
            else [])
         else [])
      in if has f CONVERSION_DECIMAL then
           (if has f FLAG_PLUS then
              (if has f FLAG_POSITIVE_SIGN then bytes ''+''
               else if has f FLAG_POSITIVE_BLANK then bytes '' ''
               else leftbuf)
            else if has f FLAG_MINUS then bytes ''-''
            else leftbuf)
         else leftbuf)"

definition chars :: "cstr \<Rightarrow> u32 list" where
  "chars s = map scast s"

definition int_chars :: "u64 \<Rightarrow> u32 \<Rightarrow> u32 \<Rightarrow> u32 \<Rightarrow> u32 list res" where
  "int_chars val f width precision =
     (if has f CONVERSION_CHARACTER then Inr [ucast val]
      else if has f HAS_PRECISION \<and> precision = 0 \<and> val = 0 then Inr []
      else
        res_bind (int_digits val f) (\<lambda>buf.
        let len = word_of_nat (length buf);
            leftzero = (if has f HAS_PRECISION \<and> len <s precision then precision - len else 0);
            leftbuf = int_prefix val f leftzero;
            leftlen = word_of_nat (length leftbuf);
            pad = has f HAS_WIDTH \<and> leftlen + leftzero + len <s width;
            rightsp = (if pad \<and> has f FLAG_LEFT_ADJUSTED then width - (leftlen + leftzero + len) else 0);
            leftsp = (if pad \<and> \<not> has f FLAG_LEFT_ADJUSTED then width - (leftlen + leftzero + len) else 0);
            (leftzero, leftsp) =
              (if has f FLAG_ZERO_PADDED \<and> \<not> has f HAS_PRECISION then (leftzero + leftsp, 0)
               else (leftzero, leftsp))
        in Inr (replicate (unat leftsp) 0x20 @ chars leftbuf @ replicate (unat leftzero) 0x30 @
                chars buf @ replicate (unat rightsp) 0x20)))"

definition do_conversion_int ::
    "u64 \<Rightarrow> u32 \<Rightarrow> u32 \<Rightarrow> u32 \<Rightarrow> 's sink \<Rightarrow> 's \<Rightarrow> (u32 \<times> 's) res" where
  "do_conversion_int val f width precision func data =
     res_bind (int_chars val f width precision) (\<lambda>cs.
       case put_all func cs 0 data of (n, _, data) \<Rightarrow> Inr (n, data))"

text \<open>The length of the string, cut at the precision: \<open>len\<close> counts up from 0 and is compared
  as an \<open>int\<close>.\<close>

fun strlen_upto :: "u32 \<Rightarrow> u32 \<Rightarrow> cstr \<Rightarrow> u32 \<Rightarrow> u32" where
  "strlen_upto f precision s len =
     (if has f HAS_PRECISION \<and> precision \<le>s len then len
      else case s of [] \<Rightarrow> len | _ # s \<Rightarrow> strlen_upto f precision s (len + 1))"

definition string_chars :: "cstr \<Rightarrow> u32 \<Rightarrow> u32 \<Rightarrow> u32 \<Rightarrow> u32 list" where
  "string_chars str f width precision =
     (let len = strlen_upto f precision str 0;
          pad = has f HAS_WIDTH \<and> len <s width;
          rightsp = (if pad \<and> has f FLAG_LEFT_ADJUSTED then width - len else 0);
          leftsp = (if pad \<and> \<not> has f FLAG_LEFT_ADJUSTED then width - len else 0)
      in replicate (unat leftsp) 0x20 @ chars (take (unat len) str) @ replicate (unat rightsp) 0x20)"

definition do_conversion_string ::
    "cstr \<Rightarrow> u32 \<Rightarrow> u32 \<Rightarrow> u32 \<Rightarrow> 's sink \<Rightarrow> 's \<Rightarrow> u32 \<times> 's" where
  "do_conversion_string str f width precision func data =
     (case put_all func (string_chars str f width precision) 0 data of (n, _, data) \<Rightarrow> (n, data))"

section \<open>The loop over the format\<close>

datatype arg = Num u64 | Str "cstr option"

fun va_num :: "arg list \<Rightarrow> (u64 \<times> arg list) res" where
  "va_num (Num v # ap) = Inr (v, ap)"
| "va_num _ = Inl Out_of_bounds"

fun va_str :: "arg list \<Rightarrow> (cstr option \<times> arg list) res" where
  "va_str (Str s # ap) = Inr (s, ap)"
| "va_str _ = Inl Out_of_bounds"

definition length_flags :: "u32 \<Rightarrow> u32" where
  "length_flags f =
     (if has f LENGTH_INTMAX then f OR LENGTH_LONGLONG
      else if has f LENGTH_SIZE then f OR LENGTH_LONG
      else if has f LENGTH_PTRDIFF then f OR LENGTH_LONG
      else f)"

definition int_wide :: "u32 \<Rightarrow> bool" where
  "int_wide f \<longleftrightarrow> \<not> has f LENGTH_CHAR \<and> \<not> has f LENGTH_SHORT \<and> (has f LENGTH_LONGLONG \<or> has f LENGTH_LONG)"

text \<open>\<open>va_arg (ap, int)\<close> and its kin: the low 32 bits of the slot, sign- or zero-extended, or
  all 64 bits.\<close>

definition arg_int :: "u32 \<Rightarrow> u64 \<Rightarrow> u64" where
  "arg_int f v = (if int_wide f then v else scast (ucast v :: u32))"

definition arg_uint :: "u32 \<Rightarrow> u64 \<Rightarrow> u64" where
  "arg_uint f v = (if int_wide f then v else ucast (ucast v :: u32))"

definition conversion ::
    "u32 \<Rightarrow> u32 \<Rightarrow> u32 \<Rightarrow> arg list \<Rightarrow> 's sink \<Rightarrow> 's \<Rightarrow> (u32 \<times> arg list \<times> 's) res" where
  "conversion f width precision ap func data =
     (if has f CONVERSION_INT then
        res_bind (va_num ap) (\<lambda>(v, ap).
        let intval = arg_int f v;
            (uintval, f) = (if intval <s 0 then (- intval, f OR FLAG_MINUS) else (intval, f OR FLAG_PLUS))
        in res_bind (do_conversion_int uintval f width precision func data) (\<lambda>(n, data). Inr (n, ap, data)))
      else if has f CONVERSION_UINT then
        res_bind (va_num ap) (\<lambda>(v, ap).
        res_bind (do_conversion_int (arg_uint f v) f width precision func data) (\<lambda>(n, data). Inr (n, ap, data)))
      else if has f CONVERSION_VOIDP then
        res_bind (va_num ap) (\<lambda>(v, ap).
        res_bind (do_conversion_int v f width precision func data) (\<lambda>(n, data). Inr (n, ap, data)))
      else if has f CONVERSION_CHARP then
        res_bind (va_str ap) (\<lambda>(s, ap).
        let charpval = (case s of None \<Rightarrow> bytes ''(null)'' | Some s \<Rightarrow> s);
            (n, data) = do_conversion_string charpval f width precision func data
        in Inr (n, ap, data))
      else
        let (n, data) = do_conversion_string (bytes ''FORMAT ERROR'') CONVERSION_CHARP 0 0 func data
        in Inr (n, ap, data))"

lemma parse_flags_length: "parse_flags r s = Some (r', s') \<Longrightarrow> length s' \<le> length s \<and> s' \<noteq> []"
  by (induction r s rule: parse_flags.induct) (auto split: if_splits)

lemma parse_width_length: "parse_width r w s = Some (r', w', s') \<Longrightarrow> length s' \<le> length s \<and> s' \<noteq> []"
  by (induction r w s rule: parse_width.induct) (auto split: if_splits)

lemma parse_precision_length: "parse_precision p s = Some (p', s') \<Longrightarrow> length s' \<le> length s \<and> s' \<noteq> []"
  by (induction p s rule: parse_precision.induct) (auto split: if_splits)

lemma parse_length_length: "parse_length r s = Some (r', s') \<Longrightarrow> length s' \<le> length s \<and> s' \<noteq> []"
  by (induction r s rule: parse_length.induct) (auto split: if_splits)

lemma parse_format_length: "length (snd (snd (snd (parse_format s)))) \<le> length s"
  by (auto simp: parse_format_def split: option.splits if_splits
      dest!: parse_flags_length parse_width_length parse_precision_length parse_length_length)

function do_printf :: "cstr \<Rightarrow> arg list \<Rightarrow> 's sink \<Rightarrow> u32 \<Rightarrow> 's \<Rightarrow> (u32 \<times> 's) res" where
  "do_printf [] ap func n data = Inr (n, data)"
| "do_printf (c # format) ap func n data =
     (if c = 0x25 then
        (case parse_format format of
           (f, width, precision, format) \<Rightarrow>
             let f = length_flags f in
             if f = END_STRING then Inr (n, data)
             else if has f CONVERSION_NONE then
               (case func 0x25 data of
                  (False, data) \<Rightarrow> Inr (n, data)
                | (True, data) \<Rightarrow> do_printf format ap func (n + 1) data)
             else
               res_bind (conversion f width precision ap func data) (\<lambda>(m, ap, data).
                 do_printf format ap func (n + m) data))
      else
        (case func (scast c) data of
           (False, data) \<Rightarrow> Inr (n, data)
         | (True, data) \<Rightarrow> do_printf format ap func (n + 1) data))"
  by pat_completeness auto
termination
proof (relation "measure (\<lambda>(format, ap, func, n, data). length format)", goal_cases)
  case (2 c format ap func n data f x width y precision s f')
  then show ?case using parse_format_length [of format] by (auto dest: sym)
next
  case (3 c format ap func n data f x width y precision s f' m z ap' d)
  then show ?case using parse_format_length [of format] by (auto dest: sym)
qed simp_all

section \<open>The sinks and the entry points\<close>

definition do_putchar :: "(u8 \<Rightarrow> 's \<Rightarrow> 's) \<Rightarrow> 's sink" where
  "do_putchar putchar c data = (True, putchar (ucast c) data)"

record snputchar_data =
  sn_mem :: "nat \<Rightarrow> u8"
  sn_buf :: nat
  sn_len :: u64

definition do_snputchar :: "snputchar_data sink" where
  "do_snputchar c p =
     (if sn_len p = 0 then (False, p)
      else
        let p = p\<lparr>sn_len := sn_len p - 1\<rparr>;
            c = (if sn_len p = 0 then 0 else c)
        in (True, p\<lparr>sn_mem := (sn_mem p)(sn_buf p := ucast c), sn_buf := sn_buf p + 1\<rparr>))"

definition vprintf :: "(u8 \<Rightarrow> 's \<Rightarrow> 's) \<Rightarrow> cstr \<Rightarrow> arg list \<Rightarrow> 's \<Rightarrow> (u32 \<times> 's) res" where
  "vprintf putchar format ap data = do_printf format ap (do_putchar putchar) 0 data"

definition vsnprintf ::
    "(nat \<Rightarrow> u8) \<Rightarrow> nat \<Rightarrow> u64 \<Rightarrow> cstr \<Rightarrow> arg list \<Rightarrow> (u32 \<times> (nat \<Rightarrow> u8)) res" where
  "vsnprintf mem str bufsize format ap =
     res_bind (do_printf format ap do_snputchar 0 \<lparr>sn_mem = mem, sn_buf = str, sn_len = bufsize\<rparr>) (\<lambda>(r, data).
       Inr (r, sn_mem (snd (do_snputchar 0 data))))"

section \<open>Output does not depend on the sink\<close>

text \<open>The output of a format: what a sink that collects every character receives.\<close>

definition collect :: "cstr sink" where
  "collect c out = (True, out @ [ucast c])"

lemma collect_sel [simp]: "fst (collect c out)" "snd (collect c out) = out @ [ucast c]"
  by (simp_all add: collect_def)

lemma put_all_collect:
  "put_all collect cs n out = (n + word_of_nat (length cs), True, out @ map ucast cs)"
  by (induction cs arbitrary: n out) (simp_all add: collect_def)

text \<open>A sink that, in states related to an output, takes each next character or has failed for
  good and refuses every character.\<close>

locale sink_spec =
  fixes func :: "'s sink" and rel :: "cstr \<Rightarrow> 's \<Rightarrow> bool" and accepted :: "cstr \<Rightarrow> nat"
  assumes func_rel: "rel out data \<Longrightarrow> rel (out @ [ucast c]) (snd (func c data))"
    and func_ok: "rel out data \<Longrightarrow> fst (func c data) \<longleftrightarrow> accepted (out @ [ucast c]) = accepted out + 1"
    and func_fail: "rel out data \<Longrightarrow> \<not> fst (func c data) \<Longrightarrow> accepted (out @ xs) = accepted out"
    and func_stop: "rel out data \<Longrightarrow> \<not> fst (func c data) \<Longrightarrow> rel (out @ xs) data \<and> snd (func c data) = data"
begin

lemma put_all_rel:
  assumes "rel out data"
  shows "\<exists>ok data'. put_all func cs n data =
      (n + word_of_nat (accepted (out @ map ucast cs) - accepted out), ok, data') \<and>
      rel (out @ map ucast cs) data' \<and> accepted out \<le> accepted (out @ map ucast cs)"
  using assms
proof (induction cs arbitrary: n out data)
  case (Cons c cs)
  obtain ok d where f: "func c data = (ok, d)" by fastforce
  show ?case
  proof (cases ok)
    case True
    have r: "rel (out @ [ucast c]) d" "accepted (out @ [ucast c]) = accepted out + 1"
      using func_rel [OF Cons.prems, of c] func_ok [OF Cons.prems, of c] f True by auto
    obtain ok' d' where
      "put_all func cs (n + 1) d =
         (n + 1 + word_of_nat (accepted ((out @ [ucast c]) @ map ucast cs) - accepted (out @ [ucast c])), ok', d')"
      "rel ((out @ [ucast c]) @ map ucast cs) d'"
      "accepted (out @ [ucast c]) \<le> accepted ((out @ [ucast c]) @ map ucast cs)"
      using Cons.IH [OF r(1)] by blast
    then show ?thesis using f True r(2) by (auto simp: of_nat_diff add.assoc)
  next
    case False
    then show ?thesis
      using func_fail [OF Cons.prems, of c "map ucast (c # cs)"] func_stop [OF Cons.prems, of c "map ucast (c # cs)"] f
      by auto
  qed
qed auto

end

text \<open>The characters of one conversion.\<close>

definition conv_chars :: "u32 \<Rightarrow> u32 \<Rightarrow> u32 \<Rightarrow> arg list \<Rightarrow> (u32 list \<times> arg list) res" where
  "conv_chars f width precision ap =
     (if has f CONVERSION_INT then
        res_bind (va_num ap) (\<lambda>(v, ap).
        let intval = arg_int f v in
        res_bind (if intval <s 0 then int_chars (- intval) (f OR FLAG_MINUS) width precision
                  else int_chars intval (f OR FLAG_PLUS) width precision) (\<lambda>cs. Inr (cs, ap)))
      else if has f CONVERSION_UINT then
        res_bind (va_num ap) (\<lambda>(v, ap).
        res_bind (int_chars (arg_uint f v) f width precision) (\<lambda>cs. Inr (cs, ap)))
      else if has f CONVERSION_VOIDP then
        res_bind (va_num ap) (\<lambda>(v, ap). res_bind (int_chars v f width precision) (\<lambda>cs. Inr (cs, ap)))
      else if has f CONVERSION_CHARP then
        res_bind (va_str ap) (\<lambda>(s, ap).
        Inr (string_chars (case s of None \<Rightarrow> bytes ''(null)'' | Some s \<Rightarrow> s) f width precision, ap))
      else Inr (string_chars (bytes ''FORMAT ERROR'') CONVERSION_CHARP 0 0, ap))"

lemma do_conversion_int_chars:
  "res_bind (do_conversion_int val f width precision func data) (\<lambda>(n, data). Inr (n, ap, data)) =
   res_bind (res_bind (int_chars val f width precision) (\<lambda>cs. Inr (cs, ap))) (\<lambda>(cs, ap).
       case put_all func cs 0 data of (n, _, data) \<Rightarrow> Inr (n, ap, data))"
  by (cases "int_chars val f width precision") (simp_all add: do_conversion_int_def split: prod.split)

lemmas do_conversion_int_fst = do_conversion_int_chars [unfolded case_prod_unfold]

lemma conversion_chars:
  "conversion f width precision ap func data =
     res_bind (conv_chars f width precision ap) (\<lambda>(cs, ap).
       case put_all func cs 0 data of (n, _, data) \<Rightarrow> Inr (n, ap, data))"
proof (cases ap rule: va_num.cases)
  case (1 v ap')
  then show ?thesis
    unfolding conversion_def conv_chars_def
    by (simp add: do_conversion_int_fst do_conversion_string_def Let_def case_prod_unfold)
next
  case "2_1"
  then show ?thesis
    unfolding conversion_def conv_chars_def
    by (simp add: do_conversion_string_def Let_def case_prod_unfold)
next
  case "2_2"
  then show ?thesis
    unfolding conversion_def conv_chars_def
    by (simp add: do_conversion_string_def Let_def case_prod_unfold)
qed

lemma do_printf_literal:
  "c \<noteq> 0x25 \<Longrightarrow> do_printf (c # format) ap func n data =
     (if fst (func (scast c) data) then do_printf format ap func (n + 1) (snd (func (scast c) data))
      else Inr (n, snd (func (scast c) data)))"
  by (simp split: prod.split bool.split)

lemma do_printf_percent:
  assumes "parse_format format = (f, width, precision, format')"
  shows "do_printf (0x25 # format) ap func n data =
    (if length_flags f = END_STRING then Inr (n, data)
     else if has (length_flags f) CONVERSION_NONE then
       (if fst (func 0x25 data) then do_printf format' ap func (n + 1) (snd (func 0x25 data))
        else Inr (n, snd (func 0x25 data)))
     else res_bind (conv_chars (length_flags f) width precision ap) (\<lambda>(cs, ap).
       do_printf format' ap func (n + fst (put_all func cs 0 data)) (snd (snd (put_all func cs 0 data)))))"
  using assms by (simp add: Let_def conversion_chars res_bind_assoc case_prod_unfold split: bool.split)

declare do_printf.simps(2) [simp del]

text \<open>Induction over the items of a format.\<close>

lemma format_induct [case_names empty literal percent]:
  assumes "P []"
    and "\<And>c format. c \<noteq> 0x25 \<Longrightarrow> P format \<Longrightarrow> P (c # format)"
    and "\<And>format f width precision format'.
      parse_format format = (f, width, precision, format') \<Longrightarrow> P format' \<Longrightarrow> P (0x25 # format)"
  shows "P format"
proof (induction format rule: length_induct)
  case (1 format)
  show ?case
  proof (cases format)
    case Nil
    then show ?thesis using assms(1) by simp
  next
    case (Cons c s)
    show ?thesis
    proof (cases "c = 0x25")
      case True
      obtain f w p s' where pf: "parse_format s = (f, w, p, s')" by (metis prod_cases4)
      then have "P s'" using 1 Cons parse_format_length [of s] by simp
      then show ?thesis using assms(3) [OF pf] Cons True by simp
    next
      case False
      then show ?thesis using assms(2) 1 Cons by simp
    qed
  qed
qed

lemma do_printf_collect_prefix:
  "do_printf format ap collect k out = Inr (k', out') \<Longrightarrow> \<exists>xs. out' = out @ xs"
proof (induction format arbitrary: ap k out rule: format_induct)
  case (literal c format)
  then show ?case by (force simp: do_printf_literal)
next
  case (percent format f width precision format')
  show ?case
    using percent.prems
    unfolding do_printf_percent [OF percent.hyps(1)]
    by (auto simp: put_all_collect res_bind_Inr_iff split: if_splits dest!: percent.IH)
qed simp

context sink_spec
begin

lemma do_printf_rel:
  assumes "rel out data" "do_printf format ap collect k out = Inr (k', out')"
  shows "\<exists>data'. do_printf format ap func n data = Inr (n + word_of_nat (accepted out' - accepted out), data') \<and>
    rel out' data' \<and> accepted out \<le> accepted out'"
  using assms
proof (induction format arbitrary: ap k n out data rule: format_induct)
  case empty
  then show ?case by simp
next
  case (literal c format)
  have c: "do_printf format ap collect (k + 1) (out @ [ucast (scast c :: u32)]) = Inr (k', out')"
    using literal by (simp add: do_printf_literal)
  show ?case
  proof (cases "fst (func (scast c) data)")
    case True
    note r = func_rel [OF literal.prems(1), of "scast c"] func_ok [OF literal.prems(1), of "scast c"]
    show ?thesis
      using literal.IH [OF r(1) c, of "n + 1"] r(2) True literal.hyps(1)
      by (auto simp: do_printf_literal of_nat_diff add.assoc)
  next
    case False
    obtain xs where "out' = out @ xs" using do_printf_collect_prefix [OF literal.prems(2)] by blast
    then show ?thesis
      using func_fail [OF literal.prems(1) False, of xs] func_stop [OF literal.prems(1) False, of xs] literal.hyps(1) False
      by (auto simp: do_printf_literal)
  qed
next
  case (percent format f width precision format')
  let ?f = "length_flags f"
  note pc = do_printf_percent [OF percent.hyps(1)]
  consider "?f = END_STRING" | "?f \<noteq> END_STRING" "has ?f CONVERSION_NONE"
    | "?f \<noteq> END_STRING" "\<not> has ?f CONVERSION_NONE" by blast
  then show ?case
  proof cases
    case 1
    then show ?thesis using percent.prems by (simp add: pc)
  next
    case 2
    have c: "do_printf format' ap collect (k + 1) (out @ [ucast (0x25 :: u32)]) = Inr (k', out')"
      using percent.prems(2) 2 by (simp add: pc)
    show ?thesis
    proof (cases "fst (func 0x25 data)")
      case True
      note r = func_rel [OF percent.prems(1), of "0x25"] func_ok [OF percent.prems(1), of "0x25"]
      show ?thesis
        using percent.IH [OF r(1) c, of "n + 1"] r(2) True 2 by (auto simp: pc of_nat_diff add.assoc)
    next
      case False
      obtain xs where "out' = out @ xs" using do_printf_collect_prefix [OF percent.prems(2)] by blast
      then show ?thesis
        using func_fail [OF percent.prems(1) False, of xs] func_stop [OF percent.prems(1) False, of xs] 2 False
        by (auto simp: pc)
    qed
  next
    case 3
    then obtain cs ap' where cs: "conv_chars ?f width precision ap = Inr (cs, ap')"
      and c: "do_printf format' ap' collect (k + word_of_nat (length cs)) (out @ map ucast cs) = Inr (k', out')"
      using percent.prems(2) by (auto simp: pc res_bind_Inr_iff put_all_collect)
    obtain ok d where p: "put_all func cs 0 data = (word_of_nat (accepted (out @ map ucast cs) - accepted out), ok, d)"
        "rel (out @ map ucast cs) d" "accepted out \<le> accepted (out @ map ucast cs)"
      using put_all_rel [OF percent.prems(1), of cs 0] by auto
    show ?thesis
      using percent.IH [OF p(2) c, of "n + word_of_nat (accepted (out @ map ucast cs) - accepted out)"] cs p 3
      by (auto simp: pc of_nat_diff algebra_simps)
  qed
qed

end

text \<open>The buffer sink: the bytes it has written and the memory around them.\<close>

definition sn_bytes :: "nat \<Rightarrow> cstr \<Rightarrow> cstr" where
  "sn_bytes m out = (if length out < m then out else take m (butlast (take m out) @ [0]))"

definition stored :: "(nat \<Rightarrow> u8) \<Rightarrow> nat \<Rightarrow> cstr \<Rightarrow> nat \<Rightarrow> u8" where
  "stored mem str bs a = (if str \<le> a \<and> a < str + length bs then bs ! (a - str) else mem a)"

definition sn_rel :: "(nat \<Rightarrow> u8) \<Rightarrow> nat \<Rightarrow> u64 \<Rightarrow> cstr \<Rightarrow> snputchar_data \<Rightarrow> bool" where
  "sn_rel mem str bufsize out data \<longleftrightarrow>
     sn_mem data = stored mem str (sn_bytes (unat bufsize) out) \<and>
     sn_buf data = str + min (length out) (unat bufsize) \<and>
     unat (sn_len data) = unat bufsize - length out"

lemma length_sn_bytes [simp]: "length (sn_bytes m out) = min (length out) m"
  by (auto simp: sn_bytes_def)

lemma sn_bytes_full: "m \<le> length out \<Longrightarrow> sn_bytes m (out @ xs) = sn_bytes m out"
  by (auto simp: sn_bytes_def)

lemma sn_bytes_snoc:
  "length out < m \<Longrightarrow> sn_bytes m (out @ [c]) = out @ [if length out + 1 = m then 0 else c]"
  by (auto simp: sn_bytes_def)

lemma stored_snoc: "(stored mem str bs)(str + length bs := c) = stored mem str (bs @ [c])"
  by (auto simp: stored_def fun_eq_iff nth_append)

lemma sn_bytes_short: "length out < m \<Longrightarrow> sn_bytes m out = out"
  by (simp add: sn_bytes_def)

lemma do_snputchar_full: "sn_rel mem str bufsize out data \<Longrightarrow> unat bufsize \<le> length out \<Longrightarrow>
    do_snputchar c data = (False, data)"
  by (simp add: sn_rel_def do_snputchar_def unat_eq_0 [symmetric])

lemma do_snputchar_room:
  assumes "sn_rel mem str bufsize out data" "length out < unat bufsize"
  shows "fst (do_snputchar c data)" "sn_rel mem str bufsize (out @ [ucast c]) (snd (do_snputchar c data))"
proof -
  have l: "sn_len data \<noteq> 0" using assms by (auto simp: sn_rel_def)
  then have l1: "unat (sn_len data - 1) = unat bufsize - Suc (length out)"
    using assms unat_sub_exact [of 1 "sn_len data"] by (auto simp: sn_rel_def word_le_nat_alt unat_eq_0 [symmetric])
  have z: "sn_len data - 1 = 0 \<longleftrightarrow> length out + 1 = unat bufsize"
    using l1 assms(2) by (auto simp: unat_eq_0 [symmetric])
  show "fst (do_snputchar c data)" using l by (simp add: do_snputchar_def Let_def)
  show "sn_rel mem str bufsize (out @ [ucast c]) (snd (do_snputchar c data))"
    using assms l l1 z stored_snoc [of mem str out "if length out + 1 = unat bufsize then 0 else ucast c"]
    by (auto simp: sn_rel_def do_snputchar_def Let_def sn_bytes_snoc sn_bytes_short)
qed

interpretation sn: sink_spec do_snputchar "sn_rel mem str bufsize" "\<lambda>out. min (length out) (unat bufsize)"
  for mem str bufsize
proof
  fix out data c xs
  assume r: "sn_rel mem str bufsize out data"
  show "sn_rel mem str bufsize (out @ [ucast c]) (snd (do_snputchar c data))"
  proof (cases "length out < unat bufsize")
    case False
    then show ?thesis using do_snputchar_full [OF r] r by (simp add: sn_rel_def sn_bytes_full)
  qed (rule do_snputchar_room(2) [OF r])
  show "fst (do_snputchar c data) \<longleftrightarrow>
      min (length (out @ [ucast c])) (unat bufsize) = min (length out) (unat bufsize) + 1"
    using do_snputchar_full [OF r] do_snputchar_room(1) [OF r] by (cases "length out < unat bufsize") auto
  assume f: "\<not> fst (do_snputchar c data)"
  then have l: "unat bufsize \<le> length out" using do_snputchar_room(1) [OF r] by (meson not_le)
  then show "min (length (out @ xs)) (unat bufsize) = min (length out) (unat bufsize)" by simp
  show "sn_rel mem str bufsize (out @ xs) data \<and> snd (do_snputchar c data) = data"
    using l r do_snputchar_full [OF r l] by (simp add: sn_rel_def sn_bytes_full)
qed

lemma vsnprintf_ok:
  assumes "do_printf format ap collect 0 [] = Inr (k, out)"
  shows "vsnprintf mem str bufsize format ap =
    Inr (word_of_nat (min (length out) (unat bufsize)),
         stored mem str (if bufsize = 0 then [] else take (unat bufsize - 1) out @ [0]))"
proof -
  have r0: "sn_rel mem str bufsize [] \<lparr>sn_mem = mem, sn_buf = str, sn_len = bufsize\<rparr>"
    by (auto simp: sn_rel_def stored_def sn_bytes_def fun_eq_iff)
  obtain d where d: "do_printf format ap do_snputchar 0 \<lparr>sn_mem = mem, sn_buf = str, sn_len = bufsize\<rparr> =
      Inr (word_of_nat (min (length out) (unat bufsize)), d)" "sn_rel mem str bufsize out d"
    using sn.do_printf_rel [OF r0 assms, of 0] by auto
  have "sn_rel mem str bufsize (out @ [0]) (snd (do_snputchar 0 d))"
    using sn.func_rel [OF d(2), of 0] by simp
  then have "sn_mem (snd (do_snputchar 0 d)) = stored mem str (sn_bytes (unat bufsize) (out @ [0]))"
    by (simp add: sn_rel_def)
  moreover have "sn_bytes (unat bufsize) (out @ [0]) = (if bufsize = 0 then [] else take (unat bufsize - 1) out @ [0])"
    using unat_gt_0 [of bufsize] by (auto simp: sn_bytes_def butlast_append butlast_take)
  ultimately show ?thesis using d(1) by (simp add: vsnprintf_def)
qed

text \<open>
  C29. \<open>vsnprintf\<close> stays inside its buffer, whatever the format produces: of the output it
  stores as much as fits with a terminating NUL, it writes no byte outside the \<open>bufsize\<close> bytes
  of the buffer, a buffer of size 0 is not touched, and it returns the length of the output, or
  the size of the buffer when the output does not fit.
\<close>

theorem vsnprintf_bounded:
  assumes "do_printf format ap collect 0 [] = Inr (k, out)"
  shows "vsnprintf mem str bufsize format ap =
    Inr (word_of_nat (min (length out) (unat bufsize)),
         stored mem str (if bufsize = 0 then [] else take (unat bufsize - 1) out @ [0]))"
  using assms by (rule vsnprintf_ok)

theorem vsnprintf_bounded_witness:
  "vsnprintf (\<lambda>_. 7) 100 4 (bytes ''<%5d>'') [Num 42] = Inr (4, stored (\<lambda>_. 7) 100 (bytes ''<  '' @ [0]))"
proof -
  have "do_printf (bytes ''<%5d>'') [Num 42] collect 0 [] = Inr (7, bytes ''<   42>'')" by code_simp
  from vsnprintf_bounded [OF this, of "\<lambda>_. 7" 100 4] show ?thesis by (simp add: bytes_def)
qed

section \<open>Digits\<close>

text \<open>The tables: the powers of the base, downwards, and a 0.\<close>

fun pow_table :: "nat \<Rightarrow> nat \<Rightarrow> u64 list" where
  "pow_table b 0 = [0]"
| "pow_table b (Suc k) = word_of_nat (b ^ k) # pow_table b k"

lemma sub_tables: "sub10 = pow_table 10 20" "sub8 = pow_table 8 22" "sub16 = pow_table 16 16"
  by code_simp+

text \<open>The \<open>k\<close> lowest digits of a number, most significant first.\<close>

fun digs :: "nat \<Rightarrow> nat \<Rightarrow> nat \<Rightarrow> nat list" where
  "digs b 0 v = []"
| "digs b (Suc k) v = v div b ^ k # digs b k (v mod b ^ k)"

lemma length_digs [simp]: "length (digs b k v) = k"
  by (induction k arbitrary: v) simp_all

lemma digs_bound: "0 < b \<Longrightarrow> v < b ^ k \<Longrightarrow> d \<in> set (digs b k v) \<Longrightarrow> d < b"
proof (induction k arbitrary: v)
  case (Suc k)
  have "v mod b ^ k < b ^ k" using Suc.prems(1) by simp
  note Suc.IH [OF Suc.prems(1) this]
  then show ?case using Suc.prems by (auto simp: less_mult_imp_div_less)
qed simp

lemma sub_digit_eq:
  assumes "s \<noteq> 0"
  shows "sub_digit val s d = (d + unat val div unat s, val mod s)"
  using assms
proof (induction val s d rule: sub_digit.induct)
  case (1 val s d)
  have s: "0 < unat s" using "1.prems" unat_gt_0 by blast
  show ?case
  proof (cases "s \<le> val")
    case True
    then have u: "unat (val - s) = unat val - unat s" "unat s \<le> unat val"
      by (simp_all add: unat_sub_exact word_le_nat_alt)
    have m: "(val - s) mod s = val mod s"
      by (rule word_unat_eq_iff [THEN iffD2]) (use u s in \<open>simp add: unat_mod le_mod_geq\<close>)
    have "unat val div unat s = Suc ((unat val - unat s) div unat s)" using u s by (simp add: le_div_geq)
    then show ?thesis using 1 True u m by (subst sub_digit.simps) simp
  next
    case False
    then have "unat val < unat s" by (simp add: word_le_nat_alt)
    moreover have "val mod s = val"
      by (rule word_unat_eq_iff [THEN iffD2]) (use False in \<open>simp add: unat_mod word_le_nat_alt\<close>)
    ultimately show ?thesis using False by (subst sub_digit.simps) simp
  qed
qed

definition digit_string :: "nat \<Rightarrow> cstr \<Rightarrow> bool" where
  "digit_string b str \<longleftrightarrow> 2 \<le> b \<and> b \<le> 16 \<and> b \<le> length str \<and> (\<forall>d < b. digit_val (str ! d) = Some d)"

lemma numeral_val_Cons: "numeral_val b (c # cs) = the (digit_val c) * b ^ length cs + numeral_val b cs"
proof (induction cs rule: rev_induct)
  case Nil
  then show ?case using numeral_val_snoc [of b "[]" c] by simp
next
  case (snoc x cs)
  then show ?case using numeral_val_snoc [of b "c # cs" x] by (simp add: algebra_simps)
qed

lemma numeral_val_digs:
  assumes "digit_string b str" "v < b ^ k"
  shows "numeral_val b (map ((!) str) (digs b k v)) = v"
  using assms(2)
proof (induction k arbitrary: v)
  case (Suc k)
  have b: "0 < b" using assms(1) by (simp add: digit_string_def)
  have "v div b ^ k < b" using Suc.prems by (simp add: less_mult_imp_div_less)
  then have "the (digit_val (str ! (v div b ^ k))) = v div b ^ k" using assms(1) by (simp add: digit_string_def)
  moreover have "v mod b ^ k < b ^ k" using b by simp
  ultimately show ?case using Suc.IH [of "v mod b ^ k"] div_mult_mod_eq [of v "b ^ k"]
    by (simp add: numeral_val_Cons)
qed simp

lemma is_digit_digs:
  assumes "digit_string b str" "v < b ^ k" "c \<in> set (map ((!) str) (digs b k v))"
  shows "is_digit b c"
  using assms digs_bound [of b v k] by (auto simp: digit_string_def is_digit_def)

lemma digit_strings:
  "digit_string 10 (bytes ''0123456789'')" "digit_string 8 (bytes ''01234567'')"
  "digit_string 16 (bytes ''0123456789abcdef'')" "digit_string 16 (bytes ''0123456789ABCDEF'')"
proof -
  have l: "(\<forall>d < n. P d) \<longleftrightarrow> list_all P [0..<n]" for n and P :: "nat \<Rightarrow> bool" by (auto simp: list_all_iff)
  show "digit_string 10 (bytes ''0123456789'')" "digit_string 8 (bytes ''01234567'')"
  "digit_string 16 (bytes ''0123456789abcdef'')" "digit_string 16 (bytes ''0123456789ABCDEF'')"
    unfolding digit_string_def l by code_simp+
qed

locale digit_table =
  fixes b :: nat and str :: cstr
  assumes digits: "digit_string b str"
begin

lemma base: "2 \<le> b" "b \<le> 16" and str: "b \<le> length str"
  using digits by (simp_all add: digit_string_def)

lemma pow_word:
  assumes "b ^ k < 2 ^ 64"
  shows "unat (word_of_nat (b ^ k) :: u64) = b ^ k" "(word_of_nat (b ^ k) :: u64) \<noteq> 0"
proof -
  show u: "unat (word_of_nat (b ^ k) :: u64) = b ^ k" by (rule unat_of_nat_exact) (use assms in simp)
  have "0 < b ^ k" using base by simp
  then show "(word_of_nat (b ^ k) :: u64) \<noteq> 0" using u by (metis less_irrefl unat_0)
qed

lemma pow_pred: "b ^ k < m \<Longrightarrow> k = 0 \<or> b ^ (k - 1) < m"
proof (cases k)
  case (Suc j)
  have "1 * b ^ j \<le> b * b ^ j" using base by (intro mult_le_mono) auto
  then have "b ^ j \<le> b ^ k" unfolding Suc by (simp only: power_Suc mult_1)
  then show "b ^ k < m \<Longrightarrow> ?thesis" using Suc le_less_trans by (metis diff_Suc_1)
qed simp

lemma loop_digits:
  assumes "unat val < b ^ k" "k = 0 \<or> b ^ (k - 1) < 2 ^ 64" "n + k \<le> 32"
  shows "valconv_loop val (pow_table b k) str n = Inr (map ((!) str) (digs b k (unat val)))"
  using assms
proof (induction k arbitrary: val n)
  case (Suc k)
  note w = pow_word [of k]
  have k: "b ^ k < 2 ^ 64" using Suc.prems(2) by simp
  have "k = 0 \<or> b ^ (k - 1) < 2 ^ 64" by (rule pow_pred [OF k])
  moreover have "unat (val mod word_of_nat (b ^ k)) = unat val mod b ^ k" using w k by (simp add: unat_mod)
  moreover have "unat val mod b ^ k < b ^ k" using base by simp
  moreover have "unat val div b ^ k < length str"
    using Suc.prems(1) base str by (metis less_le_trans less_mult_imp_div_less power_Suc)
  ultimately show ?case
    using Suc.IH [of "val mod word_of_nat (b ^ k)" "n + 1"] Suc.prems(3) w k
    by (simp add: sub_digit_eq nth_char_def)
qed simp

lemma skip_table:
  assumes "val \<noteq> 0" "unat val < b ^ k" "k = 0 \<or> b ^ (k - 1) < 2 ^ 64"
  shows "\<exists>j. j < k \<and> b ^ j \<le> unat val \<and> unat val < b ^ Suc j \<and> b ^ j < 2 ^ 64 \<and>
    skip_sub val (pow_table b k) = Inr (pow_table b (Suc j))"
  using assms
proof (induction k)
  case (Suc k)
  have k: "b ^ k < 2 ^ 64" using Suc.prems(3) by simp
  note w = pow_word [OF k]
  show ?case
  proof (cases "unat val < b ^ k")
    case True
    have "k = 0 \<or> b ^ (k - 1) < 2 ^ 64" by (rule pow_pred [OF k])
    then obtain j where "j < k" "b ^ j \<le> unat val \<and> unat val < b ^ Suc j \<and> b ^ j < 2 ^ 64 \<and>
        skip_sub val (pow_table b k) = Inr (pow_table b (Suc j))"
      using Suc.IH [OF Suc.prems(1) True] by blast
    then show ?thesis using True w by (intro exI [of _ j]) (simp add: word_less_nat_alt)
  next
    case False
    then show ?thesis using Suc.prems k w by (intro exI [of _ k]) (simp add: word_less_nat_alt)
  qed
qed (simp add: unat_eq_0)

lemma valconv_digs:
  assumes "unat val < b ^ k" "k = 0 \<or> b ^ (k - 1) < 2 ^ 64" "k \<le> 32" "val \<noteq> 0"
  shows "\<exists>j < k. b ^ j \<le> unat val \<and> unat val < b ^ Suc j \<and>
    valconv val (pow_table b k) str = Inr (map ((!) str) (digs b (Suc j) (unat val)))"
proof -
  obtain j where j: "j < k" "b ^ j \<le> unat val" "unat val < b ^ Suc j" "b ^ j < 2 ^ 64"
      "skip_sub val (pow_table b k) = Inr (pow_table b (Suc j))"
    using skip_table [OF assms(4,1,2)] by blast
  have "valconv_loop val (pow_table b (Suc j)) str 0 = Inr (map ((!) str) (digs b (Suc j) (unat val)))"
    by (rule loop_digits) (use j assms(3) in auto)
  then show ?thesis using j assms(4) by (auto simp: valconv_def)
qed

lemma valconv_table:
  assumes k: "2 ^ 64 \<le> b ^ k" "b ^ (k - 1) < 2 ^ 64" "k \<le> 32" "0 < k"
  shows "\<exists>ds. valconv val (pow_table b k) str = Inr ds \<and> ds \<noteq> [] \<and> length ds \<le> k \<and>
    (\<forall>c \<in> set ds. is_digit b c) \<and> numeral_val b ds = unat val \<and> (hd ds = 0x30 \<longrightarrow> ds = [0x30])"
proof (cases "val = 0")
  case True
  have "digit_val 0x30 = Some 0" by code_simp
  then show ?thesis using True base k by (auto simp: valconv_def is_digit_def numeral_val_def)
next
  case False
  have "unat val < b ^ k" using k(1) unat_u64_less [of val] by linarith
  then obtain j where j: "j < k" "b ^ j \<le> unat val" "unat val < b ^ Suc j"
      "valconv val (pow_table b k) str = Inr (map ((!) str) (digs b (Suc j) (unat val)))"
    using valconv_digs [of val k] k False by blast
  let ?ds = "map ((!) str) (digs b (Suc j) (unat val))"
  have d: "0 < unat val div b ^ j" "unat val div b ^ j < b"
    using j base by (auto simp: div_greater_zero_iff less_mult_imp_div_less)
  then have "hd ?ds \<noteq> 0x30"
    using digits by (auto simp: digit_string_def digit_val_def)
  then show ?thesis
    using j is_digit_digs [OF digits j(3)] numeral_val_digs [OF digits j(3)] by (intro exI [of _ ?ds]) auto
qed

end

interpretation dec: digit_table 10 "bytes ''0123456789''" by unfold_locales (rule digit_strings)
interpretation oct: digit_table 8 "bytes ''01234567''" by unfold_locales (rule digit_strings)
interpretation hex: digit_table 16 "bytes ''0123456789abcdef''" by unfold_locales (rule digit_strings)
interpretation hexcap: digit_table 16 "bytes ''0123456789ABCDEF''" by unfold_locales (rule digit_strings)

text \<open>The number base and digits of a conversion.\<close>

definition radix :: "u32 \<Rightarrow> nat" where
  "radix f = (if has f CONVERSION_DECIMAL then 10 else if has f CONVERSION_OCTAL then 8 else 16)"

lemma int_digits_ok:
  assumes "has f CONVERSION_DECIMAL \<or> has f CONVERSION_OCTAL \<or> has f CONVERSION_HEXADECIMAL"
  shows "\<exists>ds. int_digits val f = Inr ds \<and> ds \<noteq> [] \<and> length ds \<le> 22 \<and>
    (\<forall>c \<in> set ds. is_digit (radix f) c) \<and> numeral_val (radix f) ds = unat val \<and> (hd ds = 0x30 \<longrightarrow> ds = [0x30])"
proof -
  have "\<exists>ds. valconv val sub10 (bytes ''0123456789'') = Inr ds \<and> ds \<noteq> [] \<and> length ds \<le> 20 \<and>
      (\<forall>c \<in> set ds. is_digit 10 c) \<and> numeral_val 10 ds = unat val \<and> (hd ds = 0x30 \<longrightarrow> ds = [0x30])"
    unfolding sub_tables by (rule dec.valconv_table) simp_all
  moreover have "\<exists>ds. valconv val sub8 (bytes ''01234567'') = Inr ds \<and> ds \<noteq> [] \<and> length ds \<le> 22 \<and>
      (\<forall>c \<in> set ds. is_digit 8 c) \<and> numeral_val 8 ds = unat val \<and> (hd ds = 0x30 \<longrightarrow> ds = [0x30])"
    unfolding sub_tables by (rule oct.valconv_table) simp_all
  moreover have "\<exists>ds. valconv val sub16 (bytes ''0123456789abcdef'') = Inr ds \<and> ds \<noteq> [] \<and> length ds \<le> 16 \<and>
      (\<forall>c \<in> set ds. is_digit 16 c) \<and> numeral_val 16 ds = unat val \<and> (hd ds = 0x30 \<longrightarrow> ds = [0x30])"
    unfolding sub_tables by (rule hex.valconv_table) simp_all
  moreover have "\<exists>ds. valconv val sub16 (bytes ''0123456789ABCDEF'') = Inr ds \<and> ds \<noteq> [] \<and> length ds \<le> 16 \<and>
      (\<forall>c \<in> set ds. is_digit 16 c) \<and> numeral_val 16 ds = unat val \<and> (hd ds = 0x30 \<longrightarrow> ds = [0x30])"
    unfolding sub_tables by (rule hexcap.valconv_table) simp_all
  ultimately show ?thesis using assms by (fastforce simp: int_digits_def radix_def)
qed

section \<open>Integer conversions\<close>

lemma sless_small:
  fixes a b :: u32
  assumes "unat a < 2 ^ 31" "unat b < 2 ^ 31"
  shows "a <s b \<longleftrightarrow> unat a < unat b"
  using assms by (simp add: word_sless_alt sint_small)

lemma length_int_prefix: "length (int_prefix val f z) \<le> 2"
  by (simp add: int_prefix_def bytes_def Let_def)

lemma int_chars_layout:
  assumes "\<not> has f CONVERSION_CHARACTER" "\<not> (has f HAS_PRECISION \<and> precision = 0 \<and> val = 0)"
    and ds: "int_digits val f = Inr ds" "length ds \<le> 22"
    and small: "unat width < 2 ^ 30" "unat precision < 2 ^ 30"
  shows "\<exists>sp z sp'. let zp = (if has f HAS_PRECISION then unat precision - length ds else 0);
        pre = int_prefix val f (word_of_nat zp) in
      int_chars val f width precision =
        Inr (replicate sp 0x20 @ chars pre @ replicate z 0x30 @ chars ds @ replicate sp' 0x20) \<and>
      zp \<le> z \<and> (sp = 0 \<or> sp' = 0) \<and>
      sp + length pre + z + length ds + sp' =
        max (if has f HAS_WIDTH then unat width else 0) (length pre + zp + length ds)"
proof -
  define len where "len = (word_of_nat (length ds) :: u32)"
  define zp where "zp = (if has f HAS_PRECISION then unat precision - length ds else 0)"
  define pre where "pre = int_prefix val f (word_of_nat zp)"
  define leftlen where "leftlen = (word_of_nat (length pre) :: u32)"
  have len: "unat len = length ds" unfolding len_def by (rule unat_of_nat_exact) (use ds(2) in simp)
  have pl: "length pre \<le> 2" by (simp add: pre_def length_int_prefix)
  have leftlen: "unat leftlen = length pre" unfolding leftlen_def by (rule unat_of_nat_exact) (use pl in simp)
  have lz: "(if has f HAS_PRECISION \<and> len <s precision then precision - len else 0) = word_of_nat zp"
    using len ds(2) small by (auto simp: zp_def sless_small of_nat_diff len_def)
  have zb: "zp < 2 ^ 30" using small(2) unfolding zp_def by simp linarith
  have zu: "unat (word_of_nat zp :: u32) = zp" by (rule unat_of_nat_exact) (use zb in simp)
  let ?nat = "length pre + zp + length ds"
  have nb: "?nat < 2 ^ 31" using zb pl ds(2) by simp
  have u1: "unat (leftlen + word_of_nat zp) = length pre + zp"
    using leftlen zu nb by (subst unat_add_exact) simp_all
  have u2: "unat (leftlen + word_of_nat zp + len) = ?nat"
    using u1 len nb by (subst unat_add_exact) simp_all
  have lt: "leftlen + word_of_nat zp + len <s width \<longleftrightarrow> ?nat < unat width"
    using u2 nb small(1) by (simp add: sless_small)
  define d where "d = width - (leftlen + word_of_nat zp + len)"
  have du: "unat d = unat width - ?nat" if "?nat < unat width"
    using that u2 unfolding d_def by (subst unat_sub_exact) (simp_all add: word_le_nat_alt)
  have zd: "unat (word_of_nat zp + d) = zp + unat d" if "?nat < unat width"
    using that zu du small(1) by (subst unat_add_exact) simp_all
  have eq: "int_chars val f width precision =
     (let pad = has f HAS_WIDTH \<and> ?nat < unat width;
          rightsp = (if pad \<and> has f FLAG_LEFT_ADJUSTED then d else 0);
          leftsp = (if pad \<and> \<not> has f FLAG_LEFT_ADJUSTED then d else 0);
          (leftzero, leftsp) = (if has f FLAG_ZERO_PADDED \<and> \<not> has f HAS_PRECISION then (word_of_nat zp + leftsp, 0)
               else (word_of_nat zp, leftsp))
      in Inr (replicate (unat leftsp) 0x20 @ chars pre @ replicate (unat leftzero) 0x30 @
                chars ds @ replicate (unat rightsp) 0x20))"
    using assms(1,2) ds(1)
    by (simp only: int_chars_def if_False Let_def res_bind_simps len_def [symmetric] lz pre_def [symmetric]
        leftlen_def [symmetric] lt d_def [symmetric])
  let ?pad = "has f HAS_WIDTH \<and> ?nat < unat width"
  let ?zeros = "has f FLAG_ZERO_PADDED \<and> \<not> has f HAS_PRECISION"
  show ?thesis
    unfolding zp_def [symmetric] pre_def [symmetric] Let_def eq
    by (rule exI [of _ "if ?pad \<and> \<not> has f FLAG_LEFT_ADJUSTED \<and> \<not> ?zeros then unat d else 0"],
        rule exI [of _ "if ?pad \<and> \<not> has f FLAG_LEFT_ADJUSTED \<and> ?zeros then zp + unat d else zp"],
        rule exI [of _ "if ?pad \<and> has f FLAG_LEFT_ADJUSTED then unat d else 0"])
      (use du zd zu in \<open>simp add: Let_def, linarith?\<close>)
qed



section \<open>Printing and parsing back\<close>

lemma ucast_scast_char [simp]: "map ucast (chars s) = s"
proof -
  have "ucast (scast (c :: u8) :: u32) = c" for c
    by (rule bit_eqI) (auto simp: bit_simps)
  then show ?thesis by (simp add: chars_def o_def)
qed

text \<open>An integer conversion without width, precision or other flags.\<close>

lemma int_chars_plain:
  assumes "\<not> has f CONVERSION_CHARACTER" "\<not> has f HAS_PRECISION" "\<not> has f HAS_WIDTH"
    and "int_digits val f = Inr ds"
  shows "int_chars val f 0 0 = Inr (chars (int_prefix val f 0) @ chars ds)"
  using assms by (simp add: int_chars_def Let_def)

lemma ld_output:
  assumes "neg \<longleftrightarrow> v <s 0"
  shows "\<exists>ds. do_printf (bytes ''%ld'') [Num v] collect 0 [] =
      Inr (word_of_nat (length (sign_chars (if neg then SIGN_MINUS else SIGN_NONE) @ ds)),
           sign_chars (if neg then SIGN_MINUS else SIGN_NONE) @ ds) \<and>
    ds \<noteq> [] \<and> length ds \<le> 22 \<and> (\<forall>c \<in> set ds. is_digit 10 c) \<and> numeral_val 10 ds = unat (if neg then - v else v)"
proof -
  let ?f = "LENGTH_LONG OR CONVERSION_INT OR CONVERSION_DECIMAL"
  have fmt: "bytes ''%ld'' = 0x25 # bytes ''ld''" by (simp add: bytes_def)
  have pf: "parse_format (bytes ''ld'') = (?f, 0, 0, [])" by code_simp
  have lf: "length_flags ?f = ?f" "?f \<noteq> END_STRING" "\<not> has ?f CONVERSION_NONE" "has ?f CONVERSION_INT" "int_wide ?f"
    by (simp_all add: length_flags_def int_wide_def has_def flag_defs)
  let ?g = "?f OR (if neg then FLAG_MINUS else FLAG_PLUS)" and ?w = "if neg then - v else v"
  have g: "\<not> has ?g CONVERSION_CHARACTER" "\<not> has ?g HAS_PRECISION" "\<not> has ?g HAS_WIDTH" "has ?g CONVERSION_DECIMAL"
      "\<not> has ?g FLAG_POSITIVE_SIGN" "\<not> has ?g FLAG_POSITIVE_BLANK" "has ?g FLAG_PLUS \<longleftrightarrow> \<not> neg" "has ?g FLAG_MINUS \<longleftrightarrow> neg"
    by (cases neg; simp add: has_def flag_defs)+
  have r: "radix ?g = 10" using g(4) by (simp only: radix_def if_True)
  obtain ds where ds: "int_digits ?w ?g = Inr ds" "ds \<noteq> []" "length ds \<le> 22" "\<forall>c \<in> set ds. is_digit 10 c"
      "numeral_val 10 ds = unat ?w"
    using int_digits_ok [of ?g ?w] g(4) unfolding r by blast
  have pre: "int_prefix ?w ?g 0 = sign_chars (if neg then SIGN_MINUS else SIGN_NONE)"
    using g(4-8) by (auto simp: int_prefix_def sign_chars_def bytes_def Let_def)
  have "int_chars ?w ?g 0 0 = Inr (chars (sign_chars (if neg then SIGN_MINUS else SIGN_NONE)) @ chars ds)"
    using int_chars_plain [OF g(1-3) ds(1)] unfolding pre .
  then have "conv_chars ?f 0 0 [Num v] = Inr (chars (sign_chars (if neg then SIGN_MINUS else SIGN_NONE)) @ chars ds, [])"
    using lf assms by (cases neg) (simp_all add: conv_chars_def arg_int_def Let_def)
  then have "do_printf (bytes ''%ld'') [Num v] collect 0 [] =
      Inr (word_of_nat (length (sign_chars (if neg then SIGN_MINUS else SIGN_NONE) @ ds)),
           sign_chars (if neg then SIGN_MINUS else SIGN_NONE) @ ds)"
    unfolding fmt do_printf_percent [OF pf] lf(1) using lf(2,3)
    by (simp add: put_all_collect chars_def [symmetric]) (simp add: chars_def)
  then show ?thesis using ds by blast
qed


end
