(* ===== verification/Msg.thy ===== *)
theory Msg
  imports Printf CString
begin

text \<open>
  The name registry of message services, \<^verbatim>\<open>core/msg.c\<close>: the lists of used and free entries
  and the operations on them, each the code between taking and releasing \<open>msg_lock\<close>.

  The registry is shown to be a map from names to services (\<open>reg\<close>): every run of operations on
  names that fit into the 16 bytes of an entry returns what the map operations return.
\<close>

section \<open>The registry\<close>

definition MSG_NAMELEN :: nat where "MSG_NAMELEN = 16"

record msg_data =
  m_name :: cstr
  m_pid :: u32
  m_gen :: u32
  m_desc :: u32

record msg =
  msg_used :: "msg_data list"
  msg_free :: "msg_data list"

definition msg_init_global :: msg where
  "msg_init_global = \<lparr>msg_used = [], msg_free = []\<rparr>"

text \<open>\<open>LIST1_FOREACH\<close> up to the first entry with a property: that entry and the list without it.\<close>

fun take_first :: "('a \<Rightarrow> bool) \<Rightarrow> 'a list \<Rightarrow> ('a \<times> 'a list) option" where
  "take_first P [] = None"
| "take_first P (x # xs) = (if P x then Some (x, xs) else map_option (\<lambda>(y, ys). (y, x # ys)) (take_first P xs))"

definition findname :: "cstr \<Rightarrow> msg_data list \<Rightarrow> (msg_data \<times> msg_data list) option" where
  "findname name ds = take_first (\<lambda>d. strcmp name (m_name d) = 0) ds"

definition msg_findname :: "cstr \<Rightarrow> msg \<Rightarrow> (u32 \<times> u32 \<times> u32) option" where
  "msg_findname name st = map_option (\<lambda>(d, _). (m_pid d, m_gen d, m_desc d)) (findname name (msg_used st))"

text \<open>\<open>snprintf (d->name, sizeof d->name, "%s", name)\<close> and the NUL behind it, on the bytes of the
  entry; the name is what a reader of the C string sees.\<close>

definition store_name :: "cstr \<Rightarrow> cstr res" where
  "store_name name =
     res_bind (vsnprintf (\<lambda>_. 0) 0 (word_of_nat MSG_NAMELEN) (bytes ''%s'') [Str (Some name)]) (\<lambda>(_, m).
       let m = m(MSG_NAMELEN - 1 := 0) in Inr (takeWhile (\<lambda>c. c \<noteq> 0) (map m [0..<MSG_NAMELEN])))"

definition msg_register :: "cstr \<Rightarrow> u32 \<Rightarrow> u32 \<Rightarrow> u32 \<Rightarrow> msg \<Rightarrow> (int \<times> msg) res" where
  "msg_register name pid gen desc st =
     (case findname name (msg_used st) of
        Some _ \<Rightarrow> Inr (- 1, st)
      | None \<Rightarrow>
          let free = (case msg_free st of [] \<Rightarrow> [] | _ # ds \<Rightarrow> ds) in
          res_bind (store_name name) (\<lambda>stored_name.
          let d = \<lparr>m_name = stored_name, m_pid = pid, m_gen = gen, m_desc = desc\<rparr>
          in Inr (0, st\<lparr>msg_used := msg_used st @ [d], msg_free := free\<rparr>)))"

definition msg_unregister :: "cstr \<Rightarrow> msg \<Rightarrow> int \<times> msg" where
  "msg_unregister name st =
     (case findname name (msg_used st) of
        None \<Rightarrow> (- 1, st)
      | Some (d, ds) \<Rightarrow> (0, st\<lparr>msg_used := ds, msg_free := msg_free st @ [d]\<rparr>))"

lemma take_first_length: "take_first P xs = Some (y, ys) \<Longrightarrow> length ys < length xs"
  by (induction xs arbitrary: ys) (auto split: if_splits)

text \<open>The loop that starts over after each entry it moves to the free list; the number of
  entries moved comes with the lists.\<close>

function move_all :: "(msg_data \<Rightarrow> bool) \<Rightarrow> msg \<Rightarrow> nat \<Rightarrow> nat \<times> msg" where
  "move_all P st n =
     (case take_first P (msg_used st) of
        None \<Rightarrow> (n, st)
      | Some (d, ds) \<Rightarrow> move_all P (st\<lparr>msg_used := ds, msg_free := msg_free st @ [d]\<rparr>) (n + 1))"
  by pat_completeness auto
termination
  by (relation "measure (\<lambda>(P, st, n). length (msg_used st))") (auto dest: take_first_length)

declare move_all.simps [simp del]

definition msg_unregisterall :: "u32 \<Rightarrow> msg \<Rightarrow> msg" where
  "msg_unregisterall pid st = snd (move_all (\<lambda>d. m_pid d = pid) st 0)"

definition msg_unregister2 :: "u32 \<Rightarrow> u32 \<Rightarrow> msg \<Rightarrow> int \<times> msg" where
  "msg_unregister2 pid desc st =
     (let (n, st) = move_all (\<lambda>d. m_pid d = pid \<and> m_desc d = desc) st 0
      in (if n = 0 then - 1 else 0, st))"

section \<open>The registry as a map\<close>

type_synonym registry = "cstr \<rightharpoonup> u32 \<times> u32 \<times> u32"

definition entry :: "msg_data \<Rightarrow> cstr \<times> u32 \<times> u32 \<times> u32" where
  "entry d = (m_name d, m_pid d, m_gen d, m_desc d)"

definition reg :: "msg \<Rightarrow> registry" where
  "reg st = map_of (map entry (msg_used st))"

definition name_ok :: "cstr \<Rightarrow> bool" where
  "name_ok name \<longleftrightarrow> cstr_ok name \<and> length name < MSG_NAMELEN"

definition msg_inv :: "msg \<Rightarrow> bool" where
  "msg_inv st \<longleftrightarrow> distinct (map m_name (msg_used st)) \<and> (\<forall>d \<in> set (msg_used st). name_ok (m_name d))"

text \<open>The operations, on the registry and on the map.\<close>

datatype msg_op = Register cstr u32 u32 u32 | Unregister cstr | Find cstr | Unregister_all u32
  | Unregister2 u32 u32

datatype msg_out = Ret int | Found "(u32 \<times> u32 \<times> u32) option"

fun msg_step :: "msg_op \<Rightarrow> msg \<Rightarrow> (msg_out \<times> msg) res" where
  "msg_step (Register name pid gen desc) st =
     res_bind (msg_register name pid gen desc st) (\<lambda>(r, st). Inr (Ret r, st))"
| "msg_step (Unregister name) st = (let (r, st) = msg_unregister name st in Inr (Ret r, st))"
| "msg_step (Find name) st = Inr (Found (msg_findname name st), st)"
| "msg_step (Unregister_all pid) st = Inr (Ret 0, msg_unregisterall pid st)"
| "msg_step (Unregister2 pid desc) st = (let (r, st) = msg_unregister2 pid desc st in Inr (Ret r, st))"

fun msg_run :: "msg_op list \<Rightarrow> msg \<Rightarrow> (msg_out list \<times> msg) res" where
  "msg_run [] st = Inr ([], st)"
| "msg_run (a # as) st =
     res_bind (msg_step a st) (\<lambda>(r, st). res_bind (msg_run as st) (\<lambda>(rs, st). Inr (r # rs, st)))"

fun spec_step :: "msg_op \<Rightarrow> registry \<Rightarrow> msg_out \<times> registry" where
  "spec_step (Register name pid gen desc) m =
     (if name \<in> dom m then (Ret (- 1), m) else (Ret 0, m(name \<mapsto> (pid, gen, desc))))"
| "spec_step (Unregister name) m = (if name \<in> dom m then (Ret 0, m(name := None)) else (Ret (- 1), m))"
| "spec_step (Find name) m = (Found (m name), m)"
| "spec_step (Unregister_all pid) m = (Ret 0, \<lambda>n. case m n of Some (p, g, d) \<Rightarrow> if p = pid then None else m n | None \<Rightarrow> None)"
| "spec_step (Unregister2 pid desc) m =
     (Ret (if \<exists>n g. m n = Some (pid, g, desc) then 0 else - 1),
      \<lambda>n. case m n of Some (p, g, d) \<Rightarrow> if p = pid \<and> d = desc then None else m n | None \<Rightarrow> None)"

fun spec_run :: "msg_op list \<Rightarrow> registry \<Rightarrow> msg_out list \<times> registry" where
  "spec_run [] m = ([], m)"
| "spec_run (a # as) m = (let (r, m) = spec_step a m; (rs, m) = spec_run as m in (r # rs, m))"

fun op_names_ok :: "msg_op \<Rightarrow> bool" where
  "op_names_ok (Register name _ _ _) \<longleftrightarrow> name_ok name"
| "op_names_ok (Unregister name) \<longleftrightarrow> name_ok name"
| "op_names_ok (Find name) \<longleftrightarrow> name_ok name"
| "op_names_ok _ \<longleftrightarrow> True"

section \<open>Storing a name\<close>

lemma strlen_upto_plain:
  "\<not> has f HAS_PRECISION \<Longrightarrow> strlen_upto f p s len = len + word_of_nat (length s)"
  by (induction s arbitrary: len) simp_all

lemma s_output:
  assumes "length s < 2 ^ 32"
  shows "do_printf (bytes ''%s'') [Str (Some s)] collect 0 [] = Inr (word_of_nat (length s), s)"
proof -
  have fmt: "bytes ''%s'' = 0x25 # bytes ''s''" by (simp add: bytes_def)
  have pf: "parse_format (bytes ''s'') = (CONVERSION_CHARP, 0, 0, [])" by code_simp
  let ?f = CONVERSION_CHARP
  have f: "length_flags ?f = ?f" "?f \<noteq> END_STRING" "\<not> has ?f CONVERSION_NONE" "\<not> has ?f CONVERSION_INT"
      "\<not> has ?f CONVERSION_UINT" "\<not> has ?f CONVERSION_VOIDP" "has ?f CONVERSION_CHARP" "\<not> has ?f HAS_WIDTH" "\<not> has ?f HAS_PRECISION"
    by (simp_all add: length_flags_def has_def flag_defs)
  have "unat (word_of_nat (length s) :: u32) = length s" by (rule unat_of_nat_exact) (use assms in simp)
  then have "conv_chars ?f 0 0 [Str (Some s)] = Inr (chars s, [])"
    using f strlen_upto_plain [OF f(9), of 0 s 0] by (simp add: conv_chars_def string_chars_def Let_def)
  then show ?thesis
    unfolding fmt do_printf_percent [OF pf] f(1) using f(2,3)
    by (simp add: put_all_collect) (simp add: chars_def)
qed

lemma takeWhile_nul: "0 \<notin> set s \<Longrightarrow> takeWhile (\<lambda>c. c \<noteq> (0 :: u8)) (s @ 0 # t) = s"
  by (subst takeWhile_append2) (auto simp del: takeWhile_append2)

lemma store_name_take:
  assumes "cstr_ok name" "length name < 2 ^ 32"
  shows "store_name name = Inr (take 15 name)"
proof -
  let ?t = "take 15 name" and ?m = "stored (\<lambda>_. 0) 0 (take 15 name @ [0])"
  have v: "vsnprintf (\<lambda>_. 0) 0 (word_of_nat MSG_NAMELEN) (bytes ''%s'') [Str (Some name)] =
      Inr (word_of_nat (min (length name) 16), ?m)"
    using vsnprintf_ok [OF s_output [OF assms(2)], of "\<lambda>_. 0" 0 "word_of_nat MSG_NAMELEN"]
    by (simp add: MSG_NAMELEN_def)
  have m: "map (?m(15 := 0)) [0..<16] = ?t @ 0 # replicate (15 - length ?t) 0"
    by (rule nth_equalityI) (auto simp: stored_def nth_append nth_Cons split: nat.split)
  have "0 \<notin> set ?t" using assms(1) by (auto simp: cstr_ok_def dest: in_set_takeD)
  then have "takeWhile (\<lambda>c. c \<noteq> 0) (map (?m(15 := 0)) [0..<16]) = ?t" unfolding m by (rule takeWhile_nul)
  then show ?thesis unfolding store_name_def v by (simp add: MSG_NAMELEN_def Let_def)
qed

lemma store_name_ok: "name_ok name \<Longrightarrow> store_name name = Inr name"
  using store_name_take [of name] by (simp add: name_ok_def MSG_NAMELEN_def)

section \<open>Refinement\<close>

lemma entry_simps [simp]:
  "entry \<lparr>m_name = a, m_pid = p, m_gen = g, m_desc = d\<rparr> = (a, p, g, d)" "fst (entry e) = m_name e"
  by (simp_all add: entry_def)

lemma take_first_None: "take_first P xs = None \<longleftrightarrow> (\<forall>x \<in> set xs. \<not> P x)"
  by (induction xs) auto

lemma take_first_Some:
  "take_first P xs = Some (y, ys) \<Longrightarrow> \<exists>us vs. xs = us @ y # vs \<and> ys = us @ vs \<and> P y \<and> (\<forall>x \<in> set us. \<not> P x)"
proof (induction xs arbitrary: ys)
  case (Cons x xs)
  show ?case
  proof (cases "P x")
    case True
    then show ?thesis using Cons.prems by (intro exI [of _ "[]"] exI [of _ xs]) auto
  next
    case False
    then obtain zs where z: "take_first P xs = Some (y, zs)" "ys = x # zs" using Cons.prems by auto
    then obtain us vs where "xs = us @ y # vs" "zs = us @ vs" "P y" "\<forall>x \<in> set us. \<not> P x" using Cons.IH by blast
    then show ?thesis using False z(2) by (intro exI [of _ "x # us"] exI [of _ vs]) auto
  qed
qed simp

lemma reg_None: "reg st n = None \<longleftrightarrow> n \<notin> m_name ` set (msg_used st)"
  by (auto simp: reg_def map_of_eq_None_iff image_iff)

lemma reg_append:
  assumes "msg_used st = us @ d # vs" "distinct (map m_name (msg_used st))"
  shows "reg (st\<lparr>msg_used := us @ vs, msg_free := fs\<rparr>) = (reg st)(m_name d := None)"
    "reg st (m_name d) = Some (m_pid d, m_gen d, m_desc d)"
proof -
  have n: "m_name d \<notin> m_name ` set (us @ vs)" using assms by auto
  then have u: "map_of (map entry us) (m_name d) = None" "map_of (map entry vs) (m_name d) = None"
    by (auto simp: map_of_eq_None_iff)
  show "reg (st\<lparr>msg_used := us @ vs, msg_free := fs\<rparr>) = (reg st)(m_name d := None)"
    using u by (auto simp: reg_def assms(1) entry_def [of d] map_add_def fun_eq_iff split: option.splits)
  show "reg st (m_name d) = Some (m_pid d, m_gen d, m_desc d)"
    using u by (simp add: reg_def assms(1) entry_def [of d] map_add_def)
qed

lemma findname_eq:
  assumes "msg_inv st" "name_ok name"
  shows "findname name (msg_used st) = take_first (\<lambda>d. m_name d = name) (msg_used st)"
proof -
  have "take_first (\<lambda>d. strcmp name (m_name d) = 0) ds = take_first (\<lambda>d. m_name d = name) ds"
    if "\<forall>d \<in> set ds. name_ok (m_name d)" for ds
    using that assms(2) by (induction ds) (auto simp: strcmp_eq_0 name_ok_def)
  then show ?thesis using assms(1) unfolding findname_def msg_inv_def by blast
qed

lemma found_cases:
  assumes "msg_inv st" "name_ok name"
  obtains "findname name (msg_used st) = None" "reg st name = None"
  | d us vs where "findname name (msg_used st) = Some (d, us @ vs)" "msg_used st = us @ d # vs" "m_name d = name"
proof (cases "findname name (msg_used st)")
  case None
  then have "reg st name = None" using findname_eq [OF assms] by (auto simp: take_first_None reg_None)
  then show ?thesis using that(1) None by blast
next
  case (Some p)
  then show ?thesis using that(2) findname_eq [OF assms] take_first_Some [of "\<lambda>d. m_name d = name" "msg_used st" "fst p" "snd p"]
    by (metis prod.collapse)
qed

lemma inv_remove: "msg_inv st \<Longrightarrow> msg_used st = us @ d # vs \<Longrightarrow> msg_inv (st\<lparr>msg_used := us @ vs, msg_free := fs\<rparr>)"
  by (auto simp: msg_inv_def)

lemma move_all_ok:
  assumes "msg_inv st"
  shows "\<exists>k st'. move_all P st n = (n + k, st') \<and> msg_inv st' \<and>
    (k = 0 \<longleftrightarrow> (\<forall>d \<in> set (msg_used st). \<not> P d)) \<and> msg_used st' = filter (\<lambda>d. \<not> P d) (msg_used st)"
  using assms
proof (induction "length (msg_used st)" arbitrary: st n rule: less_induct)
  case less
  show ?case
  proof (cases "take_first P (msg_used st)")
    case None
    then have "\<forall>d \<in> set (msg_used st). \<not> P d" by (simp add: take_first_None)
    then show ?thesis using less.prems None by (simp add: move_all.simps filter_id_conv)
  next
    case (Some p)
    then obtain d us vs where s: "take_first P (msg_used st) = Some (d, us @ vs)" "msg_used st = us @ d # vs" "P d"
      using take_first_Some by (metis prod.collapse)
    let ?st = "st\<lparr>msg_used := us @ vs, msg_free := msg_free st @ [d]\<rparr>"
    obtain k st' where "move_all P ?st (n + 1) = (n + 1 + k, st')" "msg_inv st'"
        "msg_used st' = filter (\<lambda>d. \<not> P d) (us @ vs)"
      using less.hyps [of ?st "n + 1"] inv_remove [OF less.prems s(2)] s(2) by auto
    then show ?thesis using s by (intro exI [of _ "k + 1"] exI [of _ st']) (simp add: move_all.simps [of P st])
  qed
qed

lemma reg_filter:
  assumes "msg_inv st" "msg_used st' = filter Q (msg_used st)"
  shows "reg st' n = (case reg st n of None \<Rightarrow> None
    | Some (p, g, d) \<Rightarrow> if Q \<lparr>m_name = n, m_pid = p, m_gen = g, m_desc = d\<rparr> then reg st n else None)"
proof -
  have "map_of (map entry (filter Q ds)) n = (case map_of (map entry ds) n of None \<Rightarrow> None
    | Some (p, g, d) \<Rightarrow> if Q \<lparr>m_name = n, m_pid = p, m_gen = g, m_desc = d\<rparr> then map_of (map entry ds) n else None)"
    if "distinct (map m_name ds)" for ds
    using that
  proof (induction ds)
    case (Cons e ds)
    obtain a p g d where e: "e = \<lparr>m_name = a, m_pid = p, m_gen = g, m_desc = d\<rparr>" by (cases e)
    have nn: "map_of (map entry ds) (m_name e) = None" using Cons.prems by (auto simp: map_of_eq_None_iff)
    show ?case using Cons nn unfolding e by (cases "n = a") (auto split: option.splits)
  qed simp
  then show ?thesis using assms(1) unfolding reg_def assms(2) msg_inv_def by blast
qed

lemma register_refines:
  assumes "msg_inv st" "name_ok name"
  shows "\<exists>r st'. msg_register name pid gen desc st = Inr (r, st') \<and> msg_inv st' \<and>
    spec_step (Register name pid gen desc) (reg st) = (Ret r, reg st')"
  using assms
proof (cases rule: found_cases)
  case 1
  let ?d = "\<lparr>m_name = name, m_pid = pid, m_gen = gen, m_desc = desc\<rparr>"
  let ?st' = "st\<lparr>msg_used := msg_used st @ [?d], msg_free := case msg_free st of [] \<Rightarrow> [] | _ # ds \<Rightarrow> ds\<rparr>"
  have "msg_register name pid gen desc st = Inr (0, ?st')"
    using 1 store_name_ok [OF assms(2)] by (simp add: msg_register_def Let_def)
  moreover have "msg_inv ?st'" using assms 1(2) by (auto simp: msg_inv_def reg_None)
  moreover have "reg ?st' = (reg st)(name \<mapsto> (pid, gen, desc))"
    using 1(2) by (auto simp: reg_def map_add_def fun_eq_iff split: option.splits)
  ultimately show ?thesis using 1(2) by auto
next
  case (2 d us vs)
  then have "name \<in> dom (reg st)" using reg_append(2) [OF 2(2)] assms(1) by (auto simp: msg_inv_def)
  then show ?thesis using 2 assms by (simp add: msg_register_def)
qed

lemma unregister_refines:
  assumes "msg_inv st" "name_ok name"
  shows "\<exists>r st'. msg_unregister name st = (r, st') \<and> msg_inv st' \<and>
    spec_step (Unregister name) (reg st) = (Ret r, reg st')"
  using assms
proof (cases rule: found_cases)
  case 1
  then show ?thesis using assms by (auto simp: msg_unregister_def)
next
  case (2 d us vs)
  note a = reg_append [OF 2(2)]
  have "distinct (map m_name (msg_used st))" using assms(1) by (simp add: msg_inv_def)
  note a = a [OF this]
  then have "name \<in> dom (reg st)" using 2(3) by auto
  then show ?thesis
    using 2 a(1) [of "msg_free st @ [d]"] inv_remove [OF assms(1) 2(2), of "msg_free st @ [d]"]
    by (simp add: msg_unregister_def)
qed

lemma findname_refines:
  assumes "msg_inv st" "name_ok name"
  shows "msg_findname name st = reg st name"
  using assms
proof (cases rule: found_cases)
  case (2 d us vs)
  then show ?thesis using reg_append(2) [OF 2(2)] assms(1) by (simp add: msg_findname_def msg_inv_def)
qed (simp add: msg_findname_def)

lemma unregisterall_refines:
  assumes "msg_inv st"
  shows "msg_inv (msg_unregisterall pid st)"
    "spec_step (Unregister_all pid) (reg st) = (Ret 0, reg (msg_unregisterall pid st))"
proof -
  obtain k st' where m: "move_all (\<lambda>d. m_pid d = pid) st 0 = (0 + k, st')" "msg_inv st'"
      "msg_used st' = filter (\<lambda>d. \<not> m_pid d = pid) (msg_used st)"
    using move_all_ok [OF assms, of "\<lambda>d. m_pid d = pid" 0] by metis
  then show "msg_inv (msg_unregisterall pid st)" by (simp add: msg_unregisterall_def)
  show "spec_step (Unregister_all pid) (reg st) = (Ret 0, reg (msg_unregisterall pid st))"
    using m reg_filter [OF assms m(3)] by (auto simp: msg_unregisterall_def fun_eq_iff split: option.splits)
qed

lemma unregister2_refines:
  assumes "msg_inv st"
  shows "\<exists>r st'. msg_unregister2 pid desc st = (r, st') \<and> msg_inv st' \<and>
    spec_step (Unregister2 pid desc) (reg st) = (Ret r, reg st')"
proof -
  let ?P = "\<lambda>d. m_pid d = pid \<and> m_desc d = desc"
  obtain k st' where m: "move_all ?P st 0 = (0 + k, st')" "msg_inv st'"
      "k = 0 \<longleftrightarrow> (\<forall>d \<in> set (msg_used st). \<not> ?P d)" "msg_used st' = filter (\<lambda>d. \<not> ?P d) (msg_used st)"
    using move_all_ok [OF assms, of ?P 0] by metis
  have "(\<exists>n g. reg st n = Some (pid, g, desc)) \<longleftrightarrow> (\<exists>d \<in> set (msg_used st). ?P d)"
  proof
    assume "\<exists>n g. reg st n = Some (pid, g, desc)"
    then obtain n g where "(n, pid, g, desc) \<in> set (map entry (msg_used st))" unfolding reg_def by (meson map_of_SomeD)
    then obtain d where "d \<in> set (msg_used st)" "(n, pid, g, desc) = entry d" by auto
    then show "\<exists>d \<in> set (msg_used st). ?P d" by (intro bexI [of _ d]) (simp_all add: entry_def)
  next
    assume "\<exists>d \<in> set (msg_used st). ?P d"
    then obtain d where "d \<in> set (msg_used st)" "?P d" by blast
    moreover from this(1) obtain us vs where "msg_used st = us @ d # vs" by (meson split_list)
    ultimately have "msg_used st = us @ d # vs" "?P d" by auto
    then show "\<exists>n g. reg st n = Some (pid, g, desc)"
      using reg_append(2) [of st us d vs] assms by (auto simp: msg_inv_def)
  qed
  moreover have "reg st' = (\<lambda>n. case reg st n of Some (p, g, d) \<Rightarrow> if p = pid \<and> d = desc then None else reg st n | None \<Rightarrow> None)"
    using reg_filter [OF assms m(4)] by (auto simp: fun_eq_iff split: option.splits)
  ultimately show ?thesis using m by (auto simp: msg_unregister2_def)
qed

lemma msg_step_refines:
  assumes "msg_inv st" "op_names_ok a"
  shows "\<exists>r st'. msg_step a st = Inr (r, st') \<and> msg_inv st' \<and> spec_step a (reg st) = (r, reg st')"
proof (cases a)
  case (Register name pid gen desc)
  then show ?thesis
    using register_refines [OF assms(1), of name pid gen desc] assms(2) by (auto simp del: spec_step.simps)
next
  case (Unregister name)
  then show ?thesis
    using unregister_refines [OF assms(1), of name] assms(2) by (auto simp del: spec_step.simps)
next
  case (Find name)
  then show ?thesis using findname_refines [OF assms(1), of name] assms by simp
next
  case (Unregister_all pid)
  then show ?thesis using unregisterall_refines [OF assms(1), of pid] by (simp del: spec_step.simps)
next
  case (Unregister2 pid desc)
  then show ?thesis using unregister2_refines [OF assms(1), of pid desc] by (auto simp del: spec_step.simps)
qed



text \<open>A name of 16 bytes or more is stored cut off, so it is not found again: it can be
  registered twice, and neither looked up nor unregistered.\<close>

lemma msg_long_name:
  "\<exists>st. msg_run [Register (bytes ''a-very-long-name'') 1 0 0, Register (bytes ''a-very-long-name'') 2 0 0,
      Find (bytes ''a-very-long-name''), Unregister (bytes ''a-very-long-name'')] msg_init_global =
    Inr ([Ret 0, Ret 0, Found None, Ret (- 1)], st)"
proof -
  let ?n = "bytes ''a-very-long-name''"
  have "store_name ?n = Inr (take 15 ?n)" by (rule store_name_take) (simp_all add: bytes_def cstr_ok_def)
  moreover have "strcmp ?n (take 15 ?n) \<noteq> 0" by code_simp
  ultimately show ?thesis
    by (simp add: msg_register_def findname_def msg_findname_def msg_unregister_def msg_init_global_def Let_def)
qed

end
