(* ===== verification/Timer.thy ===== *)
theory Timer
  imports Bv_Prelude
begin

text \<open>
  Timers, \<^verbatim>\<open>core/timer.c\<close>: 128 timers on the lists of running, stopped and free timers, and
  the thread that calls back. A timer is its index in the array that \<open>timer_init_global\<close>
  allocates. The lists are sequences, as the theory \<open>List1\<close> justifies. \<open>timer_lock\<close> is part of the
  state, since \<open>timer_new\<close> returns without releasing it when no timer is free; taking a lock that
  is never released is \<open>Deadlock\<close>. \<open>get_time ()\<close> is an argument. The thread's loop body is a
  step that yields the callback to run, if any.

  The properties: every run of the operations keeps each timer on exactly one list, with the
  running timers in the order of their remaining time, so that the thread calls back an expired
  timer whenever there is one.
\<close>

section \<open>The timers\<close>

definition MAX_TIMER :: nat where "MAX_TIMER = 128"

record ('c, 'd) timer_data =
  enable :: bool
  settime :: u64
  interval :: u64
  callback :: 'c
  cb_data :: 'd

record ('c, 'd) timer =
  timer_locked :: bool
  timer_on :: "nat list"
  timer_off :: "nat list"
  timer_free_list :: "nat list"
  timers :: "nat \<Rightarrow> ('c, 'd) timer_data"
  timer_thread_run :: bool

definition lock_timer :: "('c, 'd) timer \<Rightarrow> ('c, 'd) timer res" where
  "lock_timer st = (if timer_locked st then Inl Deadlock else Inr (st\<lparr>timer_locked := True\<rparr>))"

definition unlock_timer :: "('c, 'd) timer \<Rightarrow> ('c, 'd) timer" where
  "unlock_timer st = st\<lparr>timer_locked := False\<rparr>"

definition timer_init_global :: "(nat \<Rightarrow> ('c, 'd) timer_data) \<Rightarrow> ('c, 'd) timer" where
  "timer_init_global p =
     \<lparr>timer_locked = False, timer_on = [], timer_off = [], timer_free_list = rev [0..<MAX_TIMER],
      timers = p, timer_thread_run = False\<rparr>"

definition timer_new :: "'c \<Rightarrow> 'd \<Rightarrow> ('c, 'd) timer \<Rightarrow> (nat option \<times> ('c, 'd) timer) res" where
  "timer_new cb data st =
     res_bind (lock_timer st) (\<lambda>st.
     case timer_free_list st of
       [] \<Rightarrow> Inr (None, st)
     | p # ps \<Rightarrow>
         let st = st\<lparr>timer_free_list := ps,
                     timers := (timers st)(p := (timers st p)\<lparr>enable := False, callback := cb, cb_data := data\<rparr>),
                     timer_off := timer_off st @ [p]\<rparr>
         in Inr (Some p, unlock_timer st))"

text \<open>Whether the running timer \<open>d\<close> has longer to go than \<open>interval_usec\<close>.\<close>

definition later :: "u64 \<Rightarrow> u64 \<Rightarrow> ('c, 'd) timer_data \<Rightarrow> bool" where
  "later time interval_usec d \<longleftrightarrow>
     interval d > time - settime d \<and> interval d - (time - settime d) > interval_usec"

text \<open>\<open>LIST1_INSERT\<close> in front of the first such timer, at the end when there is none.\<close>

fun insert_timer :: "(nat \<Rightarrow> bool) \<Rightarrow> nat \<Rightarrow> nat list \<Rightarrow> nat list" where
  "insert_timer P p [] = [p]"
| "insert_timer P p (d # ds) = (if P d then p # d # ds else d # insert_timer P p ds)"

definition timer_set :: "u64 \<Rightarrow> nat \<Rightarrow> u64 \<Rightarrow> ('c, 'd) timer \<Rightarrow> ('c, 'd) timer res" where
  "timer_set time p interval_usec st =
     res_bind (lock_timer st) (\<lambda>st.
     let st = (if \<not> enable (timers st p)
               then st\<lparr>timer_off := remove1 p (timer_off st),
                       timers := (timers st)(p := (timers st p)\<lparr>enable := True\<rparr>)\<rparr>
               else st\<lparr>timer_on := remove1 p (timer_on st)\<rparr>);
         st = st\<lparr>timers := (timers st)(p := (timers st p)\<lparr>settime := time, interval := interval_usec\<rparr>)\<rparr>;
         st = st\<lparr>timer_on := insert_timer (\<lambda>d. later time interval_usec (timers st d)) p (timer_on st)\<rparr>;
         st = st\<lparr>timer_thread_run := True\<rparr>
     in Inr (unlock_timer st))"

definition timer_free :: "nat \<Rightarrow> ('c, 'd) timer \<Rightarrow> ('c, 'd) timer res" where
  "timer_free p st =
     res_bind (lock_timer st) (\<lambda>st.
     let st = (if enable (timers st p) then st\<lparr>timer_on := remove1 p (timer_on st)\<rparr>
               else st\<lparr>timer_off := remove1 p (timer_off st)\<rparr>);
         st = st\<lparr>timers := (timers st)(p := (timers st p)\<lparr>enable := False\<rparr>),
                 timer_free_list := timer_free_list st @ [p]\<rparr>
     in Inr (unlock_timer st))"

text \<open>One round of \<open>timer_thread\<close>: the callback to run with its handle and data, or \<open>None\<close> and
  the thread calls \<open>schedule ()\<close>.\<close>

definition timer_thread :: "u64 \<Rightarrow> ('c, 'd) timer \<Rightarrow> ((nat \<times> 'c \<times> 'd) option \<times> ('c, 'd) timer) res" where
  "timer_thread time st =
     res_bind (lock_timer st) (\<lambda>st.
     case timer_on st of
       [] \<Rightarrow> Inr (None, unlock_timer st)
     | p # _ \<Rightarrow>
         if time - settime (timers st p) \<ge> interval (timers st p) then
           let st = st\<lparr>timer_on := remove1 p (timer_on st),
                       timers := (timers st)(p := (timers st p)\<lparr>enable := False\<rparr>)\<rparr>;
               r = (p, callback (timers st p), cb_data (timers st p));
               st = st\<lparr>timer_off := timer_off st @ [p]\<rparr>
           in Inr (Some r, unlock_timer st)
         else Inr (None, unlock_timer st))"

section \<open>Runs\<close>

text \<open>The operations, with the time of those that read the clock.\<close>

datatype ('c, 'd) timer_op = New 'c 'd | Set u64 nat u64 | Free nat | Thread u64

fun timer_step :: "('c, 'd) timer_op \<Rightarrow> ('c, 'd) timer \<Rightarrow> ('c, 'd) timer res" where
  "timer_step (New cb data) st = res_bind (timer_new cb data st) (\<lambda>(_, st). Inr st)"
| "timer_step (Set time p usec) st = timer_set time p usec st"
| "timer_step (Free p) st = timer_free p st"
| "timer_step (Thread time) st = res_bind (timer_thread time st) (\<lambda>(_, st). Inr st)"

text \<open>The timers in use, and the operations that respect the interface: handles are of timers
  in use, and the clock does not go back (\<open>t\<close> is the latest time read).\<close>

definition in_use :: "('c, 'd) timer \<Rightarrow> nat set" where
  "in_use st = set (timer_on st) \<union> set (timer_off st)"

fun call_ok :: "u64 \<Rightarrow> ('c, 'd) timer \<Rightarrow> ('c, 'd) timer_op \<Rightarrow> bool" where
  "call_ok t st (New _ _) \<longleftrightarrow> timer_free_list st \<noteq> []"
| "call_ok t st (Set time p _) \<longleftrightarrow> p \<in> in_use st \<and> t \<le> time"
| "call_ok t st (Free p) \<longleftrightarrow> p \<in> in_use st"
| "call_ok t st (Thread time) \<longleftrightarrow> t \<le> time"

fun call_time :: "u64 \<Rightarrow> ('c, 'd) timer_op \<Rightarrow> u64" where
  "call_time t (Set time _ _) = time"
| "call_time t (Thread time) = time"
| "call_time t _ = t"

inductive timer_reach :: "(nat \<Rightarrow> ('c, 'd) timer_data) \<Rightarrow> u64 \<Rightarrow> ('c, 'd) timer \<Rightarrow> bool" for p where
  start: "timer_reach p 0 (timer_init_global p)"
| step: "timer_reach p t st \<Longrightarrow> call_ok t st a \<Longrightarrow> timer_step a st = Inr st' \<Longrightarrow> timer_reach p (call_time t a) st'"

section \<open>The invariant\<close>

text \<open>What remains of a running timer's interval.\<close>

definition remaining :: "u64 \<Rightarrow> ('c, 'd) timer_data \<Rightarrow> nat" where
  "remaining t d = unat (interval d) - (unat t - unat (settime d))"

definition timer_inv :: "u64 \<Rightarrow> ('c, 'd) timer \<Rightarrow> bool" where
  "timer_inv t st \<longleftrightarrow>
     \<not> timer_locked st \<and>
     distinct (timer_on st @ timer_off st @ timer_free_list st) \<and>
     set (timer_on st @ timer_off st @ timer_free_list st) = {0..<MAX_TIMER} \<and>
     (\<forall>p \<in> set (timer_on st). enable (timers st p) \<and> settime (timers st p) \<le> t) \<and>
     (\<forall>p \<in> set (timer_off st). \<not> enable (timers st p)) \<and>
     sorted (map (\<lambda>p. remaining t (timers st p)) (timer_on st))"

lemma elapsed: "settime d \<le> t \<Longrightarrow> unat (t - settime d) = unat t - unat (settime d)"
  by (rule unat_sub)

lemma later_iff: "settime d \<le> t \<Longrightarrow> later t usec d \<longleftrightarrow> unat usec < remaining t d"
  by (auto simp: later_def remaining_def word_less_nat_alt elapsed unat_sub_exact word_le_nat_alt)

lemma expired_iff: "settime d \<le> t \<Longrightarrow> interval d \<le> t - settime d \<longleftrightarrow> remaining t d = 0"
  by (auto simp: remaining_def word_le_nat_alt elapsed)

lemma remaining_later:
  "settime d \<le> t \<Longrightarrow> t \<le> t' \<Longrightarrow> remaining t' d = remaining t d - (unat t' - unat t)"
  by (simp add: remaining_def word_le_nat_alt)

lemma sorted_later:
  assumes "\<forall>p \<in> set ps. settime (td p) \<le> t" "t \<le> t'" "sorted (map (\<lambda>p. remaining t (td p)) ps)"
  shows "sorted (map (\<lambda>p. remaining t' (td p)) ps)"
proof -
  have "map (\<lambda>p. remaining t' (td p)) ps = map (\<lambda>n. n - (unat t' - unat t)) (map (\<lambda>p. remaining t (td p)) ps)"
    using assms(1,2) by (simp add: remaining_later)
  moreover have "sorted ns \<Longrightarrow> sorted (map (\<lambda>n. n - k) ns)" for ns and k :: nat
    by (induction ns) (auto intro: diff_le_mono)
  ultimately show ?thesis using assms(3) by metis
qed

text \<open>Changing a timer that is not on the list does not change the order.\<close>

lemma sorted_other:
  "p \<notin> set ps \<Longrightarrow> sorted (map (\<lambda>q. remaining t (if q = p then x else td q)) ps) \<longleftrightarrow>
     sorted (map (\<lambda>q. remaining t (td q)) ps)"
  by (rule arg_cong [of _ _ sorted], rule map_cong) auto

lemma set_insert_timer [simp]: "set (insert_timer P p ds) = insert p (set ds)"
  by (induction ds) auto

lemma distinct_insert_timer [simp]: "distinct (insert_timer P p ds) \<longleftrightarrow> p \<notin> set ds \<and> distinct ds"
  by (induction ds) auto

lemma sorted_insert_timer:
  fixes f :: "nat \<Rightarrow> nat"
  assumes "sorted (map f ds)" "\<And>d. d \<in> set ds \<Longrightarrow> P d \<longleftrightarrow> f p < f d"
  shows "sorted (map f (insert_timer P p ds))"
  using assms
proof (induction ds)
  case (Cons d ds)
  show ?case
  proof (cases "P d")
    case True
    then show ?thesis using Cons.prems by (auto intro: less_imp_le less_le_trans)
  next
    case False
    then show ?thesis using Cons by (auto simp: not_less)
  qed
qed simp

lemma inv_later:
  assumes "timer_inv t st" "t \<le> t'"
  shows "timer_inv t' st"
proof -
  have "\<forall>p \<in> set (timer_on st). settime (timers st p) \<le> t" using assms(1) by (simp add: timer_inv_def)
  then have "sorted (map (\<lambda>p. remaining t' (timers st p)) (timer_on st))"
    using sorted_later [of "timer_on st" "timers st" t t'] assms by (simp add: timer_inv_def)
  then show ?thesis using assms by (auto simp: timer_inv_def intro: order_trans)
qed

lemma start_inv: "timer_inv 0 (timer_init_global p)"
  by (auto simp: timer_inv_def timer_init_global_def)

lemmas timer_simps = lock_timer_def unlock_timer_def Let_def in_use_def

lemma new_inv:
  assumes "timer_inv t st" "timer_free_list st \<noteq> []"
  shows "\<exists>p st'. timer_new cb data st = Inr (Some p, st') \<and> timer_inv t st' \<and> p \<in> in_use st'"
proof -
  obtain p ps where ps: "timer_free_list st = p # ps" using assms(2) by (cases "timer_free_list st") auto
  then have d: "p \<notin> set (timer_on st)" "p \<notin> set (timer_off st)" using assms(1) by (auto simp: timer_inv_def)
  then show ?thesis
    using assms(1) ps by (auto simp: timer_new_def timer_simps timer_inv_def sorted_other)
qed

text \<open>The part of the invariant that holds while a timer \<open>p\<close> is taken off its list.\<close>

definition inv_without :: "nat \<Rightarrow> u64 \<Rightarrow> ('c, 'd) timer \<Rightarrow> bool" where
  "inv_without p t st \<longleftrightarrow>
     distinct (p # timer_on st @ timer_off st @ timer_free_list st) \<and>
     set (p # timer_on st @ timer_off st @ timer_free_list st) = {0..<MAX_TIMER} \<and>
     (\<forall>p \<in> set (timer_on st). enable (timers st p) \<and> settime (timers st p) \<le> t) \<and>
     (\<forall>p \<in> set (timer_off st). \<not> enable (timers st p)) \<and>
     sorted (map (\<lambda>p. remaining t (timers st p)) (timer_on st))"

lemma take_off:
  assumes "timer_inv t st" "p \<in> in_use st"
  shows "inv_without p t (if enable (timers st p) then st\<lparr>timer_on := remove1 p (timer_on st)\<rparr>
      else st\<lparr>timer_off := remove1 p (timer_off st)\<rparr>)"
proof -
  have m: "p \<in> set (timer_on st) \<longleftrightarrow> enable (timers st p)" "p \<in> set (timer_off st) \<longleftrightarrow> \<not> enable (timers st p)"
    using assms by (auto simp: timer_inv_def in_use_def)
  have d: "distinct (timer_on st)" "distinct (timer_off st)" using assms(1) by (auto simp: timer_inv_def)
  show ?thesis
  proof (cases "enable (timers st p)")
    case True
    then show ?thesis using assms(1) m d by (auto simp: inv_without_def timer_inv_def sorted_map_remove1)
  next
    case False
    then show ?thesis using assms(1) m d by (auto simp: inv_without_def timer_inv_def)
  qed
qed

lemma set_inv:
  assumes "timer_inv t st" "p \<in> in_use st" "t \<le> time"
  shows "\<exists>st'. timer_set time p usec st = Inr st' \<and> timer_inv time st' \<and> in_use st' = in_use st"
proof -
  define st0 where "st0 = (if enable (timers st p) then st\<lparr>timer_on := remove1 p (timer_on st)\<rparr>
      else st\<lparr>timer_off := remove1 p (timer_off st)\<rparr>)"
  define x where "x = (timers st p)\<lparr>enable := True, settime := time, interval := usec\<rparr>"
  define td where "td = (timers st)(p := x)"
  define on where "on = insert_timer (\<lambda>d. later time usec (td d)) p (timer_on st0)"
  define st' where "st' = st\<lparr>timer_locked := False, timer_on := on, timer_off := timer_off st0, timers := td,
      timer_thread_run := True\<rparr>"
  have nl: "\<not> timer_locked st" using assms(1) by (simp add: timer_inv_def)
  have w: "inv_without p t st0" using take_off [OF assms(1,2)] by (simp add: st0_def)
  have same: "timers st0 = timers st" "timer_free_list st0 = timer_free_list st" by (simp_all add: st0_def)
  have xe: "(timers st p)\<lparr>settime := time, interval := usec\<rparr> = x" if "enable (timers st p)"
    using that by (cases "timers st p") (simp add: x_def)
  have run: "timer_set time p usec st = Inr st'"
  proof (cases "enable (timers st p)")
    case True
    then show ?thesis using nl by (simp add: timer_set_def timer_simps st'_def on_def td_def st0_def xe)
  next
    case False
    then show ?thesis using nl by (simp add: timer_set_def timer_simps st'_def on_def td_def st0_def x_def)
  qed
  have pn: "p \<notin> set (timer_on st0)" using w by (simp add: inv_without_def)
  have so: "sorted (map (\<lambda>q. remaining time (td q)) (timer_on st0))"
  proof -
    have "sorted (map (\<lambda>q. remaining time (timers st0 q)) (timer_on st0))"
      by (rule sorted_later [OF _ assms(3)]) (use w in \<open>simp_all add: inv_without_def\<close>)
    then show ?thesis using pn by (simp add: td_def same sorted_other)
  qed
  have rp: "remaining time (td p) = unat usec" by (simp add: td_def x_def remaining_def)
  have st: "settime (td q) \<le> time" if "q \<in> set (timer_on st0)" for q
    using w that pn assms(3) by (auto simp: inv_without_def td_def same)
  have "sorted (map (\<lambda>q. remaining time (td q)) on)"
    unfolding on_def by (rule sorted_insert_timer [OF so]) (use st rp in \<open>simp add: later_iff\<close>)
  then have "timer_inv time st'"
    using w pn st unfolding timer_inv_def inv_without_def same
    by (auto simp: st'_def on_def td_def x_def)
  moreover have "in_use st' = in_use st"
    using assms(2) by (auto simp: in_use_def st'_def on_def st0_def dest: notin_set_remove1)
      (metis in_set_remove1)+
  ultimately show ?thesis using run by blast
qed

lemma free_inv:
  assumes "timer_inv t st" "p \<in> in_use st"
  shows "\<exists>st'. timer_free p st = Inr st' \<and> timer_inv t st' \<and> in_use st' = in_use st - {p}"
proof -
  define st0 where "st0 = (if enable (timers st p) then st\<lparr>timer_on := remove1 p (timer_on st)\<rparr>
      else st\<lparr>timer_off := remove1 p (timer_off st)\<rparr>)"
  define st' where "st' = st0\<lparr>timer_locked := False, timers := (timers st)(p := (timers st p)\<lparr>enable := False\<rparr>),
      timer_free_list := timer_free_list st @ [p]\<rparr>"
  have nl: "\<not> timer_locked st" using assms(1) by (simp add: timer_inv_def)
  have w: "inv_without p t st0" using take_off [OF assms] by (simp add: st0_def)
  have same: "timers st0 = timers st" "timer_free_list st0 = timer_free_list st" by (simp_all add: st0_def)
  have "timer_free p st = Inr st'" using nl by (simp add: timer_free_def timer_simps st'_def st0_def)
  moreover have "timer_inv t st'"
    using w unfolding timer_inv_def inv_without_def same by (auto simp: st'_def same sorted_other)
  moreover have "in_use st' = in_use st - {p}"
  proof -
    have "p \<notin> in_use st'" using w by (simp add: in_use_def st'_def inv_without_def)
    moreover have "in_use st' - {p} = in_use st - {p}"
      by (auto simp: in_use_def st'_def st0_def dest: notin_set_remove1)
    ultimately show ?thesis by blast
  qed
  ultimately show ?thesis by blast
qed

lemma unlock_relock: "\<not> timer_locked st \<Longrightarrow> unlock_timer (st\<lparr>timer_locked := True\<rparr>) = st"
  by (cases st) (simp add: unlock_timer_def)

lemma thread_ok:
  assumes "timer_inv t st" "t \<le> now"
  shows "\<exists>r st'. timer_thread now st = Inr (r, st') \<and> timer_inv now st' \<and> in_use st' = in_use st \<and>
    (case r of
       None \<Rightarrow> st' = st \<and> (\<forall>q \<in> set (timer_on st). 0 < remaining now (timers st q))
     | Some (q, cb, d) \<Rightarrow> q \<in> set (timer_on st) \<and> remaining now (timers st q) = 0 \<and>
         cb = callback (timers st q) \<and> d = cb_data (timers st q) \<and> set (timer_on st') = set (timer_on st) - {q})"
proof -
  have i: "timer_inv now st" by (rule inv_later [OF assms])
  have nl: "\<not> timer_locked st" using i by (simp add: timer_inv_def)
  show ?thesis
  proof (cases "timer_on st")
    case Nil
    then show ?thesis using nl i by (simp add: timer_thread_def lock_timer_def unlock_relock)
  next
    case (Cons p ps)
    have x: "interval (timers st p) \<le> now - settime (timers st p) \<longleftrightarrow> remaining now (timers st p) = 0"
      by (rule expired_iff) (use i Cons in \<open>simp add: timer_inv_def\<close>)
    show ?thesis
    proof (cases "remaining now (timers st p) = 0")
      case True
      have d: "p \<notin> set ps" "p \<notin> set (timer_off st)" "p \<notin> set (timer_free_list st)" using i Cons by (auto simp: timer_inv_def)
      then show ?thesis using True x Cons nl i
        by (auto simp: timer_thread_def timer_simps timer_inv_def sorted_other)
    next
      case False
      have "timer_thread now st = Inr (None, st)"
        using False x Cons nl by (simp add: timer_thread_def lock_timer_def unlock_relock)
      moreover have "0 < remaining now (timers st q)" if "q \<in> set (timer_on st)" for q
        using i Cons that False by (fastforce simp: timer_inv_def)
      ultimately show ?thesis using i by simp
    qed
  qed
qed

lemma step_inv:
  assumes "timer_inv t st" "call_ok t st a"
  shows "\<exists>st'. timer_step a st = Inr st' \<and> timer_inv (call_time t a) st'"
proof (cases a)
  case (New cb data)
  then show ?thesis using new_inv [OF assms(1), of cb data] assms(2) by auto
next
  case (Set time p usec)
  then show ?thesis using set_inv [OF assms(1), of p time usec] assms(2) by auto
next
  case (Free p)
  then show ?thesis using free_inv [OF assms(1), of p] assms(2) by auto
next
  case (Thread time)
  then show ?thesis using thread_ok [OF assms(1), of time] assms(2) by auto
qed

lemma reach_inv: "timer_reach p t st \<Longrightarrow> timer_inv t st"
proof (induction rule: timer_reach.induct)
  case start
  show ?case by (rule start_inv)
next
  case (step t st a st')
  then show ?case using step_inv [of t st a] by auto
qed

section \<open>Properties\<close>





text \<open>
  C32. When all timers are in use, \<open>timer_new\<close> returns \<open>NULL\<close> but keeps the lock, so that the
  next operation on timers, by whatever thread, waits for ever.
\<close>

theorem timer_new_exhausted:
  assumes "timer_reach p t st" "timer_free_list st = []"
  shows "\<exists>st'. timer_new cb data st = Inr (None, st') \<and> (\<forall>a. timer_step a st' = Inl Deadlock)"
proof -
  have "\<not> timer_locked st" using reach_inv [OF assms(1)] by (simp add: timer_inv_def)
  then have "timer_new cb data st = Inr (None, st\<lparr>timer_locked := True\<rparr>)"
    using assms(2) by (simp add: timer_new_def timer_simps)
  moreover have "timer_step a (st\<lparr>timer_locked := True\<rparr>) = Inl Deadlock" for a
    by (cases a) (simp_all add: timer_new_def timer_set_def timer_free_def timer_thread_def timer_simps)
  ultimately show ?thesis by blast
qed

lemma reach_exhausted:
  assumes "k \<le> MAX_TIMER"
  shows "\<exists>st. timer_reach p 0 st \<and> length (timer_free_list st) = MAX_TIMER - k"
  using assms
proof (induction k)
  case 0
  then show ?case using timer_reach.start [of p] by (intro exI [of _ "timer_init_global p"]) (simp add: timer_init_global_def)
next
  case (Suc k)
  then obtain st where st: "timer_reach p 0 st" "length (timer_free_list st) = MAX_TIMER - k" by auto
  then obtain q ps where fl: "timer_free_list st = q # ps" using Suc.prems by (cases "timer_free_list st") auto
  have nl: "\<not> timer_locked st" using reach_inv [OF st(1)] by (simp add: timer_inv_def)
  obtain st' where "timer_step (New undefined undefined) st = Inr st'" "timer_free_list st' = ps"
    using fl nl by (simp add: timer_new_def timer_simps)
  then show ?case
    using timer_reach.step [OF st(1), of "New undefined undefined" st'] fl st(2) by (intro exI [of _ st']) simp
qed

theorem timer_new_exhausted_witness:
  "\<exists>st st' :: (nat, nat) timer. timer_free_list st = [] \<and> timer_new 1 2 st = Inr (None, st') \<and>
     timer_step (Free 3) st' = Inl Deadlock"
proof -
  let ?p = "\<lambda>_. \<lparr>enable = False, settime = 0, interval = 0, callback = 0, cb_data = 0\<rparr> :: (nat, nat) timer_data"
  obtain st where st: "timer_reach ?p 0 st" "timer_free_list st = []" using reach_exhausted [of MAX_TIMER ?p] by auto
  then show ?thesis using timer_new_exhausted [OF st, of 1 2] by blast
qed

end
