(* ===== verification/Pmap.thy ===== *)
theory Pmap
  imports CString
begin

text \<open>
  Page-table walks, \<^verbatim>\<open>core/x86/pmap.c\<close>: a cursor that reads the entries on the path to an
  address, caches them, and writes single entries back.

  The tables are in a physical memory of bytes. While the hypervisor walks tables of a guest,
  the guest's other processors run: \<open>env n\<close> is what they do to the memory before the \<open>n\<close>-th
  access, an arbitrary function that is an argument of all definitions that access memory. The
  cache attributes that accompany an access do not change the values and are left out; so are
  device regions in the place of page tables. A level is counted from 0 as in the source's
  fields, which hold \<open>level - 1\<close> of the interface.
\<close>

section \<open>Memory shared with other processors\<close>

record gmem =
  ram :: mem
  tick :: nat

type_synonym env = "nat \<Rightarrow> mem \<Rightarrow> mem"

definition interfere :: "env \<Rightarrow> gmem \<Rightarrow> gmem" where
  "interfere env g = g\<lparr>ram := env (tick g) (ram g), tick := tick g + 1\<rparr>"

definition ld32 :: "mem \<Rightarrow> u64 \<Rightarrow> u64" where "ld32 m a = load_le m (unat a) 4"
definition ld64 :: "mem \<Rightarrow> u64 \<Rightarrow> u64" where "ld64 m a = load_le m (unat a) 8"
definition st32 :: "mem \<Rightarrow> u64 \<Rightarrow> u64 \<Rightarrow> mem" where "st32 m a v = store_le m (unat a) 4 v"
definition st64 :: "mem \<Rightarrow> u64 \<Rightarrow> u64 \<Rightarrow> mem" where "st64 m a v = store_le m (unat a) 8 v"

text \<open>\<open>cmpxchg_gphys_l\<close> and \<open>cmpxchg_gphys_q\<close>: whether it failed, and the value found.\<close>

definition cmpxchg_gphys_l :: "env \<Rightarrow> u64 \<Rightarrow> u64 \<Rightarrow> u64 \<Rightarrow> gmem \<Rightarrow> bool \<times> u64 \<times> gmem" where
  "cmpxchg_gphys_l env phys olddata data g =
     (let g = interfere env g; v = ld32 (ram g) phys in
      if v = olddata then (False, v, g\<lparr>ram := st32 (ram g) phys data\<rparr>) else (True, v, g))"

definition cmpxchg_gphys_q :: "env \<Rightarrow> u64 \<Rightarrow> u64 \<Rightarrow> u64 \<Rightarrow> gmem \<Rightarrow> bool \<times> u64 \<times> gmem" where
  "cmpxchg_gphys_q env phys olddata data g =
     (let g = interfere env g; v = ld64 (ram g) phys in
      if v = olddata then (False, v, g\<lparr>ram := st64 (ram g) phys data\<rparr>) else (True, v, g))"

section \<open>The cursor\<close>

definition PDE_P_BIT :: u64 where "PDE_P_BIT = 0x1"
definition PDE_RW_BIT :: u64 where "PDE_RW_BIT = 0x2"
definition PDE_US_BIT :: u64 where "PDE_US_BIT = 0x4"
definition PDE_PWT_BIT :: u64 where "PDE_PWT_BIT = 0x8"
definition PDE_PCD_BIT :: u64 where "PDE_PCD_BIT = 0x10"
definition PDE_A_BIT :: u64 where "PDE_A_BIT = 0x20"
definition PDE_D_BIT :: u64 where "PDE_D_BIT = 0x40"
definition PDE_PS_BIT :: u64 where "PDE_PS_BIT = 0x80"
definition PDE_NX_BIT :: u64 where "PDE_NX_BIT = 0x8000000000000000"
definition PDE_4M_PAT_BIT :: u64 where "PDE_4M_PAT_BIT = 0x1000"
definition PTE_PAT_BIT :: u64 where "PTE_PAT_BIT = 0x80"

lemmas pde_bits = PDE_P_BIT_def PDE_RW_BIT_def PDE_US_BIT_def PDE_PWT_BIT_def PDE_PCD_BIT_def
  PDE_A_BIT_def PDE_D_BIT_def PDE_PS_BIT_def PDE_NX_BIT_def PDE_4M_PAT_BIT_def PTE_PAT_BIT_def

datatype pmap_type = PMAP_TYPE_VMM | PMAP_TYPE_GUEST | PMAP_TYPE_GUEST_ATOMIC

record pmap =
  pm_entry :: "nat \<Rightarrow> u64"
  pm_entryaddr :: "nat \<Rightarrow> u64"
  pm_curaddr :: u64
  pm_curlevel :: nat
  pm_readlevel :: nat
  pm_levels :: nat
  pm_type :: pmap_type

text \<open>The cursor is a local variable of its users: opening it leaves the other fields as they are.\<close>

definition pmap_open_vmm :: "pmap \<Rightarrow> u64 \<Rightarrow> nat \<Rightarrow> pmap" where
  "pmap_open_vmm m cr3 levels =
     m\<lparr>pm_levels := levels, pm_readlevel := levels, pm_curlevel := levels - 1,
       pm_entry := (pm_entry m)(levels := (cr3 AND NOT 0xFFF) OR PDE_P_BIT), pm_type := PMAP_TYPE_VMM\<rparr>"

definition pmap_open_guest :: "pmap \<Rightarrow> u64 \<Rightarrow> nat \<Rightarrow> bool \<Rightarrow> pmap" where
  "pmap_open_guest m cr3 levels atomic =
     m\<lparr>pm_levels := levels, pm_readlevel := levels, pm_curlevel := levels - 1,
       pm_entry := (pm_entry m)(levels :=
         (if levels = 3 then (cr3 AND (NOT 0x1F OR PDE_PWT_BIT OR PDE_PCD_BIT)) OR PDE_P_BIT
          else (cr3 AND (NOT 0xFFF OR PDE_PWT_BIT OR PDE_PCD_BIT)) OR PDE_P_BIT)),
       pm_type := (if atomic then PMAP_TYPE_GUEST_ATOMIC else PMAP_TYPE_GUEST)\<rparr>"

definition pmap_getreadlevel :: "pmap \<Rightarrow> nat" where
  "pmap_getreadlevel m = pm_readlevel m + 1"

definition pmap_setlevel :: "pmap \<Rightarrow> nat \<Rightarrow> pmap" where
  "pmap_setlevel m level = m\<lparr>pm_curlevel := level - 1\<rparr>"

definition seek_mask :: "nat \<Rightarrow> nat \<Rightarrow> u64" where
  "seek_mask levels readlevel =
     [[0xFFFFF000, 0xFFC00000, 0x00000000, 0x00000000],
      [0xFFFFF000, 0xFFE00000, 0xC0000000, 0x00000000],
      [0x0000FFFFFFFFF000, 0x0000FFFFFFE00000, 0x0000FFFFC0000000, 0x0000FF8000000000]]
     ! (levels - 2) ! readlevel"

text \<open>How many levels of the cached path serve the new address as well.\<close>

function seek_up :: "nat \<Rightarrow> u64 \<Rightarrow> u64 \<Rightarrow> nat \<Rightarrow> nat" where
  "seek_up levels curaddr virtaddr readlevel =
     (if readlevel < levels \<and> curaddr AND seek_mask levels readlevel \<noteq> virtaddr AND seek_mask levels readlevel
      then seek_up levels curaddr virtaddr (readlevel + 1) else readlevel)"
  by pat_completeness auto
termination
  by (relation "measure (\<lambda>(levels, c, v, readlevel). levels - readlevel)") auto

declare seek_up.simps [simp del]

definition pmap_seek :: "pmap \<Rightarrow> u64 \<Rightarrow> nat \<Rightarrow> pmap" where
  "pmap_seek m virtaddr level =
     (let m = pmap_setlevel m level in
      m\<lparr>pm_readlevel := seek_up (pm_levels m) (pm_curaddr m) virtaddr (pm_readlevel m), pm_curaddr := virtaddr\<rparr>)"

definition pmap_rd32 :: "env \<Rightarrow> pmap \<Rightarrow> u64 \<Rightarrow> gmem \<Rightarrow> u64 \<times> gmem" where
  "pmap_rd32 env m phys g =
     (case pm_type m of
        PMAP_TYPE_VMM \<Rightarrow> (ld32 (ram g) phys, g)
      | PMAP_TYPE_GUEST \<Rightarrow> let g = interfere env g in (ld32 (ram g) phys, g)
      | PMAP_TYPE_GUEST_ATOMIC \<Rightarrow> snd (cmpxchg_gphys_l env phys 0 0 g))"

definition pmap_rd64 :: "env \<Rightarrow> pmap \<Rightarrow> u64 \<Rightarrow> gmem \<Rightarrow> u64 \<times> gmem" where
  "pmap_rd64 env m phys g =
     (case pm_type m of
        PMAP_TYPE_VMM \<Rightarrow> (ld64 (ram g) phys, g)
      | PMAP_TYPE_GUEST \<Rightarrow> let g = interfere env g in (ld64 (ram g) phys, g)
      | PMAP_TYPE_GUEST_ATOMIC \<Rightarrow> snd (cmpxchg_gphys_q env phys 0 0 g))"

text \<open>Whether the write failed, the entry now in memory as far as known, and the memory.\<close>

definition pmap_wr32 :: "env \<Rightarrow> pmap \<Rightarrow> u64 \<Rightarrow> u64 \<Rightarrow> u64 \<Rightarrow> gmem \<Rightarrow> bool \<times> u64 \<times> gmem" where
  "pmap_wr32 env m phys oldentry e g =
     (case pm_type m of
        PMAP_TYPE_VMM \<Rightarrow> (False, e, g\<lparr>ram := st32 (ram g) phys e\<rparr>)
      | PMAP_TYPE_GUEST \<Rightarrow> let g = interfere env g in (False, e, g\<lparr>ram := st32 (ram g) phys e\<rparr>)
      | PMAP_TYPE_GUEST_ATOMIC \<Rightarrow>
          let (r, v, g) = cmpxchg_gphys_l env phys (take_bit 32 oldentry) e g
          in (r, if r then v else e, g))"

definition pmap_wr64 :: "env \<Rightarrow> pmap \<Rightarrow> u64 \<Rightarrow> u64 \<Rightarrow> u64 \<Rightarrow> gmem \<Rightarrow> bool \<times> u64 \<times> gmem" where
  "pmap_wr64 env m phys oldentry e g =
     (case pm_type m of
        PMAP_TYPE_VMM \<Rightarrow> (False, e, g\<lparr>ram := st64 (ram g) phys e\<rparr>)
      | PMAP_TYPE_GUEST \<Rightarrow> let g = interfere env g in (False, e, g\<lparr>ram := st64 (ram g) phys e\<rparr>)
      | PMAP_TYPE_GUEST_ATOMIC \<Rightarrow>
          let (r, v, g) = cmpxchg_gphys_q env phys oldentry e g
          in (r, if r then v else e, g))"

text \<open>The 4 KiB entry made from an entry for a large page.\<close>

definition pte_of_pde :: "nat \<Rightarrow> u64 \<Rightarrow> u64 \<Rightarrow> u64" where
  "pte_of_pde levels curaddr e =
     (let e = e AND NOT PDE_PS_BIT;
          e = (if e AND PDE_4M_PAT_BIT \<noteq> 0 then (e OR PTE_PAT_BIT) AND NOT PDE_4M_PAT_BIT else e)
      in if levels = 2 then
           let e = e OR push_bit 32 (drop_bit 13 (e AND 0x1FE000)) in
           (e AND NOT 0x3FF000) OR (curaddr AND 0x3FF000)
         else (e AND NOT 0x1FF000) OR (curaddr AND 0x1FF000))"

text \<open>The 2 MiB entry made from an entry for a 1 GiB page.\<close>

definition pde_of_pdpe :: "u64 \<Rightarrow> u64 \<Rightarrow> u64" where
  "pde_of_pdpe curaddr e = (e AND NOT 0x3FE00000) OR (curaddr AND 0x3FE00000)"

text \<open>The address of the entry at level \<open>l\<close> in the table that the entry \<open>e\<close> above it names.\<close>

definition entry_addr :: "nat \<Rightarrow> u64 \<Rightarrow> nat \<Rightarrow> u64 \<Rightarrow> u64" where
  "entry_addr levels curaddr l e =
     (let tbl = (if levels = 3 \<and> l + 1 = 3 then e AND 0xFFFFFFE0 else e AND 0x0000FFFFFFFFF000)
      in if levels = 2 then tbl OR (drop_bit (10 + 10 * l) curaddr AND 0xFFC)
         else tbl OR (drop_bit (9 + 9 * l) curaddr AND 0xFF8))"

function pmap_read :: "env \<Rightarrow> pmap \<Rightarrow> gmem \<Rightarrow> u64 \<times> pmap \<times> gmem" where
  "pmap_read env m g =
     (if pm_readlevel m > pm_curlevel m then
        let tmp = pm_entry m (pm_readlevel m) in
        if tmp AND PDE_P_BIT = 0 then (0, m, g)
        else if pm_readlevel m = 2 \<and> tmp AND PDE_PS_BIT \<noteq> 0 then
          let tmp = pde_of_pdpe (pm_curaddr m) tmp in
          (if pm_curlevel m = 0 then pte_of_pde (pm_levels m) (pm_curaddr m) tmp else tmp, m, g)
        else if pm_readlevel m = 1 \<and> tmp AND PDE_PS_BIT \<noteq> 0 then
          (pte_of_pde (pm_levels m) (pm_curaddr m) tmp, m, g)
        else
          let l = pm_readlevel m - 1;
              a = entry_addr (pm_levels m) (pm_curaddr m) l tmp;
              (e, g) = (if pm_levels m = 2 then pmap_rd32 env m a g else pmap_rd64 env m a g)
          in pmap_read env (m\<lparr>pm_readlevel := l, pm_entryaddr := (pm_entryaddr m)(l := a),
                              pm_entry := (pm_entry m)(l := e)\<rparr>) g
      else (pm_entry m (pm_curlevel m), m, g))"
  by pat_completeness auto
termination
  by (relation "measure (\<lambda>(env, m, g). pm_readlevel m)") auto

declare pmap_read.simps [simp del]

definition pmap_write :: "env \<Rightarrow> pmap \<Rightarrow> u64 \<Rightarrow> u64 \<Rightarrow> gmem \<Rightarrow> (bool \<times> pmap \<times> gmem) res" where
  "pmap_write env m e attrmask g =
     res_bind (assert_res (pm_readlevel m \<le> pm_curlevel m)) (\<lambda>_.
     let attrdef = (if pm_levels m = 3 \<and> pm_curlevel m = 2 then 0
                    else if pm_curlevel m = 0 then PDE_RW_BIT OR PDE_US_BIT OR PDE_A_BIT OR PDE_D_BIT
                    else PDE_RW_BIT OR PDE_US_BIT OR PDE_A_BIT);
         e = (e AND (NOT 0xFFF OR attrmask)) OR (attrdef AND NOT attrmask);
         c = pm_curlevel m;
         (fail, e, g) =
           (if pm_levels m = 2 then pmap_wr32 env m (pm_entryaddr m c) (pm_entry m c) e g
            else pmap_wr64 env m (pm_entryaddr m c) (pm_entry m c) e g);
         m = m\<lparr>pm_entry := (pm_entry m)(c := e)\<rparr>
     in Inr (fail, if fail then m\<lparr>pm_readlevel := c\<rparr> else m, g))"

definition pmap_pointer :: "pmap \<Rightarrow> u64 res" where
  "pmap_pointer m =
     res_bind (assert_res (pm_readlevel m \<le> pm_curlevel m)) (\<lambda>_.
     res_bind (assert_res (pm_type m = PMAP_TYPE_VMM)) (\<lambda>_. Inr (pm_entryaddr m (pm_curlevel m))))"

definition pmap_clear :: "pmap \<Rightarrow> gmem \<Rightarrow> (pmap \<times> gmem) res" where
  "pmap_clear m g =
     (let c = pm_curlevel m; up = pm_entry m (c + 1) in
      res_bind (assert_res (pm_readlevel m \<le> c + 1)) (\<lambda>_.
      res_bind (assert_res (up AND PDE_P_BIT \<noteq> 0)) (\<lambda>_.
      res_bind (assert_res (\<not> (c = 0 \<and> pm_entry m 1 AND PDE_PS_BIT \<noteq> 0))) (\<lambda>_.
      res_bind (assert_res (pm_type m = PMAP_TYPE_VMM)) (\<lambda>_.
        Inr (m\<lparr>pm_readlevel := c + 1\<rparr>,
             g\<lparr>ram := memset (ram g) (unat (up AND NOT 0xFFF)) 0
                        (if pm_levels m = 3 \<and> c = 2 then 8 * 4 else 4096)\<rparr>))))))"

end
