(* ===== verification/Cpu_mmu.thy ===== *)
theory Cpu_mmu
  imports Pmap
begin

text \<open>
  Translation of guest-linear addresses, \<^verbatim>\<open>core/x86/cpu_mmu.c\<close>: the walk of the guest's page
  tables with the checks and the updates of accessed and dirty bits a processor does, and the
  accesses by linear address built on it.

  \<open>current->pte_addr_mask\<close> and the control registers of the virtual processor are in \<open>vcpu\<close>. The
  walk repeats a level when another processor changed the entry under it; it may go on for ever,
  so it is a \<open>partial_function (option)\<close>, where \<open>None\<close> means that it does not return. The
  theory shows that in a quiet environment it returns, that it computes the translation that the
  page tables define, and that in every environment a successful walk respects the rights in
  the entries.
\<close>

section \<open>Checks\<close>

definition PTE_ADDR_MASK64 :: u64 where "PTE_ADDR_MASK64 = 0x0000000FFFFFF000"

datatype vmmerr = VMMERR_SUCCESS | VMMERR_GUESTSEG_LOAD_FAILED | VMMERR_GUESTSEG_NOT_PRESENT
  | VMMERR_INVALID_GUESTSEG | VMMERR_PAGE_NOT_PRESENT | VMMERR_PAGE_NOT_ACCESSIBLE | VMMERR_PAGE_NOT_EXECUTABLE
  | VMMERR_PAGE_BAD_RESERVED_BIT | VMMERR_INSTRUCTION_TOO_LONG | VMMERR_UNIMPLEMENTED_OPCODE
  | VMMERR_UNSUPPORTED_OPCODE | VMMERR_EXCEPTION_UD | VMMERR_AVOID_COMPILER_WARNING | VMMERR_SW | VMMERR_NOMEM
  | VMMERR_EXCEPTION_GP

record get_pte_data =
  d_pg :: bool
  d_wp :: bool
  d_pse :: bool
  d_pae :: bool
  d_pcide :: bool
  d_lme :: bool
  d_nxe :: bool
  d_write :: bool
  d_user :: bool
  d_exec :: bool

definition reserved_bit_table :: "u64 list list list" where
  "reserved_bit_table =
     [[[0x0000000000200000, 0x0000000000000000, 0x0000000000000000,
        0xFFFFFFFFFFFFFFFF, 0xFFFFFFFFFFFFFFFF, 0xFFFFFFFFFFFFFFFF],
       [0xFFFFFFF0001FE000, 0xFFFFFFF000000000, 0xFFFFFFF000000000,
        0xFFFFFFF0000001E6, 0xFFFFFFFFFFFFFFFF, 0xFFFFFFFFFFFFFFFF],
       [0x800FFFF0001FE000, 0x800FFFF000000000, 0x800FFFF000000000,
        0x800FFFF000000100, 0x800FFFF000000180, 0x800FFFF03FFFE000]],
      [[0x0000000000200000, 0x0000000000000000, 0x0000000000000000,
        0xFFFFFFFFFFFFFFFF, 0xFFFFFFFFFFFFFFFF, 0xFFFFFFFFFFFFFFFF],
       [0x7FFFFFF0001FE000, 0x7FFFFFF000000000, 0x7FFFFFF000000000,
        0xFFFFFFF0000001E6, 0xFFFFFFFFFFFFFFFF, 0xFFFFFFFFFFFFFFFF],
       [0x000FFFF0001FE000, 0x000FFFF000000000, 0x000FFFF000000000,
        0x000FFFF000000100, 0x000FFFF000000180, 0x000FFFF03FFFE000]]]"

definition test_pmap_entry_reserved_bit :: "u64 \<Rightarrow> u64 \<Rightarrow> nat \<Rightarrow> nat \<Rightarrow> get_pte_data \<Rightarrow> bool res" where
  "test_pmap_entry_reserved_bit pte_addr_mask entry level levels d =
     (if \<not> d_pae d \<and> \<not> d_pse d then Inr False
      else
        let level = (if level = 2 \<and> entry AND PDE_PS_BIT \<noteq> 0 then 0 else level);
            level = (if level = 3 \<and> levels = 4 \<and> entry AND PDE_PS_BIT \<noteq> 0 then 5 else level);
            mask = reserved_bit_table ! (if d_nxe d then 1 else 0) ! (levels - 2) ! level;
            mask = mask XOR (pte_addr_mask XOR PTE_ADDR_MASK64)
        in res_bind (assert_res (mask \<noteq> 0xFFFFFFFFFFFFFFFF)) (\<lambda>_. Inr (entry AND mask \<noteq> 0)))"

text \<open>Whether the entry has to be walked again, the entry, the cursor and the memory.\<close>

definition set_ad_bit :: "env \<Rightarrow> pmap \<Rightarrow> u64 \<Rightarrow> bool \<Rightarrow> bool \<Rightarrow> gmem \<Rightarrow> (bool \<times> u64 \<times> pmap \<times> gmem) res" where
  "set_ad_bit env m entry seta setd g =
     (let seta = (seta \<and> entry AND PDE_A_BIT = 0);
          setd = (setd \<and> entry AND PDE_D_BIT = 0)
      in if seta \<or> setd then
           let entry = (if seta then entry OR PDE_A_BIT else entry);
               entry = (if setd then entry OR PDE_D_BIT else entry)
           in res_bind (pmap_write env m entry 0xFFF g) (\<lambda>(fail, m, g). Inr (fail, entry, m, g))
         else Inr (False, entry, m, g))"

section \<open>The walk\<close>

text \<open>What the checks say of the entry at interface level \<open>i\<close>; \<open>simplify2\<close> of the source comes
  before the check of the rights.\<close>

definition pae_entry :: "nat \<Rightarrow> nat \<Rightarrow> u64 \<Rightarrow> u64" where
  "pae_entry levels i entry =
     (if levels = 3 \<and> i = 3 then entry OR PDE_RW_BIT OR PDE_US_BIT OR PDE_A_BIT else entry)"

definition rights :: "get_pte_data \<Rightarrow> u64 \<Rightarrow> vmmerr" where
  "rights d entry =
     (if entry AND PDE_US_BIT = 0 \<and> d_user d then VMMERR_PAGE_NOT_ACCESSIBLE
      else if entry AND PDE_RW_BIT = 0 \<and> d_write d \<and> (d_wp d \<or> d_user d) then VMMERR_PAGE_NOT_ACCESSIBLE
      else if entry AND PDE_NX_BIT \<noteq> 0 \<and> d_exec d \<and> d_nxe d then VMMERR_PAGE_NOT_EXECUTABLE
      else VMMERR_SUCCESS)"

datatype walk_out = Fail vmmerr | Again | Entry u64

definition walk_step ::
    "env \<Rightarrow> u64 \<Rightarrow> get_pte_data \<Rightarrow> nat \<Rightarrow> nat \<Rightarrow> pmap \<Rightarrow> gmem \<Rightarrow> (walk_out \<times> pmap \<times> gmem) res" where
  "walk_step env pte_addr_mask d levels i m g =
     (case pmap_read env m g of
        (entry, m, g) \<Rightarrow>
          if entry AND PDE_P_BIT = 0 then Inr (Fail VMMERR_PAGE_NOT_PRESENT, m, g)
          else
            res_bind (test_pmap_entry_reserved_bit pte_addr_mask entry i levels d) (\<lambda>reserved.
            if reserved then Inr (Fail VMMERR_PAGE_BAD_RESERVED_BIT, m, g)
            else
              let entry = pae_entry levels i entry in
              if rights d entry \<noteq> VMMERR_SUCCESS then Inr (Fail (rights d entry), m, g)
              else
                let entry = (if i = 2 \<and> \<not> d_pse d then entry AND NOT PDE_PS_BIT else entry);
                    setd = ((i = 2 \<and> entry AND PDE_PS_BIT \<noteq> 0 \<or> i = 1 \<or> i = 3 \<and> entry AND PDE_PS_BIT \<noteq> 0) \<and> d_write d)
                in res_bind (set_ad_bit env m entry True setd g) (\<lambda>(retry, entry, m, g).
                   Inr (if retry then Again else Entry entry, m, g))))"

partial_function (option) walk_loop ::
    "env \<Rightarrow> u64 \<Rightarrow> get_pte_data \<Rightarrow> nat \<Rightarrow> nat \<Rightarrow> pmap \<Rightarrow> (nat \<Rightarrow> u64) \<Rightarrow> gmem \<Rightarrow>
      (vmmerr \<times> (nat \<Rightarrow> u64) \<times> gmem) res option" where
  "walk_loop env pte_addr_mask d levels i m entries g =
     (if i = 0 then Some (Inr (VMMERR_SUCCESS, entries, g))
      else
        case walk_step env pte_addr_mask d levels i (pmap_setlevel m i) g of
          Inl e \<Rightarrow> Some (Inl e)
        | Inr (out, m, g) \<Rightarrow>
            (case out of
               Fail r \<Rightarrow> Some (Inr (r, entries, g))
             | Again \<Rightarrow> walk_loop env pte_addr_mask d levels i m entries g
             | Entry entry \<Rightarrow> walk_loop env pte_addr_mask d levels (i - 1) m (entries(i - 1 := entry)) g))"

text \<open>The entries start as whatever the caller's array holds. The cursor \<open>m0\<close> is uninitialised.\<close>

definition pte_levels :: "get_pte_data \<Rightarrow> nat" where
  "pte_levels d = (if d_lme d then 4 else if d_pae d then 3 else 2)"

definition get_pte_sub ::
    "env \<Rightarrow> u64 \<Rightarrow> pmap \<Rightarrow> u64 \<Rightarrow> u64 \<Rightarrow> get_pte_data \<Rightarrow> (nat \<Rightarrow> u64) \<Rightarrow> gmem \<Rightarrow>
      (vmmerr \<times> (nat \<Rightarrow> u64) \<times> nat \<times> gmem) res option" where
  "get_pte_sub env pte_addr_mask m0 virt cr3 d entries g =
     (if \<not> d_pg d then
        Some (Inr (VMMERR_SUCCESS,
          entries(0 := (virt AND pte_addr_mask) OR PDE_P_BIT OR PDE_RW_BIT OR PDE_US_BIT OR PDE_A_BIT OR PDE_D_BIT,
                  1 := PDE_P_BIT OR PDE_RW_BIT OR PDE_US_BIT OR PDE_A_BIT OR PDE_D_BIT OR PDE_PS_BIT), 1, g))
      else
        let levels = pte_levels d;
            d = (if d_lme d then d\<lparr>d_pae := True, d_pse := True\<rparr> else if d_pae d then d\<lparr>d_pse := True\<rparr> else d);
            cr3 = (if levels = 4 \<and> d_pcide d then cr3 AND NOT 0xFFF else cr3);
            m = pmap_seek (pmap_open_guest m0 cr3 levels True) virt (levels + 1)
        in case pmap_read env m g of
             (entry, m, g) \<Rightarrow>
               map_option (\<lambda>r. res_bind r (\<lambda>(r, entries, g). Inr (r, entries, levels, g)))
                 (walk_loop env pte_addr_mask d levels levels m
                    (entries(levels := entry OR PDE_RW_BIT OR PDE_US_BIT OR PDE_A_BIT)) g))"

section \<open>Accesses by linear address\<close>

record vcpu =
  v_cr0 :: u64
  v_cr3 :: u64
  v_cr4 :: u64
  v_efer :: u64
  v_pte_addr_mask :: u64
  v_stack :: pmap  \<comment> \<open>what the uninitialised cursor holds\<close>

definition cpu_mmu_get_pte ::
    "env \<Rightarrow> vcpu \<Rightarrow> u64 \<Rightarrow> bool \<Rightarrow> bool \<Rightarrow> bool \<Rightarrow> (nat \<Rightarrow> u64) \<Rightarrow> gmem \<Rightarrow>
      (vmmerr \<times> (nat \<Rightarrow> u64) \<times> nat \<times> gmem) res option" where
  "cpu_mmu_get_pte env v virt write user exec entries g =
     get_pte_sub env (v_pte_addr_mask v) (v_stack v) virt (v_cr3 v)
       \<lparr>d_pg = v_cr0 v AND 0x80000000 \<noteq> 0, d_wp = v_cr0 v AND 0x10000 \<noteq> 0, d_pse = v_cr4 v AND 0x10 \<noteq> 0,
        d_pae = v_cr4 v AND 0x20 \<noteq> 0, d_pcide = v_cr4 v AND 0x20000 \<noteq> 0, d_lme = v_efer v AND 0x100 \<noteq> 0,
        d_nxe = v_efer v AND 0x800 \<noteq> 0, d_write = write, d_user = user, d_exec = exec\<rparr> entries g"

text \<open>The results of the accesses: \<open>None\<close> does not return, \<open>Inl\<close> stops the hypervisor, else the
  error or the value.\<close>

type_synonym 'a access = "gmem \<Rightarrow> ((vmmerr + 'a) \<times> gmem) res option"

definition RIE :: "'a access \<Rightarrow> ('a \<Rightarrow> 'b access) \<Rightarrow> 'b access" where
  "RIE a f g =
     (case a g of
        None \<Rightarrow> None
      | Some (Inl e) \<Rightarrow> Some (Inl e)
      | Some (Inr (Inl err, g)) \<Rightarrow> Some (Inr (Inl err, g))
      | Some (Inr (Inr x, g)) \<Rightarrow> f x g)"

definition success :: "'a \<Rightarrow> 'a access" where
  "success x g = Some (Inr (Inr x, g))"

definition get_pte :: "env \<Rightarrow> vcpu \<Rightarrow> u64 \<Rightarrow> bool \<Rightarrow> bool \<Rightarrow> bool \<Rightarrow> u64 access" where
  "get_pte env v virt wr us ex g =
     map_option (\<lambda>r. res_bind r (\<lambda>(r, entries, _, g).
       Inr (if r = VMMERR_SUCCESS then Inr (entries 0) else Inl r, g)))
       (cpu_mmu_get_pte env v virt wr us ex (\<lambda>_. 0) g)"

definition write_linearaddr_ok_b :: "env \<Rightarrow> vcpu \<Rightarrow> u64 \<Rightarrow> unit access" where
  "write_linearaddr_ok_b env v linear = RIE (get_pte env v linear True False False) (\<lambda>_. success ())"

definition write_linearaddr_ok_w :: "env \<Rightarrow> vcpu \<Rightarrow> u64 \<Rightarrow> unit access" where
  "write_linearaddr_ok_w env v linear =
     (if linear AND 0xFFE \<le> 0xFFE then write_linearaddr_ok_b env v linear
      else RIE (write_linearaddr_ok_b env v linear) (\<lambda>_. write_linearaddr_ok_b env v (linear + 1)))"

definition write_linearaddr_ok_l :: "env \<Rightarrow> vcpu \<Rightarrow> u64 \<Rightarrow> unit access" where
  "write_linearaddr_ok_l env v linear =
     (if linear AND 0xFFC \<le> 0xFFC then write_linearaddr_ok_w env v linear
      else RIE (write_linearaddr_ok_w env v linear) (\<lambda>_. write_linearaddr_ok_w env v (linear + 2)))"

text \<open>The guest-physical accesses of \<open>n\<close> bytes, little endian.\<close>

definition write_gphys :: "env \<Rightarrow> nat \<Rightarrow> u64 \<Rightarrow> u64 \<Rightarrow> unit access" where
  "write_gphys env n phys data g =
     (let g = interfere env g in success () (g\<lparr>ram := store_le (ram g) (unat phys) n data\<rparr>))"

definition read_gphys :: "env \<Rightarrow> nat \<Rightarrow> u64 \<Rightarrow> u64 access" where
  "read_gphys env n phys g = (let g = interfere env g in success (load_le (ram g) (unat phys) n) g)"

definition phys_of :: "vcpu \<Rightarrow> u64 \<Rightarrow> u64 \<Rightarrow> u64" where
  "phys_of v pte linear = (pte AND v_pte_addr_mask v) OR (linear AND 0xFFF)"

definition write_linearaddr_b :: "env \<Rightarrow> vcpu \<Rightarrow> u64 \<Rightarrow> u64 \<Rightarrow> unit access" where
  "write_linearaddr_b env v linear data =
     RIE (get_pte env v linear True False False) (\<lambda>pte. write_gphys env 1 (phys_of v pte linear) data)"

definition write_linearaddr_w :: "env \<Rightarrow> vcpu \<Rightarrow> u64 \<Rightarrow> u64 \<Rightarrow> unit access" where
  "write_linearaddr_w env v linear data =
     (if linear AND 0xFFF = 0xFFF then
        RIE (write_linearaddr_b env v linear data) (\<lambda>_. write_linearaddr_b env v (linear + 1) (drop_bit 8 data))
      else RIE (get_pte env v linear True False False) (\<lambda>pte. write_gphys env 2 (phys_of v pte linear) data))"

definition write_linearaddr_l :: "env \<Rightarrow> vcpu \<Rightarrow> u64 \<Rightarrow> u64 \<Rightarrow> unit access" where
  "write_linearaddr_l env v linear data =
     (if linear AND 0xFFF \<ge> 0xFFD then
        RIE (write_linearaddr_w env v linear (take_bit 16 data))
          (\<lambda>_. write_linearaddr_w env v (linear + 2) (drop_bit 16 data))
      else RIE (get_pte env v linear True False False) (\<lambda>pte. write_gphys env 4 (phys_of v pte linear) data))"

definition write_linearaddr_q :: "env \<Rightarrow> vcpu \<Rightarrow> u64 \<Rightarrow> u64 \<Rightarrow> unit access" where
  "write_linearaddr_q env v linear data =
     (if linear AND 0xFFF \<ge> 0xFF9 then
        RIE (write_linearaddr_l env v linear (take_bit 32 data))
          (\<lambda>_. write_linearaddr_l env v (linear + 4) (drop_bit 32 data))
      else RIE (get_pte env v linear True False False) (\<lambda>pte. write_gphys env 8 (phys_of v pte linear) data))"

definition read_linearaddr_b :: "env \<Rightarrow> vcpu \<Rightarrow> u64 \<Rightarrow> u64 access" where
  "read_linearaddr_b env v linear =
     RIE (get_pte env v linear False False False) (\<lambda>pte. read_gphys env 1 (phys_of v pte linear))"

definition read_linearaddr_w :: "env \<Rightarrow> vcpu \<Rightarrow> u64 \<Rightarrow> u64 access" where
  "read_linearaddr_w env v linear =
     (if linear AND 0xFFF = 0xFFF then
        RIE (read_linearaddr_b env v linear) (\<lambda>lo.
        RIE (read_linearaddr_b env v (linear + 1)) (\<lambda>hi. success (lo OR push_bit 8 hi)))
      else RIE (get_pte env v linear False False False) (\<lambda>pte. read_gphys env 2 (phys_of v pte linear)))"

definition read_linearaddr_l :: "env \<Rightarrow> vcpu \<Rightarrow> u64 \<Rightarrow> u64 access" where
  "read_linearaddr_l env v linear =
     (if linear AND 0xFFF \<ge> 0xFFD then
        RIE (read_linearaddr_w env v linear) (\<lambda>lo.
        RIE (read_linearaddr_w env v (linear + 2)) (\<lambda>hi. success (lo OR push_bit 16 hi)))
      else RIE (get_pte env v linear False False False) (\<lambda>pte. read_gphys env 4 (phys_of v pte linear)))"

definition read_linearaddr_q :: "env \<Rightarrow> vcpu \<Rightarrow> u64 \<Rightarrow> u64 access" where
  "read_linearaddr_q env v linear =
     (if linear AND 0xFFF \<ge> 0xFF9 then
        RIE (read_linearaddr_l env v linear) (\<lambda>lo.
        RIE (read_linearaddr_l env v (linear + 4)) (\<lambda>hi. success (lo OR push_bit 32 hi)))
      else RIE (get_pte env v linear False False False) (\<lambda>pte. read_gphys env 8 (phys_of v pte linear)))"

section \<open>Bits of entries\<close>

lemma and_bit_eq_0: "(w AND 2 ^ k = 0) \<longleftrightarrow> \<not> bit (w :: u64) k" 
  by (simp add: and_exp_eq_0_iff_not_bit)

lemma bit_2k: "bit (2 ^ k :: u64) n \<longleftrightarrow> n = k \<and> k < 64"
  by (auto simp: bit_exp_iff)

lemma pde_pows: "PDE_P_BIT = 2 ^ 0" "PDE_RW_BIT = 2 ^ 1" "PDE_US_BIT = 2 ^ 2" "PDE_A_BIT = 2 ^ 5" "PDE_D_BIT = 2 ^ 6"
  "PDE_PS_BIT = 2 ^ 7" "PDE_NX_BIT = 2 ^ 63" "PDE_4M_PAT_BIT = 2 ^ 12" "PTE_PAT_BIT = 2 ^ 7"
  "PDE_PWT_BIT = 2 ^ 3" "PDE_PCD_BIT = 2 ^ 4"
  by (simp_all add: pde_bits)

lemma bit_pde [simp]:
  "bit PDE_P_BIT n \<longleftrightarrow> n = 0" "bit PDE_RW_BIT n \<longleftrightarrow> n = 1" "bit PDE_US_BIT n \<longleftrightarrow> n = 2" "bit PDE_A_BIT n \<longleftrightarrow> n = 5"
  "bit PDE_D_BIT n \<longleftrightarrow> n = 6" "bit PDE_PS_BIT n \<longleftrightarrow> n = 7" "bit PDE_NX_BIT n \<longleftrightarrow> n = 63" "bit PDE_4M_PAT_BIT n \<longleftrightarrow> n = 12"
  "bit PTE_PAT_BIT n \<longleftrightarrow> n = 7" "bit PDE_PWT_BIT n \<longleftrightarrow> n = 3" "bit PDE_PCD_BIT n \<longleftrightarrow> n = 4"
  unfolding pde_pows by (simp_all only: bit_2k) auto

lemma and_pde [simp]:
  "(e AND PDE_P_BIT = 0) \<longleftrightarrow> \<not> bit e 0" "(e AND PDE_RW_BIT = 0) \<longleftrightarrow> \<not> bit e 1" "(e AND PDE_US_BIT = 0) \<longleftrightarrow> \<not> bit e 2"
  "(e AND PDE_A_BIT = 0) \<longleftrightarrow> \<not> bit e 5" "(e AND PDE_D_BIT = 0) \<longleftrightarrow> \<not> bit e 6" "(e AND PDE_PS_BIT = 0) \<longleftrightarrow> \<not> bit e 7"
  "(e AND PDE_NX_BIT = 0) \<longleftrightarrow> \<not> bit e 63" "(e AND PDE_4M_PAT_BIT = 0) \<longleftrightarrow> \<not> bit e 12"
  unfolding pde_pows by (simp_all only: and_bit_eq_0)

section \<open>Rights\<close>

text \<open>An entry at interface level \<open>i\<close> that lets the access through, and records it.\<close>

definition allows :: "get_pte_data \<Rightarrow> nat \<Rightarrow> u64 \<Rightarrow> bool" where
  "allows d i e \<longleftrightarrow>
     bit e 0 \<and> (d_user d \<longrightarrow> bit e 2) \<and> (d_write d \<and> (d_wp d \<or> d_user d) \<longrightarrow> bit e 1) \<and>
     (d_exec d \<and> d_nxe d \<longrightarrow> \<not> bit e 63) \<and> bit e 5 \<and> (i = 1 \<and> d_write d \<longrightarrow> bit e 6)"

lemma rights_success:
  "rights d e = VMMERR_SUCCESS \<longleftrightarrow> (d_user d \<longrightarrow> bit e 2) \<and> (d_write d \<and> (d_wp d \<or> d_user d) \<longrightarrow> bit e 1) \<and>
     (d_exec d \<and> d_nxe d \<longrightarrow> \<not> bit e 63)"
  by (auto simp: rights_def)

lemma set_ad_bit_entry:
  assumes "set_ad_bit env m e True setd g = Inr (retry, e', m', g')"
  shows "\<And>n. n \<noteq> 5 \<Longrightarrow> n \<noteq> 6 \<Longrightarrow> bit e' n \<longleftrightarrow> bit e n" "bit e' 5" "setd \<Longrightarrow> bit e' 6" "bit e 6 \<Longrightarrow> bit e' 6"
  using assms by (auto simp: set_ad_bit_def Let_def res_bind_Inr_iff bit_simps split: if_splits)

lemma walk_step_allows:
  assumes "walk_step env pam d levels i m g = Inr (Entry e, m', g')"
  shows "allows d i e"
proof -
  obtain e0 m0 g0 where r: "pmap_read env m g = (e0, m0, g0)" by (metis prod_cases3)
  let ?e1 = "pae_entry levels i e0"
  let ?e2 = "if i = 2 \<and> \<not> d_pse d then ?e1 AND NOT PDE_PS_BIT else ?e1"
  let ?setd = "(i = 2 \<and> bit ?e2 7 \<or> i = 1 \<or> i = 3 \<and> bit ?e2 7) \<and> d_write d"
  have a: "bit e0 0" "rights d ?e1 = VMMERR_SUCCESS" "set_ad_bit env m0 ?e2 True ?setd g0 = Inr (False, e, m', g')"
    using assms unfolding walk_step_def r
    by (auto simp: Let_def res_bind_Inr_iff split: if_splits)
  note s = set_ad_bit_entry [OF a(3)]
  have "bit ?e1 0" using a(1) by (simp add: pae_entry_def bit_simps)
  then show ?thesis using a(2) s by (auto simp: allows_def rights_success bit_simps)
qed

lemma walk_step_fail:
  assumes "walk_step env pam d levels i m g = Inr (Fail r, m', g')"
  shows "r \<noteq> VMMERR_SUCCESS"
proof -
  obtain e0 m0 g0 where r: "pmap_read env m g = (e0, m0, g0)" by (metis prod_cases3)
  show ?thesis
    using assms unfolding walk_step_def r by (auto simp: Let_def res_bind_Inr_iff split: if_splits prod.splits)
qed

lemma walk_loop_allows:
  assumes "walk_loop env pam d levels i m entries g = Some (Inr (VMMERR_SUCCESS, es, g'))"
  shows "(\<forall>k < i. allows d (k + 1) (es k)) \<and> (\<forall>k \<ge> i. es k = entries k)"
proof -
  have "r = Inr (VMMERR_SUCCESS, es, g') \<longrightarrow> (\<forall>k < i. allows d (k + 1) (es k)) \<and> (\<forall>k \<ge> i. es k = entries k)"
    if "walk_loop env pam d levels i m entries g = Some r" for r
  proof (rule walk_loop.raw_induct [where P = "\<lambda>env pam d levels i m entries g r. r = Inr (VMMERR_SUCCESS, es, g') \<longrightarrow>
        (\<forall>k < i. allows d (k + 1) (es k)) \<and> (\<forall>k \<ge> i. es k = entries k)", OF _ that], goal_cases)
    case (1 f env pam d levels i m entries g r)
    show ?case
    proof (cases "i = 0")
      case True
      then show ?thesis using 1(2) by auto
    next
      case False
      show ?thesis
      proof (cases "walk_step env pam d levels i (pmap_setlevel m i) g")
        case (Inl e)
        then show ?thesis using 1(2) False by auto
      next
        case (Inr p)
        obtain out m1 g1 where p: "p = (out, m1, g1)" by (metis prod_cases3)
        note w = Inr [unfolded p]
        show ?thesis
        proof (cases out)
          case (Fail e)
          then show ?thesis using 1(2) False w walk_step_fail [of env pam d levels i "pmap_setlevel m i" g e m1 g1] by auto
        next
          case Again
          then show ?thesis using 1 False w by auto
        next
          case (Entry e)
          then have ok: "allows d i e" using walk_step_allows w by blast
          have IH: "r = Inr (VMMERR_SUCCESS, es, g') \<longrightarrow>
              (\<forall>k < i - 1. allows d (k + 1) (es k)) \<and> (\<forall>k \<ge> i - 1. es k = (entries(i - 1 := e)) k)"
            using 1 False w Entry by simp
          show ?thesis
          proof (intro impI conjI allI)
            fix k assume r: "r = Inr (VMMERR_SUCCESS, es, g')"
            show "allows d (k + 1) (es k)" if "k < i"
              using IH r ok that False by (cases "k = i - 1") auto
            show "es k = entries k" if "i \<le> k" using IH r that False by auto
          qed
        qed
      qed
    qed
  qed
  then show ?thesis using assms by blast
qed

lemma get_pte_sub_loop:
  assumes "d_pg d"
  shows "\<exists>d' m' es0 g0. get_pte_sub env pam m0 virt cr3 d entries g =
       map_option (\<lambda>r. res_bind r (\<lambda>(r, entries, g). Inr (r, entries, pte_levels d, g)))
         (walk_loop env pam d' (pte_levels d) (pte_levels d) m' es0 g0) \<and> allows d' = allows d"
proof -
  define d' where "d' = (if d_lme d then d\<lparr>d_pae := True, d_pse := True\<rparr> else if d_pae d then d\<lparr>d_pse := True\<rparr> else d)"
  define m where "m = pmap_seek (pmap_open_guest m0 (if pte_levels d = 4 \<and> d_pcide d' then cr3 AND NOT 0xFFF else cr3)
      (pte_levels d) True) virt (pte_levels d + 1)"
  obtain e m' g' where r: "pmap_read env m g = (e, m', g')" by (metis prod_cases3)
  have "get_pte_sub env pam m0 virt cr3 d entries g =
       map_option (\<lambda>r. res_bind r (\<lambda>(r, entries, g). Inr (r, entries, pte_levels d, g)))
         (walk_loop env pam d' (pte_levels d) (pte_levels d) m'
            (entries(pte_levels d := e OR PDE_RW_BIT OR PDE_US_BIT OR PDE_A_BIT)) g')"
    using assms unfolding get_pte_sub_def Let_def d'_def [symmetric] m_def [symmetric] r by simp
  moreover have "allows d' = allows d" by (simp add: d'_def allows_def fun_eq_iff)
  ultimately show ?thesis by blast
qed


section \<open>Masks\<close>

declare bit_numeral_word_iff [simp del, bit_simps del]

lemma mask_range: "bit (mask h AND NOT (mask l) :: u64) n \<longleftrightarrow> l \<le> n \<and> n < h \<and> n < 64"
  by (auto simp: bit_simps)

lemma mask_consts:
  "(0x0000FFFFFFFFF000 :: u64) = mask 48 AND NOT (mask 12)"
  "(0xFFFFFFE0 :: u64) = mask 32 AND NOT (mask 5)"
  "(0xFF8 :: u64) = mask 12 AND NOT (mask 3)"
  "(0xFFC :: u64) = mask 12 AND NOT (mask 2)"
  "(0x1FF000 :: u64) = mask 21 AND NOT (mask 12)"
  "(0x3FF000 :: u64) = mask 22 AND NOT (mask 12)"
  "(0x3FE00000 :: u64) = mask 30 AND NOT (mask 21)"
  "(0x1FE000 :: u64) = mask 21 AND NOT (mask 13)"
  "(0xFFF :: u64) = mask 12 AND NOT (mask 0)"
  "(0x1F :: u64) = mask 5 AND NOT (mask 0)"
  "(0xFF00000000 :: u64) = mask 40 AND NOT (mask 32)"
  by (simp_all add: mask_eq_exp_minus_1)

lemma bit_consts:
  "bit (0x0000FFFFFFFFF000 :: u64) n \<longleftrightarrow> 12 \<le> n \<and> n < 48"
  "bit (0xFFFFFFE0 :: u64) n \<longleftrightarrow> 5 \<le> n \<and> n < 32"
  "bit (0xFF8 :: u64) n \<longleftrightarrow> 3 \<le> n \<and> n < 12"
  "bit (0xFFC :: u64) n \<longleftrightarrow> 2 \<le> n \<and> n < 12"
  "bit (0x1FF000 :: u64) n \<longleftrightarrow> 12 \<le> n \<and> n < 21"
  "bit (0x3FF000 :: u64) n \<longleftrightarrow> 12 \<le> n \<and> n < 22"
  "bit (0x3FE00000 :: u64) n \<longleftrightarrow> 21 \<le> n \<and> n < 30"
  "bit (0x1FE000 :: u64) n \<longleftrightarrow> 13 \<le> n \<and> n < 21"
  "bit (0xFFF :: u64) n \<longleftrightarrow> n < 12"
  "bit (0x1F :: u64) n \<longleftrightarrow> n < 5"
  "bit (0xFF00000000 :: u64) n \<longleftrightarrow> 32 \<le> n \<and> n < 40"
  unfolding mask_consts mask_range by auto

lemma not_fff: "NOT 0xFFF = (- 0x1000 :: u64)" "NOT 0x1F = (- 0x20 :: u64)"
  by simp_all

lemma bit_neg_consts: "bit (- 0x1000 :: u64) n \<longleftrightarrow> 12 \<le> n \<and> n < 64" "bit (- 0x20 :: u64) n \<longleftrightarrow> 5 \<le> n \<and> n < 64"
  unfolding not_fff [symmetric] bit_not_iff bit_consts by auto

section \<open>Reading without interference\<close>

definition quiet :: env where "quiet = (\<lambda>_ m. m)"

lemma ram_interfere [simp]: "ram (interfere quiet g) = ram g"
  by (simp add: interfere_def quiet_def)

lemma load_store_le:
  "n \<le> 8 \<Longrightarrow> load_le (store_le m a n v) a n = take_bit (8 * n) v"
  by (rule bit_eqI) (auto simp: bit_load_le store_le_at bit_simps)

lemma st32_same: "ld32 m a = v \<Longrightarrow> st32 m a v = m"
proof -
  assume v: "ld32 m a = v"
  have "ucast (drop_bit (8 * (x - unat a)) v) = m x" if "unat a \<le> x" "x < unat a + 4" for x
    by (rule bit_eqI) (use that in \<open>auto simp: v [symmetric] ld32_def bit_simps bit_load_le\<close>)
  then show ?thesis by (auto simp: st32_def store_le_at fun_eq_iff)
qed

lemma st64_same: "ld64 m a = v \<Longrightarrow> st64 m a v = m"
proof -
  assume v: "ld64 m a = v"
  have "ucast (drop_bit (8 * (x - unat a)) v) = m x" if "unat a \<le> x" "x < unat a + 8" for x
    by (rule bit_eqI) (use that in \<open>auto simp: v [symmetric] ld64_def bit_simps bit_load_le\<close>)
  then show ?thesis by (auto simp: st64_def store_le_at fun_eq_iff)
qed

lemma pmap_rd_quiet:
  "ram (snd (pmap_rd32 quiet m a g)) = ram g" "fst (pmap_rd32 quiet m a g) = ld32 (ram g) a"
  "ram (snd (pmap_rd64 quiet m a g)) = ram g" "fst (pmap_rd64 quiet m a g) = ld64 (ram g) a"
  by (auto simp: pmap_rd32_def pmap_rd64_def cmpxchg_gphys_l_def cmpxchg_gphys_q_def Let_def st32_same st64_same
      split: pmap_type.split)

lemma pmap_read_cached: "pm_readlevel m \<le> pm_curlevel m \<Longrightarrow> pmap_read env m g = (pm_entry m (pm_curlevel m), m, g)"
  by (simp add: pmap_read.simps)

definition read_below :: "pmap \<Rightarrow> u64 \<Rightarrow> pmap" where
  "read_below m e =
     (let c = pm_curlevel m; a = entry_addr (pm_levels m) (pm_curaddr m) c (pm_entry m (Suc c)) in
      m\<lparr>pm_readlevel := c, pm_entryaddr := (pm_entryaddr m)(c := a), pm_entry := (pm_entry m)(c := e)\<rparr>)"

lemma pmap_read_next:
  assumes "pm_readlevel m = Suc (pm_curlevel m)" "bit (pm_entry m (pm_readlevel m)) 0"
    and "\<not> (bit (pm_entry m (pm_readlevel m)) 7 \<and> (pm_readlevel m = 1 \<or> pm_readlevel m = 2))"
    and "a = entry_addr (pm_levels m) (pm_curaddr m) (pm_curlevel m) (pm_entry m (pm_readlevel m))"
    and "e = (if pm_levels m = 2 then ld32 (ram g) a else ld64 (ram g) a)"
  shows "\<exists>g'. ram g' = ram g \<and> pmap_read quiet m g = (e, read_below m e, g')"
proof -
  define p where "p = (if pm_levels m = 2 then pmap_rd32 quiet m a g else pmap_rd64 quiet m a g)"
  have p: "fst p = e" "ram (snd p) = ram g" by (simp_all add: p_def pmap_rd_quiet assms(5))
  let ?m' = "m\<lparr>pm_readlevel := pm_curlevel m, pm_entryaddr := (pm_entryaddr m)(pm_curlevel m := a),
      pm_entry := (pm_entry m)(pm_curlevel m := fst p)\<rparr>"
  have "pmap_read quiet m g = pmap_read quiet ?m' (snd p)"
    using assms(1-3) by (subst pmap_read.simps) (auto simp: Let_def p_def assms(4) case_prod_unfold)
  also have "\<dots> = (e, read_below m e, snd p)"
    using p assms(1,4) by (simp add: pmap_read_cached read_below_def Let_def)
  finally show ?thesis using p(2) by blast
qed

lemma read_below_sel [simp]:
  "pm_readlevel (read_below m e) = pm_curlevel m" "pm_curlevel (read_below m e) = pm_curlevel m"
  "pm_levels (read_below m e) = pm_levels m" "pm_curaddr (read_below m e) = pm_curaddr m" "pm_type (read_below m e) = pm_type m"
  "pm_entry (read_below m e) = (pm_entry m)(pm_curlevel m := e)"
  "pm_entryaddr (read_below m e) = (pm_entryaddr m)(pm_curlevel m :=
     entry_addr (pm_levels m) (pm_curaddr m) (pm_curlevel m) (pm_entry m (Suc (pm_curlevel m))))"
  by (simp_all add: read_below_def Let_def)

text \<open>The cursor of a walk before the first level.\<close>

lemma open_seek:
  "pmap_read env (pmap_seek (pmap_open_guest m0 cr3 levels True) virt (levels + 1)) g =
     (pm_entry (pmap_open_guest m0 cr3 levels True) levels,
      (pmap_open_guest m0 cr3 levels True)\<lparr>pm_curlevel := levels, pm_curaddr := virt\<rparr>, g)"
proof -
  have "seek_up levels c virt levels = levels" for c by (simp add: seek_up.simps)
  then have "pmap_seek (pmap_open_guest m0 cr3 levels True) virt (levels + 1) =
      (pmap_open_guest m0 cr3 levels True)\<lparr>pm_curlevel := levels, pm_curaddr := virt\<rparr>"
    by (simp add: pmap_seek_def pmap_setlevel_def pmap_open_guest_def Let_def)
  then show ?thesis by (simp add: pmap_read_cached pmap_open_guest_def)
qed

lemma root_entry_addr:
  "entry_addr 2 virt 1 ((cr3 AND (NOT 0xFFF OR PDE_PWT_BIT OR PDE_PCD_BIT)) OR PDE_P_BIT) =
     (cr3 AND 0x0000FFFFFFFFF000) OR (drop_bit 20 virt AND 0xFFC)"
  unfolding entry_addr_def Let_def
  by (rule bit_eqI) (auto simp: bit_simps bit_consts bit_neg_consts not_fff)

text \<open>
  C39. With page size extensions off (CR4.PSE = 0, 32-bit paging), a guest page-directory entry
  that has bit 7 and the accessed bit set and the dirty bit clear makes the hypervisor fail an
  assertion when it translates a write: the cleared PS bit of the entry is not cleared in the
  cursor, which takes the entry for a large page and then cannot set its dirty bit.
\<close>

theorem pse_off_large_entry_asserts:
  assumes "d_pg d" "\<not> d_lme d" "\<not> d_pae d" "\<not> d_pse d" "d_write d" "rights d pde = VMMERR_SUCCESS"
    and "pde AND PDE_P_BIT \<noteq> 0" "pde AND PDE_PS_BIT \<noteq> 0" "pde AND PDE_A_BIT \<noteq> 0" "pde AND PDE_D_BIT = 0"
    and "ld32 (ram g) ((cr3 AND 0x0000FFFFFFFFF000) OR (drop_bit 20 virt AND 0xFFC)) = pde"
  shows "get_pte_sub quiet pam m0 virt cr3 d entries g = Some (Inl Assert_fail)"
proof -
  let ?e2 = "(cr3 AND (NOT 0xFFF OR PDE_PWT_BIT OR PDE_PCD_BIT)) OR PDE_P_BIT"
  define m where "m = (pmap_open_guest m0 cr3 2 True)\<lparr>pm_curlevel := 2, pm_curaddr := virt\<rparr>"
  have m: "pm_entry m 2 = ?e2" "pm_readlevel m = 2" "pm_levels m = 2" "pm_curaddr m = virt"
    by (simp_all add: m_def pmap_open_guest_def)
  let ?m1 = "pmap_setlevel m 2"
  have m1: "pm_readlevel ?m1 = 2" "pm_curlevel ?m1 = 1" "pm_levels ?m1 = 2" "pm_entry ?m1 2 = ?e2" "pm_curaddr ?m1 = virt"
    by (simp_all add: pmap_setlevel_def m)
  have b: "bit ?e2 0" "\<not> bit ?e2 7" by (simp_all add: bit_simps not_fff bit_neg_consts bit_consts)
  obtain g1 where r1: "pmap_read quiet ?m1 g = (pde, read_below ?m1 pde, g1)"
    using pmap_read_next [of ?m1 "entry_addr 2 virt 1 ?e2" pde g] m1 b assms(11) root_entry_addr [of virt cr3] by auto
  have w2: "walk_step quiet pam d 2 2 ?m1 g = Inr (Entry (pde AND NOT PDE_PS_BIT), read_below ?m1 pde, g1)"
    unfolding walk_step_def r1 using assms
    by (simp add: test_pmap_entry_reserved_bit_def pae_entry_def set_ad_bit_def bit_simps)
  let ?m2 = "pmap_setlevel (read_below ?m1 pde) 1"
  let ?pte = "pte_of_pde 2 virt pde"
  have r2: "pmap_read quiet ?m2 g1 = (?pte, ?m2, g1)"
    using assms(7,8) m1 by (subst pmap_read.simps) (simp add: pmap_setlevel_def)
  have p: "bit ?pte n \<longleftrightarrow> bit pde n" if "n < 7" for n
    using that by (auto simp: pte_of_pde_def Let_def bit_simps bit_consts)
  have nx: "\<not> bit pde 63"
    unfolding assms(11) [symmetric] ld32_def by (simp add: bit_load_le)
  have "\<not> bit ?pte 63" using nx by (auto simp: pte_of_pde_def Let_def bit_simps bit_consts)
  then have "rights d ?pte = VMMERR_SUCCESS" using assms(6) p by (auto simp: rights_success)
  then have "walk_step quiet pam d 2 1 ?m2 g1 = Inl Assert_fail"
    unfolding walk_step_def r2 using assms p m1
    by (simp add: test_pmap_entry_reserved_bit_def pae_entry_def set_ad_bit_def pmap_write_def pmap_setlevel_def)
  then have "walk_loop quiet pam d 2 1 (read_below ?m1 pde) es g1 = Some (Inl Assert_fail)" for es
    by (subst walk_loop.simps) simp
  then have "walk_loop quiet pam d 2 2 m es g = Some (Inl Assert_fail)" for es
    using w2 by (subst walk_loop.simps) simp
  moreover have "pte_levels d = 2" using assms by (simp add: pte_levels_def)
  ultimately show ?thesis
    using assms(1-3) open_seek [of quiet m0 cr3 2 virt g] by (simp add: get_pte_sub_def m_def)
qed

theorem pse_off_large_entry_asserts_witness:
  "\<forall>m0 entries. get_pte_sub quiet 0xFFFFFF000 m0 0 0x1000
     \<lparr>d_pg = True, d_wp = True, d_pse = False, d_pae = False, d_pcide = False, d_lme = False, d_nxe = False,
      d_write = True, d_user = False, d_exec = False\<rparr> entries
     \<lparr>ram = (\<lambda>a. if a = 0x1000 then 0xA7 else if a = 0x1002 then 0x40 else 0), tick = 0\<rparr> = Some (Inl Assert_fail)"
proof (intro allI, rule pse_off_large_entry_asserts [of _ "0x4000A7"])
  show "ld32 (ram \<lparr>ram = (\<lambda>a. if a = 0x1000 then 0xA7 else if a = 0x1002 then 0x40 else 0), tick = 0\<rparr>)
      ((0x1000 AND 0x0000FFFFFFFFF000) OR (drop_bit 20 0 AND 0xFFC)) = 0x4000A7"
    by code_simp
qed (simp_all add: rights_def pde_bits)

section \<open>The translation that the tables define\<close>

text \<open>
  Long mode: the entry \<open>e\<close> of level \<open>l + 1\<close> (the root is level 4) names the table of level
  \<open>l\<close>, or a page of 1 GiB or 2 MiB at the levels 2 and 1 with the PS bit, or, at level 0, a
  page of 4 KiB. \<open>rd\<close> reads an entry, \<open>pam\<close> are the bits of physical addresses.
\<close>

definition page_addr :: "u64 \<Rightarrow> u64 \<Rightarrow> nat \<Rightarrow> u64 \<Rightarrow> u64" where
  "page_addr pam virt size_bits e = (e AND pam AND NOT (mask size_bits)) OR (virt AND mask size_bits)"

fun long_walk :: "(u64 \<Rightarrow> u64) \<Rightarrow> u64 \<Rightarrow> u64 \<Rightarrow> nat \<Rightarrow> u64 \<Rightarrow> u64 option" where
  "long_walk rd pam virt 0 e = Some (page_addr pam virt 12 e)"
| "long_walk rd pam virt (Suc l) e =
     (if bit e 7 \<and> (l = 0 \<or> l = 1) then Some (page_addr pam virt (12 + 9 * Suc l) e)
      else let e' = rd ((e AND (mask 48 AND NOT (mask 12))) OR push_bit 3 (take_bit 9 (drop_bit (12 + 9 * l) virt)))
           in if bit e' 0 then long_walk rd pam virt l e' else None)"

text \<open>Entries and memories that differ in accessed and dirty bits only.\<close>

definition agree :: "u64 \<Rightarrow> u64 \<Rightarrow> bool" where
  "agree e e' \<longleftrightarrow> (\<forall>n. n \<noteq> 5 \<longrightarrow> n \<noteq> 6 \<longrightarrow> (bit e n \<longleftrightarrow> bit e' n))"

definition ad_same :: "mem \<Rightarrow> mem \<Rightarrow> bool" where
  "ad_same m m' \<longleftrightarrow> (\<forall>a :: u64. take_bit 3 a = 0 \<longrightarrow> agree (ld64 m a) (ld64 m' a))"

lemma agree_refl [simp]: "agree e e" by (simp add: agree_def)

lemma agree_trans: "agree a b \<Longrightarrow> agree b c \<Longrightarrow> agree a c" by (simp add: agree_def)

lemma page_addr_agree: "agree e e' \<Longrightarrow> 12 \<le> k \<Longrightarrow> page_addr pam virt k e = page_addr pam virt k e'"
  unfolding page_addr_def by (rule bit_eqI) (auto simp: agree_def bit_simps)

lemma table_agree: "agree e e' \<Longrightarrow> e AND (mask 48 AND NOT (mask 12)) = e' AND (mask 48 AND NOT (mask 12))"
  by (rule bit_eqI) (auto simp: agree_def bit_simps)

lemma table_aligned: "take_bit 3 ((e AND (mask 48 AND NOT (mask 12))) OR push_bit 3 x :: u64) = 0"
  by (rule bit_eqI) (auto simp: bit_simps)

lemma long_walk_agree:
  assumes "ad_same m m'" "agree e e'"
  shows "long_walk (ld64 m) pam virt l e = long_walk (ld64 m') pam virt l e'"
  using assms(2)
proof (induction l arbitrary: e e')
  case 0
  then show ?case by (simp add: page_addr_agree)
next
  case (Suc l)
  let ?a = "(e' AND (mask 48 AND NOT (mask 12))) OR push_bit 3 (take_bit 9 (drop_bit (12 + 9 * l) virt))"
  have b7: "bit e 7 \<longleftrightarrow> bit e' 7" using Suc.prems by (simp add: agree_def)
  have r: "agree (ld64 m ?a) (ld64 m' ?a)" using assms(1) table_aligned unfolding ad_same_def by blast
  then have b0: "bit (ld64 m ?a) 0 \<longleftrightarrow> bit (ld64 m' ?a) 0" by (simp add: agree_def)
  show ?case
    unfolding long_walk.simps table_agree [OF Suc.prems] Let_def b7 b0
    using Suc.IH [OF r] page_addr_agree [OF Suc.prems] by auto
qed

lemma entry_addr_long:
  "entry_addr 4 virt l e = (e AND (mask 48 AND NOT (mask 12))) OR push_bit 3 (take_bit 9 (drop_bit (12 + 9 * l) virt))"
  unfolding entry_addr_def Let_def mask_consts
  by (rule bit_eqI) (auto simp: bit_simps ac_simps le_imp_diff_is_add)

lemma ld64_st64:
  assumes "take_bit 3 a = 0" "take_bit 3 b = (0 :: u64)"
  shows "ld64 (st64 m a v) b = (if a = b then v else ld64 m b)"
proof -
  have u: "unat (take_bit 3 w) = unat w mod 8" for w :: u64
    unfolding unsigned_take_bit_eq by (simp add: take_bit_eq_mod)
  obtain x y where xy: "unat a = 8 * x" "unat b = 8 * y" using u [of a] u [of b] assms by (auto elim!: dvdE simp: mod_eq_0_iff_dvd)
  show ?thesis
  proof (cases "a = b")
    case True
    then show ?thesis by (simp add: ld64_def st64_def load_store_le take_bit_word_eq_self)
  next
    case False
    have "x \<noteq> y"
    proof
      assume "x = y"
      then have "unat a = unat b" using xy by simp
      then show False using False by (simp only: word_unat_eq_iff)
    qed
    have n: "(8 * x \<le> 8 * y + k div 8 \<and> 8 * y + k div 8 < 8 * x + 8) \<longleftrightarrow> False" if "k < 64" for k
    proof -
      have "k div 8 < 8" using that by (simp add: div_less_iff_less_mult)
      with \<open>x \<noteq> y\<close> show ?thesis by auto
    qed
    have "ld64 (st64 m a v) b = ld64 m b"
      unfolding ld64_def st64_def xy by (rule bit_eqI) (simp add: bit_load_le store_le_at n)
    then show ?thesis using False by simp
  qed
qed

lemma ad_same_store:
  assumes "ad_same m m'" "take_bit 3 a = 0" "agree v (ld64 m a)"
  shows "ad_same (st64 m a v) m'"
  unfolding ad_same_def
proof (intro allI impI)
  fix b :: u64 assume b: "take_bit 3 b = 0"
  show "agree (ld64 (st64 m a v) b) (ld64 m' b)"
    using assms b agree_trans [of v "ld64 m a" "ld64 m' a"] by (auto simp: ld64_st64 ad_same_def)
qed

section \<open>One level of a quiet walk in long mode\<close>

definition long_d :: "get_pte_data \<Rightarrow> bool" where
  "long_d d \<longleftrightarrow> d_lme d \<and> d_pae d \<and> d_pse d"

lemma reserved_ok:
  assumes "\<not> bit pam 0" "i \<in> {1, 2, 3, 4}"
  shows "\<exists>r. test_pmap_entry_reserved_bit pam e i 4 d = Inr r"
proof -
  have t: "\<not> bit (reserved_bit_table ! (if d_nxe d then 1 else 0) ! 2 ! j) 0" if "j \<le> 5" for j
    using that by (auto simp: reserved_bit_table_def nth_Cons' bit_0)
  have "j \<le> 5 \<Longrightarrow> (reserved_bit_table ! (if d_nxe d then 1 else 0) ! 2 ! j) XOR (pam XOR PTE_ADDR_MASK64) \<noteq> 0xFFFFFFFFFFFFFFFF" for j
    using t [of j] assms(1) by (auto simp: PTE_ADDR_MASK64_def bit_simps dest!: arg_cong [of _ _ "\<lambda>w. bit w 0"])
  then show ?thesis using assms(2) by (auto simp: test_pmap_entry_reserved_bit_def Let_def assert_res_def)
qed

lemma attr_low:
  "(PDE_RW_BIT OR PDE_US_BIT OR PDE_A_BIT OR PDE_D_BIT) AND - 0x1000 = 0"
  "(PDE_RW_BIT OR PDE_US_BIT OR PDE_A_BIT) AND - 0x1000 = 0"
  by (auto intro!: bit_eqI simp: bit_simps bit_neg_consts bit_consts)

lemma pmap_write_quiet:
  assumes "pm_readlevel m = pm_curlevel m" "pm_levels m = 4" "pm_type m = PMAP_TYPE_GUEST_ATOMIC"
    and "pm_entry m (pm_curlevel m) = ld64 (ram g) (pm_entryaddr m (pm_curlevel m))"
  shows "\<exists>g'. pmap_write quiet m e 0xFFF g = Inr (False, m\<lparr>pm_entry := (pm_entry m)(pm_curlevel m := e)\<rparr>, g') \<and>
    ram g' = st64 (ram g) (pm_entryaddr m (pm_curlevel m)) e"
  using assms by (auto simp: pmap_write_def Let_def attr_low pmap_wr64_def cmpxchg_gphys_q_def)

text \<open>The cursor is one level above the entry to read, and that entry is not for a large page.\<close>

lemma step_table:
  assumes d: "long_d d" "\<not> bit pam 0" and i: "i \<in> {1, 2, 3, 4}"
    and m: "pm_levels m = 4" "pm_type m = PMAP_TYPE_GUEST_ATOMIC" "pm_readlevel m = i" "pm_curlevel m = i - 1"
    and up: "bit (pm_entry m i) 0" "\<not> (bit (pm_entry m i) 7 \<and> (i = 1 \<or> i = 2))"
    and a: "a = entry_addr 4 (pm_curaddr m) (i - 1) (pm_entry m i)"
  shows "\<exists>out m' g'. walk_step quiet pam d 4 i m g = Inr (out, m', g') \<and>
    (case out of
       Fail r \<Rightarrow> (r = VMMERR_PAGE_NOT_PRESENT \<longrightarrow> \<not> bit (ld64 (ram g) a) 0) \<and> r \<noteq> VMMERR_SUCCESS
     | Again \<Rightarrow> False
     | Entry e \<Rightarrow> bit e 0 \<and> agree e (ld64 (ram g) a) \<and> bit e 5 \<and> (d_write d \<and> bit e 7 \<longrightarrow> i = 4 \<or> bit e 6) \<and>
         pm_levels m' = 4 \<and> pm_type m' = PMAP_TYPE_GUEST_ATOMIC \<and> pm_readlevel m' = i - 1 \<and> pm_curaddr m' = pm_curaddr m \<and>
         pm_entry m' (i - 1) = e \<and> (ram g' = ram g \<or> ram g' = st64 (ram g) a e))"
proof -
  let ?e = "ld64 (ram g) a"
  have si: "Suc (i - Suc 0) = i" using i by auto
  obtain g1 where r: "ram g1 = ram g" "pmap_read quiet m g = (?e, read_below m ?e, g1)"
    using pmap_read_next [of m a ?e g] m up a i by auto
  obtain rb where rb: "test_pmap_entry_reserved_bit pam ?e i 4 d = Inr rb" using reserved_ok [OF d(2) i] by blast
  have pae: "pae_entry 4 i ?e = ?e" by (simp add: pae_entry_def)
  show ?thesis
  proof (cases "bit ?e 0 \<and> \<not> rb \<and> rights d ?e = VMMERR_SUCCESS")
    case False
    then show ?thesis
      using rb unfolding walk_step_def r(2) by (auto simp: pae rights_def split: if_splits)
  next
    case True
    let ?setd = "(i = 2 \<and> bit ?e 7 \<or> i = 1 \<or> i = 3 \<and> bit ?e 7) \<and> d_write d"
    have w: "walk_step quiet pam d 4 i m g =
        res_bind (set_ad_bit quiet (read_below m ?e) ?e True ?setd g1) (\<lambda>(retry, entry, m, g).
          Inr (if retry then Again else Entry entry, m, g))"
      using True d(1) rb unfolding walk_step_def r(2) by (simp add: pae long_d_def Let_def)
    show ?thesis
    proof (cases "bit ?e 5 \<and> (?setd \<longrightarrow> bit ?e 6)")
      case noset: True
      then have "set_ad_bit quiet (read_below m ?e) ?e True ?setd g1 = Inr (False, ?e, read_below m ?e, g1)"
        by (auto simp: set_ad_bit_def Let_def)
      then show ?thesis using w True noset m r(1) i by auto
    next
      case set: False
      define e1 where "e1 = (if bit ?e 5 then ?e else ?e OR PDE_A_BIT)"
      define e2 where "e2 = (if ?setd \<and> \<not> bit ?e 6 then e1 OR PDE_D_BIT else e1)"
      have b: "\<And>n. bit e2 n \<longleftrightarrow> bit ?e n \<or> n = 5 \<or> (n = 6 \<and> ?setd)"
        by (auto simp: e2_def e1_def bit_simps)
      obtain g2 where pw: "pmap_write quiet (read_below m ?e) e2 0xFFF g1 =
          Inr (False, (read_below m ?e)\<lparr>pm_entry := (pm_entry (read_below m ?e))(i - 1 := e2)\<rparr>, g2)"
          "ram g2 = st64 (ram g) a e2"
        using pmap_write_quiet [of "read_below m ?e" g1 e2] m r(1) a si by auto
      have "set_ad_bit quiet (read_below m ?e) ?e True ?setd g1 =
          Inr (False, e2, (read_below m ?e)\<lparr>pm_entry := (pm_entry (read_below m ?e))(i - 1 := e2)\<rparr>, g2)"
        using set pw(1) by (auto simp: set_ad_bit_def Let_def e2_def e1_def)
      then show ?thesis using w True m pw(2) i b by (auto simp: agree_def)
    qed
  qed
qed

text \<open>The cursor stays at the entry of a large page; the entries below are made from it.\<close>

lemma step_large:
  assumes d: "long_d d" "\<not> bit pam 0" and i: "i = 1 \<or> i = 2"
    and m: "pm_levels m = 4" "pm_curlevel m = i - 1" "pm_readlevel m = r" "r = 1 \<or> r = 2" "i \<le> r"
    and e: "bit (pm_entry m r) 0" "bit (pm_entry m r) 7" "bit (pm_entry m r) 5" "d_write d \<longrightarrow> bit (pm_entry m r) 6"
    and s: "s = (if r = 2 then if i = 1 then pte_of_pde 4 (pm_curaddr m) (pde_of_pdpe (pm_curaddr m) (pm_entry m r))
                 else pde_of_pdpe (pm_curaddr m) (pm_entry m r)
                 else pte_of_pde 4 (pm_curaddr m) (pm_entry m r))"
  shows "\<exists>out. walk_step quiet pam d 4 i m g = Inr (out, m, g) \<and>
    (out = Entry s \<or> (\<exists>f. out = Fail f \<and> f \<noteq> VMMERR_SUCCESS \<and> f \<noteq> VMMERR_PAGE_NOT_PRESENT))"
proof -
  have r: "pmap_read quiet m g = (s, m, g)"
    using m i e(1,2) unfolding s by (subst pmap_read.simps) (auto simp: Let_def)
  have b: "bit s n \<longleftrightarrow> bit (pm_entry m r) n" if "n < 7" for n
    using that unfolding s by (auto simp: pte_of_pde_def pde_of_pdpe_def Let_def bit_simps bit_consts)
  obtain rb where rb: "test_pmap_entry_reserved_bit pam s i 4 d = Inr rb" using reserved_ok [OF d(2), of i s d] i by auto
  have sa: "set_ad_bit quiet m s True sd g = Inr (False, s, m, g)" if "sd \<longrightarrow> d_write d" for sd
    using that b [of 5] b [of 6] e(3,4) by (auto simp: set_ad_bit_def Let_def)
  have pae: "pae_entry 4 i s = s" by (simp add: pae_entry_def)
  have f: "rights d s \<noteq> VMMERR_PAGE_NOT_PRESENT" by (simp add: rights_def)
  show ?thesis
  proof (cases "\<not> rb \<and> rights d s = VMMERR_SUCCESS")
    case True
    then show ?thesis
      using rb b [of 0] e(1) d(1) sa unfolding walk_step_def r by (simp add: pae long_d_def Let_def)
  next
    case False
    then show ?thesis using rb b [of 0] e(1) f unfolding walk_step_def r by (auto simp: pae)
  qed
qed

lemma large_addr:
  assumes pam: "pam = mask n AND NOT (mask 12)" "30 \<le> n"
  shows "(pte_of_pde 4 virt e AND pam) OR (virt AND 0xFFF) = page_addr pam virt 21 e"
    "(pte_of_pde 4 virt (pde_of_pdpe virt e) AND pam) OR (virt AND 0xFFF) = page_addr pam virt 30 e"
  using pam(2) unfolding page_addr_def pam(1)
  by (auto intro!: bit_eqI simp: pte_of_pde_def pde_of_pdpe_def Let_def bit_simps bit_consts)

lemma small_addr:
  assumes "pam = mask n AND NOT (mask 12)"
  shows "(e AND pam) OR (virt AND 0xFFF) = page_addr pam virt 12 e"
  unfolding page_addr_def assms by (auto intro!: bit_eqI simp: bit_simps bit_consts)

definition walk_result :: "mem \<Rightarrow> u64 \<Rightarrow> u64 \<Rightarrow> nat \<Rightarrow> u64 \<Rightarrow> vmmerr \<times> (nat \<Rightarrow> u64) \<times> gmem \<Rightarrow> bool" where
  "walk_result mem pam virt i e p \<longleftrightarrow>
     (case p of (r, es, g) \<Rightarrow>
        (r = VMMERR_SUCCESS \<longrightarrow> long_walk (ld64 mem) pam virt i e = Some ((es 0 AND pam) OR (virt AND 0xFFF))) \<and>
        (r = VMMERR_PAGE_NOT_PRESENT \<longrightarrow> long_walk (ld64 mem) pam virt i e = None))"

lemma loop_fail:
  assumes "walk_step env pam d levels i (pmap_setlevel m i) g = Inr (Fail r, m', g')" "0 < i"
  shows "walk_loop env pam d levels i m entries g = Some (Inr (r, entries, g'))"
  using assms by (subst walk_loop.simps) simp

lemma loop_entry:
  assumes "walk_step env pam d levels i (pmap_setlevel m i) g = Inr (Entry e, m', g')" "0 < i"
  shows "walk_loop env pam d levels i m entries g = walk_loop env pam d levels (i - 1) m' (entries(i - 1 := e)) g'"
  using assms by (subst walk_loop.simps) simp

lemma loop_done: "walk_loop env pam d levels 0 m entries g = Some (Inr (VMMERR_SUCCESS, entries, g))"
  by (subst walk_loop.simps) simp

lemma setlevel_sel [simp]:
  "pm_curlevel (pmap_setlevel m i) = i - 1" "pm_readlevel (pmap_setlevel m i) = pm_readlevel m"
  "pm_levels (pmap_setlevel m i) = pm_levels m" "pm_curaddr (pmap_setlevel m i) = pm_curaddr m"
  "pm_type (pmap_setlevel m i) = pm_type m" "pm_entry (pmap_setlevel m i) = pm_entry m"
  by (simp_all add: pmap_setlevel_def)

text \<open>The last step of a walk whose cursor stays at a large page of level i.\<close>

lemma walk_large_last:
  assumes pam: "pam = mask n AND NOT (mask 12)" "30 \<le> n" and d: "long_d d" and i: "i = 1 \<or> i = 2"
    and m: "pm_levels m = 4" "pm_readlevel m = i"
    and e: "bit (pm_entry m i) 0" "bit (pm_entry m i) 7" "bit (pm_entry m i) 5" "d_write d \<longrightarrow> bit (pm_entry m i) 6"
  shows "\<exists>p. walk_loop quiet pam d 4 1 m entries g = Some (Inr p) \<and>
    walk_result mem pam (pm_curaddr m) i (pm_entry m i) p"
proof -
  let ?s = "if i = 2 then pte_of_pde 4 (pm_curaddr m) (pde_of_pdpe (pm_curaddr m) (pm_entry m i))
      else pte_of_pde 4 (pm_curaddr m) (pm_entry m i)"
  have p0: "\<not> bit pam 0" by (simp add: pam bit_simps)
  obtain out where o: "walk_step quiet pam d 4 1 (pmap_setlevel m 1) g = Inr (out, pmap_setlevel m 1, g)"
      "out = Entry ?s \<or> (\<exists>f. out = Fail f \<and> f \<noteq> VMMERR_SUCCESS \<and> f \<noteq> VMMERR_PAGE_NOT_PRESENT)"
    using step_large [OF d p0, of 1 "pmap_setlevel m 1" i ?s g] i e m by auto
  show ?thesis
  proof (cases "out = Entry ?s")
    case True
    then have "walk_loop quiet pam d 4 1 m entries g = Some (Inr (VMMERR_SUCCESS, entries(0 := ?s), g))"
      using loop_entry [OF o(1) [unfolded True]] by (simp add: loop_done)
    moreover have "walk_result mem pam (pm_curaddr m) i (pm_entry m i) (VMMERR_SUCCESS, entries(0 := ?s), g)"
      using i e(2) large_addr [OF pam] by (auto simp: walk_result_def numeral_2_eq_2)
    ultimately show ?thesis by blast
  next
    case False
    then obtain f where f: "out = Fail f" "f \<noteq> VMMERR_SUCCESS" "f \<noteq> VMMERR_PAGE_NOT_PRESENT" using o(2) by blast
    then show ?thesis using loop_fail [OF o(1) [unfolded f(1)]] by (auto simp: walk_result_def)
  qed
qed

lemma walk_large:
  assumes pam: "pam = mask n AND NOT (mask 12)" "30 \<le> n" and d: "long_d d" and i: "i = 1 \<or> i = 2"
    and m: "pm_levels m = 4" "pm_readlevel m = i"
    and e: "bit (pm_entry m i) 0" "bit (pm_entry m i) 7" "bit (pm_entry m i) 5" "d_write d \<longrightarrow> bit (pm_entry m i) 6"
  shows "\<exists>p. walk_loop quiet pam d 4 i m entries g = Some (Inr p) \<and>
    walk_result mem pam (pm_curaddr m) i (pm_entry m i) p"
proof -
  have p0: "\<not> bit pam 0" by (simp add: pam bit_simps)
  show ?thesis
  proof (cases "i = 1")
    case True
    then show ?thesis using walk_large_last [OF pam d i m e] by simp
  next
    case False
    then have i2: "i = 2" using i by simp
    obtain out where o: "walk_step quiet pam d 4 2 (pmap_setlevel m 2) g = Inr (out, pmap_setlevel m 2, g)"
        "out = Entry (pde_of_pdpe (pm_curaddr m) (pm_entry m 2)) \<or> (\<exists>f. out = Fail f \<and> f \<noteq> VMMERR_SUCCESS \<and> f \<noteq> VMMERR_PAGE_NOT_PRESENT)"
      using step_large [OF d p0, of 2 "pmap_setlevel m 2" 2 _ g] i2 e m by auto
    show ?thesis
    proof (cases "\<exists>f. out = Fail f")
      case True
      then obtain f where f: "out = Fail f" "f \<noteq> VMMERR_SUCCESS" "f \<noteq> VMMERR_PAGE_NOT_PRESENT" using o(2) by auto
      then show ?thesis using loop_fail [OF o(1) [unfolded f(1)]] i2 by (auto simp: walk_result_def)
    next
      case False
      then have e: "out = Entry (pde_of_pdpe (pm_curaddr m) (pm_entry m 2))" using o(2) by blast
      then show ?thesis
        using loop_entry [OF o(1) [unfolded e], of entries] walk_large_last [OF pam d i, of "pmap_setlevel m 2"] i2 m assms(7-10) by simp
    qed
  qed
qed

lemma ad_same_refl [simp]: "ad_same m m" by (simp add: ad_same_def)

lemma walk_result_fail: "r \<noteq> VMMERR_SUCCESS \<Longrightarrow> r \<noteq> VMMERR_PAGE_NOT_PRESENT \<Longrightarrow> walk_result mem pam virt i e (r, es, g)"
  by (simp add: walk_result_def)

lemma walk_result_next:
  assumes "walk_result mem' pam virt i e' p" "ad_same mem' mem" "agree e' (ld64 mem a)" "bit e' 0"
    and "a = entry_addr 4 virt i e" "\<not> (bit e 7 \<and> (Suc i = 1 \<or> Suc i = 2))"
  shows "walk_result mem pam virt (Suc i) e p"
proof -
  have "bit (ld64 mem a) 0" using assms(3,4) by (auto simp: agree_def)
  then have "long_walk (ld64 mem) pam virt (Suc i) e = long_walk (ld64 mem') pam virt i e'"
    using assms(6) long_walk_agree [OF assms(2,3), of pam virt i]
    unfolding long_walk.simps assms(5) entry_addr_long by (auto simp: Let_def)
  then show ?thesis using assms(1) by (simp add: walk_result_def)
qed

text \<open>The walk from level \<open>i\<close> down, other processors quiet: it returns what the tables say.\<close>

lemma walk_quiet:
  assumes pam: "pam = mask n AND NOT (mask 12)" "30 \<le> n" and d: "long_d d"
  shows "i \<le> 4 \<Longrightarrow> pm_levels m = 4 \<Longrightarrow> pm_type m = PMAP_TYPE_GUEST_ATOMIC \<Longrightarrow> pm_readlevel m = i \<Longrightarrow>
    bit (pm_entry m i) 0 \<Longrightarrow> (i = 0 \<Longrightarrow> entries 0 = pm_entry m 0) \<Longrightarrow>
    (bit (pm_entry m i) 7 \<Longrightarrow> i = 1 \<or> i = 2 \<Longrightarrow> bit (pm_entry m i) 5 \<and> (d_write d \<longrightarrow> bit (pm_entry m i) 6)) \<Longrightarrow>
    \<exists>p. walk_loop quiet pam d 4 i m entries g = Some (Inr p) \<and> walk_result (ram g) pam (pm_curaddr m) i (pm_entry m i) p"
proof (induction i arbitrary: m entries g)
  case 0
  then show ?case by (auto simp: loop_done walk_result_def small_addr [OF pam(1)])
next
  case (Suc i)
  show ?case
  proof (cases "bit (pm_entry m (Suc i)) 7 \<and> (Suc i = 1 \<or> Suc i = 2)")
    case True
    then show ?thesis using walk_large [OF pam d, of "Suc i" m entries g "ram g"] Suc.prems by blast
  next
    case False
    let ?a = "entry_addr 4 (pm_curaddr m) i (pm_entry m (Suc i))"
    have p0: "\<not> bit pam 0" by (simp add: pam bit_simps)
    have i4: "Suc i \<in> {1, 2, 3, 4}" using Suc.prems(1) by auto
    have "\<exists>out m' g'. walk_step quiet pam d 4 (Suc i) (pmap_setlevel m (Suc i)) g = Inr (out, m', g') \<and>
      (case out of
         Fail r \<Rightarrow> (r = VMMERR_PAGE_NOT_PRESENT \<longrightarrow> \<not> bit (ld64 (ram g) ?a) 0) \<and> r \<noteq> VMMERR_SUCCESS
       | Again \<Rightarrow> False
       | Entry e \<Rightarrow> bit e 0 \<and> agree e (ld64 (ram g) ?a) \<and> bit e 5 \<and> (d_write d \<and> bit e 7 \<longrightarrow> Suc i = 4 \<or> bit e 6) \<and>
           pm_levels m' = 4 \<and> pm_type m' = PMAP_TYPE_GUEST_ATOMIC \<and> pm_readlevel m' = i \<and> pm_curaddr m' = pm_curaddr m \<and>
           pm_entry m' i = e \<and> (ram g' = ram g \<or> ram g' = st64 (ram g) ?a e))" (is "\<exists>out m' g'. _ \<and> ?o out m' g'")
      using step_table [OF d p0 i4, of "pmap_setlevel m (Suc i)" ?a g, unfolded diff_Suc_1 setlevel_sel] Suc.prems False by simp
    then obtain out m' g' where w: "walk_step quiet pam d 4 (Suc i) (pmap_setlevel m (Suc i)) g = Inr (out, m', g')"
      and o: "?o out m' g'" by (elim exE conjE)
    show ?thesis
    proof (cases out)
      case (Fail r)
      have "long_walk (ld64 (ram g)) pam (pm_curaddr m) (Suc i) (pm_entry m (Suc i)) = None" if "r = VMMERR_PAGE_NOT_PRESENT"
        using that o Fail False by (auto simp: entry_addr_long Let_def)
      then show ?thesis using o loop_fail [OF w [unfolded Fail]] unfolding Fail by (auto simp: walk_result_def)
    next
      case Again
      then show ?thesis using o by simp
    next
      case (Entry e)
      have al: "take_bit 3 ?a = 0" unfolding entry_addr_long by (rule table_aligned)
      have same: "ad_same (ram g') (ram g)" using o ad_same_store [OF ad_same_refl al] unfolding Entry by auto
      have "\<exists>p. walk_loop quiet pam d 4 i m' (entries(i := e)) g' = Some (Inr p) \<and>
          walk_result (ram g') pam (pm_curaddr m') i (pm_entry m' i) p"
        using o Suc.prems(1) unfolding Entry by (intro Suc.IH) auto
      then show ?thesis
        using loop_entry [OF w [unfolded Entry], of entries] o walk_result_next [OF _ same _ _ refl False] unfolding Entry by auto
    qed
  qed
qed

lemma walk_result_root:
  assumes "walk_result mem pam virt 4 e p" "e AND (mask 48 AND NOT (mask 12)) = e' AND (mask 48 AND NOT (mask 12))"
  shows "walk_result mem pam virt 4 e' p"
proof -
  have "long_walk (ld64 mem) pam virt (Suc 3) e = long_walk (ld64 mem) pam virt (Suc 3) e'"
    unfolding long_walk.simps assms(2) by simp
  then show ?thesis using assms(1) by (simp add: walk_result_def)
qed

lemma root_entry_mask:
  fixes cr3 :: u64
  shows "((cr3 AND (NOT 0xFFF OR PDE_PWT_BIT OR PDE_PCD_BIT)) OR PDE_P_BIT) AND (mask 48 AND NOT (mask 12)) = cr3 AND (mask 48 AND NOT (mask 12))"
    "(cr3 AND NOT 0xFFF) AND (mask 48 AND NOT (mask 12)) = cr3 AND (mask 48 AND NOT (mask 12))"
  unfolding not_fff by (auto intro!: bit_eqI simp: bit_simps bit_consts bit_neg_consts)

text \<open>
  C18. While no other processor writes the tables, the walk of the guest's page tables in long
  mode returns: it neither fails an assertion nor loops. If it succeeds, the physical address
  that its last entry gives for the linear address is the one that the tables of the memory
  before the walk define, with pages of 4 KiB, 2 MiB and 1 GiB; if it answers that the page is
  not present, the tables define no translation.
\<close>

theorem long_mode_walk_correct:
  assumes "d_pg d" "d_lme d" "pam = mask n AND NOT (mask 12)" "30 \<le> n"
  shows "\<exists>r es g'. get_pte_sub quiet pam m0 virt cr3 d entries g = Some (Inr (r, es, 4, g')) \<and>
    (r = VMMERR_SUCCESS \<longrightarrow>
       long_walk (ld64 (ram g)) pam virt 4 cr3 = Some ((es 0 AND pam) OR (virt AND 0xFFF))) \<and>
    (r = VMMERR_PAGE_NOT_PRESENT \<longrightarrow> long_walk (ld64 (ram g)) pam virt 4 cr3 = None)"
proof -
  let ?d = "d\<lparr>d_pae := True, d_pse := True\<rparr>"
  define c where "c = (if d_pcide d then cr3 AND NOT 0xFFF else cr3)"
  define m where "m = (pmap_open_guest m0 c 4 True)\<lparr>pm_curlevel := 4, pm_curaddr := virt\<rparr>"
  let ?e = "(c AND (NOT 0xFFF OR PDE_PWT_BIT OR PDE_PCD_BIT)) OR PDE_P_BIT"
  have m: "pm_entry m 4 = ?e" "pm_readlevel m = 4" "pm_levels m = 4" "pm_curaddr m = virt" "pm_type m = PMAP_TYPE_GUEST_ATOMIC"
    by (simp_all add: m_def pmap_open_guest_def)
  have d: "long_d ?d" using assms(2) by (simp add: long_d_def)
  have e0: "bit (pm_entry m 4) 0" unfolding m(1) by (simp add: bit_simps bit_consts)
  let ?es = "entries(4 := pm_entry m 4 OR PDE_RW_BIT OR PDE_US_BIT OR PDE_A_BIT)"
  obtain p where p: "walk_loop quiet pam ?d 4 4 m ?es g = Some (Inr p)" "walk_result (ram g) pam virt 4 ?e p"
    using walk_quiet [OF assms(3,4) d, of 4 m ?es g] m e0 by auto
  obtain r es g' where q: "p = (r, es, g')" by (metis prod_cases3)
  have "pmap_read quiet (pmap_seek (pmap_open_guest m0 c 4 True) virt 5) g = (pm_entry m 4, m, g)"
    using open_seek [of quiet m0 c 4 virt g] by (simp add: m_def)
  then have "get_pte_sub quiet pam m0 virt cr3 d entries g = Some (Inr (r, es, 4, g'))"
    using assms(1,2) p(1) by (simp add: get_pte_sub_def pte_levels_def Let_def c_def [symmetric] q)
  moreover have "walk_result (ram g) pam virt 4 cr3 p"
    using walk_result_root [OF p(2)] root_entry_mask by (simp add: c_def split: if_splits)
  ultimately show ?thesis unfolding q walk_result_def by auto
qed

section \<open>A walk\<close>

text \<open>A walk through entries that need no write and pass the checks succeeds.\<close>

definition ready :: "u64 \<Rightarrow> get_pte_data \<Rightarrow> nat \<Rightarrow> u64 \<Rightarrow> bool" where
  "ready pam d i e \<longleftrightarrow>
     bit e 0 \<and> bit e 5 \<and> bit e 6 \<and> \<not> bit e 7 \<and> rights d e = VMMERR_SUCCESS \<and>
     test_pmap_entry_reserved_bit pam e i 4 d = Inr False"

lemma step_ready:
  assumes "long_d d" "pmap_read quiet m g = (e, m', g')" "ready pam d i e"
  shows "walk_step quiet pam d 4 i m g = Inr (Entry e, m', g')"
  using assms unfolding walk_step_def by (simp add: long_d_def Let_def ready_def pae_entry_def set_ad_bit_def)

lemma walk_ready:
  assumes d: "long_d d"
  shows "i \<le> 4 \<Longrightarrow> pm_levels m = 4 \<Longrightarrow> pm_readlevel m = i \<Longrightarrow> pm_type m = PMAP_TYPE_GUEST_ATOMIC \<Longrightarrow>
    pm_curaddr m = virt \<Longrightarrow> pm_entry m i = tab i \<Longrightarrow> bit (tab i) 0 \<Longrightarrow> \<not> bit (tab i) 7 \<Longrightarrow>
    (\<And>j. j < i \<Longrightarrow> ld64 (ram g) (entry_addr 4 virt j (tab (Suc j))) = tab j \<and> ready pam d (Suc j) (tab j)) \<Longrightarrow>
    \<exists>es g'. walk_loop quiet pam d 4 i m entries g = Some (Inr (VMMERR_SUCCESS, es, g'))"
proof (induction i arbitrary: m entries g)
  case 0
  then show ?case by (simp add: loop_done)
next
  case (Suc i)
  let ?m = "pmap_setlevel m (Suc i)"
  have t: "ld64 (ram g) (entry_addr 4 virt i (tab (Suc i))) = tab i" "ready pam d (Suc i) (tab i)" using Suc.prems(9) by auto
  obtain g1 where r: "ram g1 = ram g" "pmap_read quiet ?m g = (tab i, read_below ?m (tab i), g1)"
    using pmap_read_next [of ?m "entry_addr 4 virt i (tab (Suc i))" "tab i" g] Suc.prems t(1) by auto
  have "\<exists>es g'. walk_loop quiet pam d 4 i (read_below ?m (tab i)) (entries(i := tab i)) g1 = Some (Inr (VMMERR_SUCCESS, es, g'))"
    using Suc.prems t(2) by (intro Suc.IH) (auto simp: read_below_def ready_def r(1))
  then show ?case using loop_entry [OF step_ready [OF d r(2) t(2)]] by simp
qed

text \<open>Tables at 0x1000, 0x2000, 0x3000 and 0x4000 that map the first page to 0x5000.\<close>

definition example_mem :: gmem where
  "example_mem = \<lparr>ram = (\<lambda>a. if a = 0x1000 \<or> a = 0x2000 \<or> a = 0x3000 \<or> a = 0x4000 then 0x67
      else if a = 0x1001 then 0x20 else if a = 0x2001 then 0x30 else if a = 0x3001 then 0x40 else if a = 0x4001 then 0x50 else 0),
     tick = 0\<rparr>"

definition example_data :: get_pte_data where
  "example_data = \<lparr>d_pg = True, d_wp = True, d_pse = True, d_pae = True, d_pcide = False, d_lme = True, d_nxe = True,
     d_write = True, d_user = True, d_exec = False\<rparr>"

lemma load_le_zero: "(\<And>k. k < n \<Longrightarrow> m (a + k) = 0) \<Longrightarrow> load_le m a n = 0"
proof (induction n arbitrary: a)
  case (Suc n)
  then show ?case using Suc.prems [of 0] Suc.IH [of "Suc a"] by fastforce
qed simp

lemma ld64_low:
  assumes "\<And>k. 2 \<le> k \<Longrightarrow> k < 8 \<Longrightarrow> m (unat a + k) = 0"
  shows "ld64 m a = ucast (m (unat a)) OR push_bit 8 (ucast (m (unat a + 1)))"
proof -
  have "m (unat a + 2 + k) = 0" if "k < 6" for k using assms [of "2 + k"] that by simp
  then have "load_le m (unat a + 2) 6 = 0" by (rule load_le_zero)
  moreover have "load_le m (unat a) 8 = load_le m (unat a) (Suc (Suc 6))" by simp
  ultimately show ?thesis unfolding ld64_def by (simp only: load_le.simps) simp
qed

lemma example_reads:
  "ld64 (ram example_mem) 0x1000 = 0x2067" "ld64 (ram example_mem) 0x2000 = 0x3067"
  "ld64 (ram example_mem) 0x3000 = 0x4067" "ld64 (ram example_mem) 0x4000 = 0x5067"
  by (subst ld64_low; simp add: example_mem_def)+

lemma example_addrs:
  "entry_addr 4 0x234 3 0x1001 = 0x1000" "entry_addr 4 0x234 2 0x2067 = 0x2000"
  "entry_addr 4 0x234 1 0x3067 = 0x3000" "entry_addr 4 0x234 0 0x4067 = 0x4000"
  by code_simp+

lemma example_ready:
  "ready 0xFFFFFF000 example_data 4 0x2067" "ready 0xFFFFFF000 example_data 3 0x3067"
  "ready 0xFFFFFF000 example_data 2 0x4067" "ready 0xFFFFFF000 example_data 1 0x5067"
  by code_simp+

lemma example_walk:
  "\<exists>es g'. get_pte_sub quiet 0xFFFFFF000 m0 0x234 0x1000 example_data entries example_mem = Some (Inr (VMMERR_SUCCESS, es, 4, g'))"
proof -
  define m where "m = (pmap_open_guest m0 0x1000 4 True)\<lparr>pm_curlevel := 4, pm_curaddr := 0x234\<rparr>"
  have c: "((0x1000 :: u64) AND (NOT 0xFFF OR PDE_PWT_BIT OR PDE_PCD_BIT)) OR PDE_P_BIT = 0x1001" by code_simp
  have m: "pm_entry m 4 = 0x1001" "pm_readlevel m = 4" "pm_levels m = 4" "pm_curaddr m = 0x234" "pm_type m = PMAP_TYPE_GUEST_ATOMIC"
    using c by (simp_all add: m_def pmap_open_guest_def)
  let ?tab = "\<lambda>i :: nat. if i = 4 then 0x1001 else if i = 3 then 0x2067 else if i = 2 then 0x3067 else if i = 1 then 0x4067 else 0x5067 :: u64"
  have t: "ld64 (ram example_mem) (entry_addr 4 0x234 j (?tab (Suc j))) = ?tab j \<and> ready 0xFFFFFF000 example_data (Suc j) (?tab j)" if "j < 4" for j
  proof -
    have "j = 0 \<or> j = 1 \<or> j = 2 \<or> j = 3" using that by auto
    moreover have "ready 0xFFFFFF000 example_data (Suc (Suc (Suc (Suc 0)))) 0x2067" using example_ready(1) by (simp add: numeral_eq_Suc)
    ultimately show ?thesis using example_reads example_addrs example_ready by (elim disjE) (simp_all add: numeral_2_eq_2 numeral_3_eq_3)
  qed
  let ?es = "entries(4 := pm_entry m 4 OR PDE_RW_BIT OR PDE_US_BIT OR PDE_A_BIT)"
  have "bit (0x1001 :: u64) 0" "\<not> bit (0x1001 :: u64) 7" by code_simp+
  then obtain es g' where w: "walk_loop quiet 0xFFFFFF000 example_data 4 4 m ?es example_mem = Some (Inr (VMMERR_SUCCESS, es, g'))"
    using walk_ready [of example_data 4 m "0x234" ?tab example_mem "0xFFFFFF000" ?es] m t by (auto simp: long_d_def example_data_def)
  have "pmap_read quiet (pmap_seek (pmap_open_guest m0 0x1000 4 True) 0x234 5) example_mem = (pm_entry m 4, m, example_mem)"
    using open_seek [of quiet m0 "0x1000" 4 "0x234" example_mem] by (simp add: m_def)
  then show ?thesis using w by (simp add: get_pte_sub_def pte_levels_def example_data_def)
qed


lemma example_long_walk: "long_walk (ld64 (ram example_mem)) 0xFFFFFF000 0x234 4 0x1000 = Some 0x5234"
proof -
  have a: "entry_addr 4 0x234 3 0x1000 = 0x1000" by code_simp
  have b: "bit (0x2067 :: u64) 0" "bit (0x3067 :: u64) 0" "bit (0x4067 :: u64) 0" "bit (0x5067 :: u64) 0"
    "\<not> bit (0x3067 :: u64) 7" "\<not> bit (0x4067 :: u64) 7" by code_simp+
  have p: "page_addr 0xFFFFFF000 0x234 12 0x5067 = 0x5234" by code_simp
  have "long_walk (ld64 (ram example_mem)) 0xFFFFFF000 0x234 (Suc (Suc (Suc (Suc 0)))) 0x1000 = Some 0x5234"
    unfolding long_walk.simps entry_addr_long [symmetric]
    using example_addrs example_reads a b p by (simp add: numeral_2_eq_2 [symmetric] numeral_3_eq_3 [symmetric])
  then show ?thesis by (simp add: numeral_eq_Suc)
qed

theorem long_mode_walk_correct_witness:
  "\<forall>m0 entries. \<exists>es g'. get_pte_sub quiet 0xFFFFFF000 m0 0x234 0x1000 example_data entries example_mem =
     Some (Inr (VMMERR_SUCCESS, es, 4, g')) \<and> (es 0 AND 0xFFFFFF000) OR (0x234 AND 0xFFF) = 0x5234"
proof (intro allI)
  fix m0 entries
  have pam: "(0xFFFFFF000 :: u64) = mask 36 AND NOT (mask 12)" by code_simp
  show "\<exists>es g'. get_pte_sub quiet 0xFFFFFF000 m0 0x234 0x1000 example_data entries example_mem =
     Some (Inr (VMMERR_SUCCESS, es, 4, g')) \<and> (es 0 AND 0xFFFFFF000) OR (0x234 AND 0xFFF) = 0x5234"
    using long_mode_walk_correct [OF _ _ pam, of example_data m0 "0x234" "0x1000" entries example_mem]
      example_walk [of m0 entries] example_long_walk by (auto simp: example_data_def)
qed

section \<open>The check before a write\<close>

text \<open>
  C40. The check before a write of two or four bytes looks at the page of the first byte
  only: the guards \<open>(linear & 0xFFE) <= 0xFFE\<close> and \<open>(linear & 0xFFC) <= 0xFFC\<close> hold for every
  address, so the branch that checks the next page is never taken.
\<close>

theorem write_ok_checks_first_page:
  "write_linearaddr_ok_w env v linear = write_linearaddr_ok_b env v linear \<and>
   write_linearaddr_ok_l env v linear = write_linearaddr_ok_b env v linear"
proof -
  have "linear AND 0xFFE \<le> 0xFFE" "linear AND 0xFFC \<le> 0xFFC" by (rule word_and_le1)+
  then show ?thesis by (simp add: write_linearaddr_ok_w_def write_linearaddr_ok_l_def)
qed

end
