(* ===== verification/Cache.thy ===== *)
theory Cache
  imports Bv_Prelude
begin

text \<open>
  Memory types, \<^verbatim>\<open>core/x86/cache.c\<close>: the memory-type range registers (MTRRs) and the page attribute
  table (PAT) that the guest sees, the type that they give to an address, the page-table bits that
  make the processor use this type, and the test whether a large page has one type.

  This is the configuration without \<open>CPU_MMU_SPT_DISABLE\<close>. The registers of the processor and of
  the guest are records as in \<^verbatim>\<open>core/x86/cache.h\<close>; arrays are functions of the index. The
  model-specific registers of the processor are a parameter: a state with a read and a write
  function, where \<open>None\<close> is a general protection exception. A guest access that makes such an
  exception is \<open>None\<close> too. The writes of \<open>update_mtrr_and_pat\<close> to control registers are left out.
\<close>

section \<open>Data\<close>

definition CACHE_TYPE_UC :: u8 where "CACHE_TYPE_UC = 0"
definition CACHE_TYPE_WC :: u8 where "CACHE_TYPE_WC = 1"
definition CACHE_TYPE_WT :: u8 where "CACHE_TYPE_WT = 4"
definition CACHE_TYPE_WP :: u8 where "CACHE_TYPE_WP = 5"
definition CACHE_TYPE_WB :: u8 where "CACHE_TYPE_WB = 6"
definition CACHE_TYPE_UC_MINUS :: u8 where "CACHE_TYPE_UC_MINUS = 7"

definition MTRR_VCNT_MAX :: nat where "MTRR_VCNT_MAX = 10"
definition GMTRR_VCNT :: nat where "GMTRR_VCNT = MTRR_VCNT_MAX"
definition NUM_MTRR_FIX :: nat where "NUM_MTRR_FIX = 11"

definition MSR_IA32_MTRRCAP_VCNT_MASK :: u64 where "MSR_IA32_MTRRCAP_VCNT_MASK = 0xFF"
definition MSR_IA32_MTRRCAP_FIX_BIT :: u64 where "MSR_IA32_MTRRCAP_FIX_BIT = 0x100"
definition MSR_IA32_MTRRCAP_WC_BIT :: u64 where "MSR_IA32_MTRRCAP_WC_BIT = 0x400"
definition MSR_IA32_MTRR_PHYSBASE0 :: u64 where "MSR_IA32_MTRR_PHYSBASE0 = 0x200"
definition MSR_IA32_MTRR_PHYSBASE0_TYPE_MASK :: u64 where "MSR_IA32_MTRR_PHYSBASE0_TYPE_MASK = 0xFF"
definition MSR_IA32_MTRR_PHYSBASE0_PHYSBASE_MASK :: u64 where "MSR_IA32_MTRR_PHYSBASE0_PHYSBASE_MASK = 0xFFFFFFFFFF000"
definition MSR_IA32_MTRR_PHYSMASK0 :: u64 where "MSR_IA32_MTRR_PHYSMASK0 = 0x201"
definition MSR_IA32_MTRR_PHYSMASK0_V_BIT :: u64 where "MSR_IA32_MTRR_PHYSMASK0_V_BIT = 0x800"
definition MSR_IA32_MTRR_PHYSMASK0_PHYSMASK_MASK :: u64 where "MSR_IA32_MTRR_PHYSMASK0_PHYSMASK_MASK = 0xFFFFFFFFFF000"
definition MSR_IA32_MTRR_FIX64K_00000 :: u64 where "MSR_IA32_MTRR_FIX64K_00000 = 0x250"
definition MSR_IA32_MTRR_FIX4K_F8000 :: u64 where "MSR_IA32_MTRR_FIX4K_F8000 = 0x26F"
definition MSR_IA32_MTRR_DEF_TYPE :: u64 where "MSR_IA32_MTRR_DEF_TYPE = 0x2FF"
definition MSR_IA32_MTRR_DEF_TYPE_TYPE_MASK :: u64 where "MSR_IA32_MTRR_DEF_TYPE_TYPE_MASK = 0xFF"
definition MSR_IA32_MTRR_DEF_TYPE_FE_BIT :: u64 where "MSR_IA32_MTRR_DEF_TYPE_FE_BIT = 0x400"
definition MSR_IA32_MTRR_DEF_TYPE_E_BIT :: u64 where "MSR_IA32_MTRR_DEF_TYPE_E_BIT = 0x800"
definition MSR_AMD_SYSCFG :: u64 where "MSR_AMD_SYSCFG = 0xC0010010"
definition MSR_AMD_SYSCFG_MTRRFIXDRAMEN_BIT :: u64 where "MSR_AMD_SYSCFG_MTRRFIXDRAMEN_BIT = 0x40000"
definition MSR_AMD_SYSCFG_MTRRFIXDRAMMODEN_BIT :: u64 where "MSR_AMD_SYSCFG_MTRRFIXDRAMMODEN_BIT = 0x80000"
definition MSR_AMD_SYSCFG_MTRRTOM2EN_BIT :: u64 where "MSR_AMD_SYSCFG_MTRRTOM2EN_BIT = 0x200000"
definition MSR_AMD_SYSCFG_TOM2FORCEMEMTYPEWB_BIT :: u64 where "MSR_AMD_SYSCFG_TOM2FORCEMEMTYPEWB_BIT = 0x400000"
definition MSR_AMD_TOP_MEM2 :: u64 where "MSR_AMD_TOP_MEM2 = 0xC001001D"
definition MSR_AMD_TOP_MEM2_ADDR_MASK :: u64 where "MSR_AMD_TOP_MEM2_ADDR_MASK = 0xFFFFFFF800000"
definition PTE_PWT_BIT :: u32 where "PTE_PWT_BIT = 8"
definition PTE_PCD_BIT :: u32 where "PTE_PCD_BIT = 16"
definition PTE_PAT_BIT :: u32 where "PTE_PAT_BIT = 0x80"

record cache_regs =
  pat_data :: "nat \<Rightarrow> u8"
  mtrr_def_type :: u64
  mtrr_physbase :: "nat \<Rightarrow> u64"
  mtrr_physmask :: "nat \<Rightarrow> u64"
  mtrr_fix :: "nat \<Rightarrow> u64"
  syscfg :: u64
  top_mem2 :: u64

record cache_pcpu_data =
  pc_pat :: bool
  pc_mtrr :: bool
  syscfg_exist :: bool
  mtrrcap :: u64
  pat_index_from_type :: "nat \<Rightarrow> u8"
  regs_h :: cache_regs

record cache_data =
  regs_g :: cache_regs
  pass_mtrrfix :: bool

record 'hw cache =
  currentcpu :: cache_pcpu_data
  current :: cache_data
  hw :: 'hw

type_synonym 'hw rdmsr = "'hw \<Rightarrow> u64 \<Rightarrow> u64 option"
type_synonym 'hw wrmsr = "'hw \<Rightarrow> u64 \<Rightarrow> u64 \<Rightarrow> 'hw option"

definition pat_default :: "nat \<Rightarrow> u8" where
  "pat_default i = [CACHE_TYPE_WB, CACHE_TYPE_WT, CACHE_TYPE_UC_MINUS, CACHE_TYPE_UC,
     CACHE_TYPE_WB, CACHE_TYPE_WT, CACHE_TYPE_UC_MINUS, CACHE_TYPE_UC] ! i"

definition mtrr_fix_msr :: "u64 list" where
  "mtrr_fix_msr = [0x268, 0x269, 0x26A, 0x26B, 0x26C, 0x26D, 0x26E, 0x26F, 0x258, 0x259, 0x250]"

text \<open>The byte view of the fixed-range registers.\<close>

definition mtrr_fix_byte :: "cache_regs \<Rightarrow> nat \<Rightarrow> u8" where
  "mtrr_fix_byte c i = ucast (drop_bit (8 * (i mod 8)) (mtrr_fix c (i div 8)))"

section \<open>The type of an address\<close>

definition fix_index :: "u64 \<Rightarrow> nat" where
  "fix_index phys =
     (if phys AND 0x80000 \<noteq> 0 then
        if phys AND 0x40000 \<noteq> 0 then unat (drop_bit 12 (phys AND 0x3F000))
        else 64 + unat (drop_bit 14 (phys AND 0x3C000))
      else 80 + unat (drop_bit 16 (phys AND 0x70000)))"

fun mtrr_ranges :: "u64 \<Rightarrow> cache_regs \<Rightarrow> nat list \<Rightarrow> u8 \<Rightarrow> u8" where
  "mtrr_ranges phys c [] type = type"
| "mtrr_ranges phys c (i # is) type =
     (let mask = mtrr_physmask c i in
      if mask AND MSR_IA32_MTRR_PHYSMASK0_V_BIT = 0 then mtrr_ranges phys c is type
      else
        let base = mtrr_physbase c i;
            mask = mask AND MSR_IA32_MTRR_PHYSMASK0_PHYSMASK_MASK;
            basetype = ucast (base AND MSR_IA32_MTRR_PHYSBASE0_TYPE_MASK) :: u8
        in if mask AND base = mask AND phys then
             if basetype = CACHE_TYPE_UC then CACHE_TYPE_UC
             else if basetype = CACHE_TYPE_WT then mtrr_ranges phys c is CACHE_TYPE_WT
             else mtrr_ranges phys c is (if type = CACHE_TYPE_UC_MINUS then basetype else type)
           else mtrr_ranges phys c is type)"

definition get_mtrr_type :: "u64 \<Rightarrow> cache_regs \<Rightarrow> bool \<Rightarrow> u8" where
  "get_mtrr_type phys c pass_fix =
     (if mtrr_def_type c AND MSR_IA32_MTRR_DEF_TYPE_E_BIT = 0 then CACHE_TYPE_UC
      else if mtrr_def_type c AND MSR_IA32_MTRR_DEF_TYPE_FE_BIT \<noteq> 0 \<and> phys \<le> 0xFFFFF then
        if pass_fix then CACHE_TYPE_WB else mtrr_fix_byte c (fix_index phys)
      else
        let type = mtrr_ranges phys c [0..<GMTRR_VCNT] CACHE_TYPE_UC_MINUS in
        if type \<noteq> CACHE_TYPE_UC_MINUS then type
        else if phys \<ge> 0x100000000 \<and> syscfg c AND MSR_AMD_SYSCFG_TOM2FORCEMEMTYPEWB_BIT \<noteq> 0 \<and>
            phys < top_mem2 c AND MSR_AMD_TOP_MEM2_ADDR_MASK then CACHE_TYPE_WB
        else ucast (mtrr_def_type c AND MSR_IA32_MTRR_DEF_TYPE_TYPE_MASK))"

text \<open>The loop of \<open>mtrr_type_equal\<close>: \<open>Inl\<close> is a return from inside the loop.\<close>

fun equal_ranges :: "u64 \<Rightarrow> cache_regs \<Rightarrow> u64 \<Rightarrow> nat list \<Rightarrow> u8 \<Rightarrow> bool + u8" where
  "equal_ranges phys c physmask [] type = Inr type"
| "equal_ranges phys c physmask (i # is) type =
     (let mask = mtrr_physmask c i in
      if mask AND MSR_IA32_MTRR_PHYSMASK0_V_BIT = 0 then equal_ranges phys c physmask is type
      else
        let base = mtrr_physbase c i;
            mask = mask AND MSR_IA32_MTRR_PHYSMASK0_PHYSMASK_MASK;
            basetype = ucast (base AND MSR_IA32_MTRR_PHYSBASE0_TYPE_MASK) :: u8
        in if mask AND base = mask AND phys then
             if mask AND physmask \<noteq> 0 then Inl False
             else if basetype = CACHE_TYPE_UC then Inl True
             else if basetype = CACHE_TYPE_WT then equal_ranges phys c physmask is CACHE_TYPE_WT
             else equal_ranges phys c physmask is (if type = CACHE_TYPE_UC_MINUS then basetype else type)
           else if mask AND physmask \<noteq> 0 \<and> (mask AND base) AND NOT physmask = phys AND NOT physmask then Inl False
           else equal_ranges phys c physmask is type)"

definition mtrr_type_equal :: "u64 \<Rightarrow> cache_regs \<Rightarrow> u64 \<Rightarrow> bool" where
  "mtrr_type_equal phys c physmask =
     (if mtrr_def_type c AND MSR_IA32_MTRR_DEF_TYPE_E_BIT = 0 then False
      else if mtrr_def_type c AND MSR_IA32_MTRR_DEF_TYPE_FE_BIT \<noteq> 0 \<and> (phys \<le> 0xFFFFF \<or> phys \<le> physmask) then False
      else case equal_ranges phys c physmask [0..<GMTRR_VCNT] CACHE_TYPE_UC_MINUS of
        Inl b \<Rightarrow> b
      | Inr type \<Rightarrow>
          if type \<noteq> CACHE_TYPE_UC_MINUS then True
          else if phys \<ge> 0x100000000 \<and> syscfg c AND MSR_AMD_SYSCFG_TOM2FORCEMEMTYPEWB_BIT \<noteq> 0 \<and>
              phys < top_mem2 c AND MSR_AMD_TOP_MEM2_ADDR_MASK
          then phys OR physmask < top_mem2 c AND MSR_AMD_TOP_MEM2_ADDR_MASK
          else True)"

section \<open>Registers of the processor\<close>

definition cache_rdmsr :: "'hw rdmsr \<Rightarrow> u64 \<Rightarrow> 'hw cache \<Rightarrow> u64 option" where
  "cache_rdmsr rd num st = rd (hw st) num"

definition cache_wrmsr :: "'hw wrmsr \<Rightarrow> u64 \<Rightarrow> u64 \<Rightarrow> 'hw cache \<Rightarrow> 'hw cache option" where
  "cache_wrmsr wr num val st = map_option (\<lambda>h. st\<lparr>hw := h\<rparr>) (wr (hw st) num val)"

text \<open>An exception in \<open>asm_rdmsr64\<close> or \<open>asm_wrmsr64\<close> outside \<open>callfunc_and_getint\<close> stops the hypervisor.\<close>

definition asm_rdmsr64 :: "'hw rdmsr \<Rightarrow> u64 \<Rightarrow> 'hw cache \<Rightarrow> u64 res" where
  "asm_rdmsr64 rd num st = (case rd (hw st) num of None \<Rightarrow> Inl (Panic ''#GP'') | Some v \<Rightarrow> Inr v)"

definition asm_wrmsr64 :: "'hw wrmsr \<Rightarrow> u64 \<Rightarrow> u64 \<Rightarrow> 'hw cache \<Rightarrow> 'hw cache res" where
  "asm_wrmsr64 wr num val st = (case wr (hw st) num val of None \<Rightarrow> Inl (Panic ''#GP'') | Some h \<Rightarrow> Inr (st\<lparr>hw := h\<rparr>))"

fun save_ranges :: "'hw rdmsr \<Rightarrow> nat list \<Rightarrow> 'hw cache \<Rightarrow> cache_regs \<Rightarrow> cache_regs res" where
  "save_ranges rd [] st r = Inr r"
| "save_ranges rd (i # is) st r =
     res_bind (asm_rdmsr64 rd (MSR_IA32_MTRR_PHYSBASE0 + word_of_nat i * 2) st) (\<lambda>b.
     res_bind (asm_rdmsr64 rd (MSR_IA32_MTRR_PHYSMASK0 + word_of_nat i * 2) st) (\<lambda>m.
       save_ranges rd is st (r\<lparr>mtrr_physbase := (mtrr_physbase r)(i := b), mtrr_physmask := (mtrr_physmask r)(i := m)\<rparr>)))"

fun save_fix :: "'hw rdmsr \<Rightarrow> nat list \<Rightarrow> 'hw cache \<Rightarrow> cache_regs \<Rightarrow> cache_regs res" where
  "save_fix rd [] st r = Inr r"
| "save_fix rd (i # is) st r =
     res_bind (asm_rdmsr64 rd (mtrr_fix_msr ! i) st) (\<lambda>v.
       save_fix rd is st (r\<lparr>mtrr_fix := (mtrr_fix r)(i := v)\<rparr>))"

definition save_initial_mtrr :: "'hw rdmsr \<Rightarrow> 'hw cache \<Rightarrow> 'hw cache res" where
  "save_initial_mtrr rd st =
     (let p = currentcpu st; vcnt = unat (mtrrcap p AND MSR_IA32_MTRRCAP_VCNT_MASK) in
      res_bind (save_ranges rd [0..<vcnt] st (regs_h p)) (\<lambda>r.
      res_bind (if mtrrcap p AND MSR_IA32_MTRRCAP_FIX_BIT \<noteq> 0 then save_fix rd [0..<NUM_MTRR_FIX] st r else Inr r) (\<lambda>r.
      res_bind (asm_rdmsr64 rd MSR_IA32_MTRR_DEF_TYPE st) (\<lambda>d.
      let r = r\<lparr>mtrr_def_type := d\<rparr> in
      res_bind (if syscfg r AND MSR_AMD_SYSCFG_MTRRTOM2EN_BIT \<noteq> 0
                then res_bind (asm_rdmsr64 rd MSR_AMD_TOP_MEM2 st) (\<lambda>t. Inr (r\<lparr>top_mem2 := t\<rparr>)) else Inr r) (\<lambda>r.
        Inr (st\<lparr>currentcpu := p\<lparr>regs_h := r\<rparr>\<rparr>))))))"

text \<open>\<open>make_pat_value\<close>: the table of the hypervisor and its inverse.\<close>

definition pat_value :: "u64 \<Rightarrow> nat \<Rightarrow> u8" where
  "pat_value cap i =
     (if i < 4 then pat_default i else if i = 4 then CACHE_TYPE_WB else if i = 5 then CACHE_TYPE_WP
      else if i = 6 \<and> cap AND MSR_IA32_MTRRCAP_WC_BIT \<noteq> 0 then CACHE_TYPE_WC else CACHE_TYPE_UC)"

definition make_pat_value :: "cache_pcpu_data \<Rightarrow> cache_pcpu_data" where
  "make_pat_value p =
     (if \<not> pc_pat p then p
      else let t = pat_value (mtrrcap p) in
        p\<lparr>regs_h := (regs_h p)\<lparr>pat_data := t\<rparr>,
          pat_index_from_type := (\<lambda>i. case List.find (\<lambda>j. word_of_nat i = t j) [0..<8] of None \<Rightarrow> 0 | Some j \<Rightarrow> word_of_nat j)\<rparr>)"

definition CPUID_1_EDX_MTRR_BIT :: u32 where "CPUID_1_EDX_MTRR_BIT = 0x1000"
definition CPUID_1_EDX_PAT_BIT :: u32 where "CPUID_1_EDX_PAT_BIT = 0x10000"
definition MSR_IA32_MTRRCAP :: u64 where "MSR_IA32_MTRRCAP = 0xFE"

text \<open>\<open>read_syscfg\<close> stores the value before it tries to write it back; the flag says whether both worked.\<close>

definition read_syscfg :: "'hw rdmsr \<Rightarrow> 'hw wrmsr \<Rightarrow> 'hw cache \<Rightarrow> bool \<times> 'hw cache" where
  "read_syscfg rd wr st =
     (case rd (hw st) MSR_AMD_SYSCFG of
        None \<Rightarrow> (False, st)
      | Some v \<Rightarrow>
          let st = st\<lparr>currentcpu := (currentcpu st)\<lparr>regs_h := (regs_h (currentcpu st))\<lparr>syscfg := v\<rparr>\<rparr>\<rparr>
          in case wr (hw st) MSR_AMD_SYSCFG v of None \<Rightarrow> (False, st) | Some h \<Rightarrow> (True, st\<lparr>hw := h\<rparr>))"

text \<open>Start-up of a processor up to the call of \<open>update_mtrr_and_pat\<close>; \<open>edx\<close> is the feature word of \<open>CPUID\<close>.\<close>

definition cache_init_pcpu :: "'hw rdmsr \<Rightarrow> 'hw wrmsr \<Rightarrow> u32 \<Rightarrow> 'hw cache \<Rightarrow> 'hw cache res" where
  "cache_init_pcpu rd wr edx st =
     (let m = (edx AND CPUID_1_EDX_MTRR_BIT \<noteq> 0) in
      res_bind (if m then asm_rdmsr64 rd MSR_IA32_MTRRCAP st else Inr 0) (\<lambda>cap.
      let p = currentcpu st;
          st = st\<lparr>currentcpu := p\<lparr>pc_pat := (edx AND CPUID_1_EDX_PAT_BIT \<noteq> 0), pc_mtrr := m, mtrrcap := cap,
                 regs_h := (regs_h p)\<lparr>syscfg := 0\<rparr>\<rparr>\<rparr>
      in case read_syscfg rd wr st of (ex, st) \<Rightarrow>
        let st = st\<lparr>currentcpu := (currentcpu st)\<lparr>syscfg_exist := ex\<rparr>\<rparr> in
        if unat (cap AND MSR_IA32_MTRRCAP_VCNT_MASK) > MTRR_VCNT_MAX then Inl (Panic ''MTRR VCNT is too large'')
        else res_bind (if m then save_initial_mtrr rd st else Inr st) (\<lambda>st.
          Inr (st\<lparr>currentcpu := make_pat_value (currentcpu st)\<rparr>))))"

section \<open>Registers of the guest\<close>

definition set_g :: "(cache_regs \<Rightarrow> cache_regs) \<Rightarrow> 'hw cache \<Rightarrow> 'hw cache" where
  "set_g f st = st\<lparr>current := (current st)\<lparr>regs_g := f (regs_g (current st))\<rparr>\<rparr>"

definition is_type_ok :: "u8 \<Rightarrow> 'hw cache \<Rightarrow> bool" where
  "is_type_ok type st \<longleftrightarrow> list_ex (\<lambda>i. pat_data (regs_h (currentcpu st)) i = type) [0..<8]"

definition set_gpat :: "(nat \<Rightarrow> u8) \<Rightarrow> 'hw cache \<Rightarrow> 'hw cache option" where
  "set_gpat gpat_data st =
     (if list_ex (\<lambda>i. \<not> is_type_ok (gpat_data i) st) [0..<8] then None
      else Some (set_g (\<lambda>r. r\<lparr>pat_data := gpat_data\<rparr>) st))"

definition cache_get_gpat :: "'hw cache \<Rightarrow> u64 option" where
  "cache_get_gpat st =
     (if \<not> pc_pat (currentcpu st) then None
      else Some (fold (\<lambda>i ret. ret OR push_bit (i * 8) (ucast (pat_data (regs_g (current st)) i))) [0..<8] 0))"

definition cache_set_gpat :: "u64 \<Rightarrow> 'hw cache \<Rightarrow> 'hw cache option" where
  "cache_set_gpat pat st =
     (if \<not> pc_pat (currentcpu st) then None
      else set_gpat (\<lambda>i. ucast (drop_bit (i * 8) pat)) st)"

definition get_gmtrr_def_type :: "'hw cache \<Rightarrow> u64 option" where
  "get_gmtrr_def_type st = Some (mtrr_def_type (regs_g (current st)))"

definition set_gmtrr_def_type :: "u64 \<Rightarrow> 'hw cache \<Rightarrow> 'hw cache option" where
  "set_gmtrr_def_type value st =
     (if value AND NOT (MSR_IA32_MTRR_DEF_TYPE_TYPE_MASK OR MSR_IA32_MTRR_DEF_TYPE_FE_BIT OR MSR_IA32_MTRR_DEF_TYPE_E_BIT) \<noteq> 0
      then None
      else
        let type = ucast (value AND MSR_IA32_MTRR_DEF_TYPE_TYPE_MASK) in
        if \<not> is_type_ok type st \<or> type = CACHE_TYPE_UC_MINUS then None
        else Some (set_g (\<lambda>r. r\<lparr>mtrr_def_type := value\<rparr>) st))"

definition range_index :: "u64 \<Rightarrow> nat" where
  "range_index msr_num = unat (drop_bit 1 (msr_num - MSR_IA32_MTRR_PHYSBASE0))"

definition get_gmtrr_range :: "u64 \<Rightarrow> 'hw cache \<Rightarrow> u64 option" where
  "get_gmtrr_range msr_num st =
     (let index = range_index msr_num in
      if index \<ge> GMTRR_VCNT then None
      else if msr_num AND 1 \<noteq> 0 then Some (mtrr_physmask (regs_g (current st)) index)
      else Some (mtrr_physbase (regs_g (current st)) index))"

definition set_gmtrr_range :: "u64 \<Rightarrow> u64 \<Rightarrow> 'hw cache \<Rightarrow> 'hw cache option" where
  "set_gmtrr_range msr_num value st =
     (let index = range_index msr_num in
      if index \<ge> GMTRR_VCNT then None
      else if msr_num AND 1 \<noteq> 0 then
        if value AND NOT (MSR_IA32_MTRR_PHYSMASK0_PHYSMASK_MASK OR MSR_IA32_MTRR_PHYSMASK0_V_BIT) \<noteq> 0 then None
        else Some (set_g (\<lambda>r. r\<lparr>mtrr_physmask := (mtrr_physmask r)(index := value)\<rparr>) st)
      else
        if value AND NOT (MSR_IA32_MTRR_PHYSBASE0_PHYSBASE_MASK OR MSR_IA32_MTRR_PHYSBASE0_TYPE_MASK) \<noteq> 0 then None
        else
          let type = ucast (value AND MSR_IA32_MTRR_PHYSBASE0_TYPE_MASK) in
          if \<not> is_type_ok type st \<or> type = CACHE_TYPE_UC_MINUS then None
          else Some (set_g (\<lambda>r. r\<lparr>mtrr_physbase := (mtrr_physbase r)(index := value)\<rparr>) st))"

definition get_index_from_mtrr_fix_msr_num :: "u64 \<Rightarrow> nat option" where
  "get_index_from_mtrr_fix_msr_num msr_num = List.find (\<lambda>i. mtrr_fix_msr ! i = msr_num) [0..<NUM_MTRR_FIX]"

definition get_gmtrr_fix :: "'hw rdmsr \<Rightarrow> u64 \<Rightarrow> 'hw cache \<Rightarrow> u64 option" where
  "get_gmtrr_fix rd msr_num st =
     (if pass_mtrrfix (current st) then cache_rdmsr rd msr_num st
      else map_option (mtrr_fix (regs_g (current st))) (get_index_from_mtrr_fix_msr_num msr_num))"

definition set_gmtrr_fix :: "'hw wrmsr \<Rightarrow> u64 \<Rightarrow> u64 \<Rightarrow> 'hw cache \<Rightarrow> 'hw cache option" where
  "set_gmtrr_fix wr msr_num value st =
     (if pass_mtrrfix (current st) then cache_wrmsr wr msr_num value st
      else if list_ex (\<lambda>i. let type = ucast (drop_bit (i * 8) value) in \<not> is_type_ok type st \<or> type = CACHE_TYPE_UC_MINUS) [0..<8]
      then None
      else case get_index_from_mtrr_fix_msr_num msr_num of
        None \<Rightarrow> None
      | Some i \<Rightarrow> Some (set_g (\<lambda>r. r\<lparr>mtrr_fix := (mtrr_fix r)(i := value)\<rparr>) st))"

section \<open>The type of a guest mapping\<close>

text \<open>\<open>pat_mtrr_matrix\<close>: rows are types of the page attribute table, columns types of the range registers;
  entries that the source does not name are 0.\<close>

definition pat_mtrr_matrix :: "u8 \<Rightarrow> u8 \<Rightarrow> u8" where
  "pat_mtrr_matrix gpat gmtrr =
     ([[CACHE_TYPE_UC, CACHE_TYPE_UC, 0, 0, CACHE_TYPE_UC, CACHE_TYPE_UC, CACHE_TYPE_UC, 0],
       [CACHE_TYPE_WC, CACHE_TYPE_WC, 0, 0, CACHE_TYPE_WC, CACHE_TYPE_WC, CACHE_TYPE_WC, 0],
       [0, 0, 0, 0, 0, 0, 0, 0],
       [0, 0, 0, 0, 0, 0, 0, 0],
       [CACHE_TYPE_UC, CACHE_TYPE_UC, 0, 0, CACHE_TYPE_WT, CACHE_TYPE_WT, CACHE_TYPE_WT, 0],
       [CACHE_TYPE_UC, CACHE_TYPE_UC, 0, 0, CACHE_TYPE_WP, CACHE_TYPE_WP, CACHE_TYPE_WP, 0],
       [CACHE_TYPE_UC, CACHE_TYPE_WC, 0, 0, CACHE_TYPE_WT, CACHE_TYPE_WP, CACHE_TYPE_WB, 0],
       [CACHE_TYPE_UC, CACHE_TYPE_WC, 0, 0, CACHE_TYPE_UC, CACHE_TYPE_WC, CACHE_TYPE_UC, 0]] ! unat gpat) ! unat gmtrr"

definition attr_pat_index :: "u32 \<Rightarrow> nat" where
  "attr_pat_index gattr =
     (if gattr AND PTE_PAT_BIT \<noteq> 0 then 4 else 0) + (if gattr AND PTE_PCD_BIT \<noteq> 0 then 2 else 0) +
     (if gattr AND PTE_PWT_BIT \<noteq> 0 then 1 else 0)"

definition get_type :: "u64 \<Rightarrow> u32 \<Rightarrow> 'hw cache \<Rightarrow> u8 res" where
  "get_type gphys gattr st =
     (let gpat_type = pat_data (regs_g (current st)) (attr_pat_index gattr) in
      if gpat_type = CACHE_TYPE_UC \<or> gpat_type = CACHE_TYPE_WC then Inr gpat_type
      else
        let gmtrr_type = get_mtrr_type gphys (regs_g (current st)) (pass_mtrrfix (current st)) in
        res_bind (assert_res (gpat_type < 8 \<and> gmtrr_type < 8)) (\<lambda>_. Inr (pat_mtrr_matrix gpat_type gmtrr_type)))"

definition attr_from_type :: "u8 \<Rightarrow> 'hw cache \<Rightarrow> u32" where
  "attr_from_type type st =
     (let pat_index = pat_index_from_type (currentcpu st) (unat type) in
      (if pat_index AND 4 \<noteq> 0 then PTE_PAT_BIT else 0) OR (if pat_index AND 2 \<noteq> 0 then PTE_PCD_BIT else 0) OR
      (if pat_index AND 1 \<noteq> 0 then PTE_PWT_BIT else 0))"

definition cache_get_attr :: "u64 \<Rightarrow> u32 \<Rightarrow> 'hw cache \<Rightarrow> u32 res" where
  "cache_get_attr gphys gattr st =
     (if \<not> pc_pat (currentcpu st) then Inr gattr
      else res_bind (get_type gphys gattr st) (\<lambda>type. Inr (attr_from_type type st)))"

definition cache_get_gmtrr_type :: "u64 \<Rightarrow> 'hw cache \<Rightarrow> u8" where
  "cache_get_gmtrr_type gphys st = get_mtrr_type gphys (regs_g (current st)) False"

definition cache_gmtrr_type_equal :: "u64 \<Rightarrow> u64 \<Rightarrow> 'hw cache \<Rightarrow> bool" where
  "cache_gmtrr_type_equal gphys physmask st = mtrr_type_equal gphys (regs_g (current st)) physmask"

definition cache_get_gmtrr_attr :: "u64 \<Rightarrow> 'hw cache \<Rightarrow> u32" where
  "cache_get_gmtrr_attr gphys st =
     attr_from_type (get_mtrr_type gphys (regs_g (current st)) (pass_mtrrfix (current st))) st"

definition cache_get_gmtrrcap :: "'hw cache \<Rightarrow> u64" where
  "cache_get_gmtrrcap st =
     (if \<not> pc_pat (currentcpu st) then 0
      else (mtrrcap (currentcpu st) AND MSR_IA32_MTRRCAP_WC_BIT) OR MSR_IA32_MTRRCAP_FIX_BIT OR word_of_nat GMTRR_VCNT)"

section \<open>Accesses of the guest\<close>

definition cache_get_gmtrr :: "'hw rdmsr \<Rightarrow> u64 \<Rightarrow> 'hw cache \<Rightarrow> u64 option" where
  "cache_get_gmtrr rd msr_num st =
     (if \<not> pc_pat (currentcpu st) then None
      else if msr_num = MSR_IA32_MTRR_DEF_TYPE then get_gmtrr_def_type st
      else if msr_num \<ge> MSR_IA32_MTRR_PHYSBASE0 \<and> msr_num < MSR_IA32_MTRR_FIX64K_00000 then get_gmtrr_range msr_num st
      else if msr_num \<ge> MSR_IA32_MTRR_FIX64K_00000 \<and> msr_num \<le> MSR_IA32_MTRR_FIX4K_F8000 then get_gmtrr_fix rd msr_num st
      else None)"

definition cache_set_gmtrr :: "'hw wrmsr \<Rightarrow> u64 \<Rightarrow> u64 \<Rightarrow> 'hw cache \<Rightarrow> 'hw cache option" where
  "cache_set_gmtrr wr msr_num value st =
     (if \<not> pc_pat (currentcpu st) then None
      else if msr_num = MSR_IA32_MTRR_DEF_TYPE then set_gmtrr_def_type value st
      else if msr_num \<ge> MSR_IA32_MTRR_PHYSBASE0 \<and> msr_num < MSR_IA32_MTRR_FIX64K_00000 then set_gmtrr_range msr_num value st
      else if msr_num \<ge> MSR_IA32_MTRR_FIX64K_00000 \<and> msr_num \<le> MSR_IA32_MTRR_FIX4K_F8000 then set_gmtrr_fix wr msr_num value st
      else None)"

definition copy_syscfg_mtrrfix :: "u64 \<Rightarrow> u64 \<Rightarrow> u64" where
  "copy_syscfg_mtrrfix dest src =
     (let m = MSR_AMD_SYSCFG_MTRRFIXDRAMEN_BIT OR MSR_AMD_SYSCFG_MTRRFIXDRAMMODEN_BIT
      in (dest AND NOT m) OR (src AND m))"

definition set_h_syscfg :: "u64 \<Rightarrow> 'hw cache \<Rightarrow> 'hw cache" where
  "set_h_syscfg v st = st\<lparr>currentcpu := (currentcpu st)\<lparr>regs_h := (regs_h (currentcpu st))\<lparr>syscfg := v\<rparr>\<rparr>\<rparr>"

definition cache_get_gmsr_amd :: "'hw rdmsr \<Rightarrow> u64 \<Rightarrow> 'hw cache \<Rightarrow> (u64 \<times> 'hw cache) option res" where
  "cache_get_gmsr_amd rd msr_num st =
     (if msr_num = MSR_AMD_SYSCFG then
        res_bind (if pass_mtrrfix (current st)
                  then res_bind (asm_rdmsr64 rd MSR_AMD_SYSCFG st) (\<lambda>v.
                    Inr (set_g (\<lambda>r. r\<lparr>syscfg := copy_syscfg_mtrrfix (syscfg r) v\<rparr>) (set_h_syscfg v st)))
                  else Inr st) (\<lambda>st.
          Inr (Some (syscfg (regs_g (current st)), st)))
      else if msr_num = MSR_AMD_TOP_MEM2 then Inr (Some (top_mem2 (regs_g (current st)), st))
      else Inr None)"

definition cache_set_gmsr_amd :: "'hw rdmsr \<Rightarrow> 'hw wrmsr \<Rightarrow> u64 \<Rightarrow> u64 \<Rightarrow> 'hw cache \<Rightarrow> 'hw cache option res" where
  "cache_set_gmsr_amd rd wr msr_num value st =
     (if msr_num = MSR_AMD_SYSCFG then
        let st = set_g (\<lambda>r. r\<lparr>syscfg := value\<rparr>) st in
        res_bind (if pass_mtrrfix (current st)
                  then res_bind (asm_rdmsr64 rd MSR_AMD_SYSCFG st) (\<lambda>v.
                    let h = copy_syscfg_mtrrfix v value in asm_wrmsr64 wr MSR_AMD_SYSCFG h (set_h_syscfg h st))
                  else Inr st) (\<lambda>st. Inr (Some st))
      else if msr_num = MSR_AMD_TOP_MEM2 then Inr (Some (set_g (\<lambda>r. r\<lparr>top_mem2 := value\<rparr>) st))
      else Inr None)"

text \<open>The results of the setters are ignored in \<open>cache_init_vcpu\<close>.\<close>

definition ignore :: "('a \<Rightarrow> 'a option) \<Rightarrow> 'a \<Rightarrow> 'a" where
  "ignore f st = (case f st of None \<Rightarrow> st | Some st' \<Rightarrow> st')"

definition cache_init_vcpu :: "'hw cache \<Rightarrow> 'hw cache" where
  "cache_init_vcpu st =
     (let st = (if pc_pat (currentcpu st)
                then set_g (\<lambda>r. r\<lparr>syscfg := 0\<rparr>) (ignore (set_gmtrr_def_type 0) (ignore (set_gpat pat_default) st))
                else st)
      in st\<lparr>current := (current st)\<lparr>pass_mtrrfix := False\<rparr>\<rparr>)"

definition or_panic :: "string \<Rightarrow> 'a option \<Rightarrow> 'a res" where
  "or_panic s x = (case x of None \<Rightarrow> Inl (Panic s) | Some y \<Rightarrow> Inr y)"

fun pass_ranges :: "cache_regs \<Rightarrow> nat list \<Rightarrow> 'hw cache \<Rightarrow> 'hw cache res" where
  "pass_ranges h [] st = Inr st"
| "pass_ranges h (i # is) st =
     res_bind (or_panic ''set_gmtrr_range'' (set_gmtrr_range (MSR_IA32_MTRR_PHYSBASE0 + word_of_nat i * 2) (mtrr_physbase h i) st)) (\<lambda>st.
     res_bind (or_panic ''set_gmtrr_range'' (set_gmtrr_range (MSR_IA32_MTRR_PHYSMASK0 + word_of_nat i * 2) (mtrr_physmask h i) st))
       (pass_ranges h is))"

fun pass_fix :: "'hw wrmsr \<Rightarrow> cache_regs \<Rightarrow> nat list \<Rightarrow> 'hw cache \<Rightarrow> 'hw cache res" where
  "pass_fix wr h [] st = Inr st"
| "pass_fix wr h (i # is) st =
     res_bind (or_panic ''set_gmtrr_fix'' (set_gmtrr_fix wr (mtrr_fix_msr ! i) (mtrr_fix h i) st)) (pass_fix wr h is)"

definition cache_init_pass :: "'hw wrmsr \<Rightarrow> 'hw cache \<Rightarrow> 'hw cache res" where
  "cache_init_pass wr st =
     (let p = currentcpu st; h = regs_h p in
      if \<not> pc_pat p \<or> \<not> pc_mtrr p then Inr st
      else
        let st = (if syscfg_exist p then st\<lparr>current := (current st)\<lparr>pass_mtrrfix := True\<rparr>\<rparr> else st);
            st = fold (\<lambda>i. ignore (set_gmtrr_range (MSR_IA32_MTRR_PHYSMASK0 + word_of_nat i * 2) 0)) [0..<GMTRR_VCNT] st
        in res_bind (pass_ranges h [0..<unat (mtrrcap p AND MSR_IA32_MTRRCAP_VCNT_MASK)] st) (\<lambda>st.
           res_bind (if mtrrcap p AND MSR_IA32_MTRRCAP_FIX_BIT \<noteq> 0 then pass_fix wr h [0..<NUM_MTRR_FIX] st else Inr st) (\<lambda>st.
           res_bind (or_panic ''set_gmtrr_def_type'' (set_gmtrr_def_type (mtrr_def_type h) st)) (\<lambda>st.
             let st = set_g (\<lambda>r. r\<lparr>syscfg := syscfg h\<rparr>) st
             in Inr (if syscfg (regs_g (current st)) AND MSR_AMD_SYSCFG_MTRRTOM2EN_BIT \<noteq> 0
                     then set_g (\<lambda>r. r\<lparr>top_mem2 := top_mem2 h\<rparr>) st else st)))))"

section \<open>Large pages of one type\<close>

text \<open>\<open>same_page\<close>: two addresses that differ in the bits of \<open>physmask\<close> only. A range register is contiguous
  when its mask consists of all bits from some place up to the width \<open>w\<close> of physical addresses, as
  the masks that firmware and operating systems write are.\<close>

definition contiguous :: "nat \<Rightarrow> cache_regs \<Rightarrow> bool" where
  "contiguous w c \<longleftrightarrow> (\<forall>i < GMTRR_VCNT. mtrr_physmask c i AND MSR_IA32_MTRR_PHYSMASK0_V_BIT \<noteq> 0 \<longrightarrow>
     (\<exists>s. mtrr_physmask c i AND MSR_IA32_MTRR_PHYSMASK0_PHYSMASK_MASK = mask w AND NOT (mask s)))"

lemma and_mask_eq:
  fixes m q phys k :: u64
  assumes "m AND k = 0" "q AND NOT k = phys AND NOT k"
  shows "m AND q = m AND phys"
proof (rule bit_eqI)
  fix n assume n: "possible_bit TYPE(u64) n"
  have "bit (m AND k) n = False" "bit (q AND NOT k) n = bit (phys AND NOT k) n" using assms by simp_all
  then show "bit (m AND q) n = bit (m AND phys) n" using n by (auto simp: bit_and_iff bit_not_iff)
qed

lemma contiguous_no_match:
  fixes base q phys :: u64
  assumes m: "m = mask w AND NOT (mask s)" and k: "m AND mask k \<noteq> 0" and q: "q AND NOT (mask k) = phys AND NOT (mask k)"
    and w: "phys AND NOT (mask w) = 0" and ne: "(m AND base) AND NOT (mask k) \<noteq> phys AND NOT (mask k)"
  shows "m AND base \<noteq> m AND q"
proof
  assume eq: "m AND base = m AND q"
  obtain n where "bit (m AND mask k) n" using k bit_eq_iff [of "m AND mask k" 0] by auto
  then have s: "s \<le> n" "n < k" by (auto simp: m bit_simps)
  have "(m AND base) AND NOT (mask k) = phys AND NOT (mask k)" unfolding eq
  proof (rule bit_eqI)
    fix j assume j: "possible_bit TYPE(u64) j"
    have a: "bit (q AND NOT (mask k)) j = bit (phys AND NOT (mask k)) j" using q by simp
    have b: "\<not> bit (phys AND NOT (mask w)) j" using w by simp
    show "bit ((m AND q) AND NOT (mask k)) j = bit (phys AND NOT (mask k)) j"
      using a b s j by (auto simp: m bit_simps)
  qed
  then show False using ne by simp
qed

lemma equal_ranges_sound:
  assumes "\<forall>i \<in> set is. i < GMTRR_VCNT" "contiguous w c" "phys AND NOT (mask w) = 0" "q AND NOT (mask k) = phys AND NOT (mask k)"
  shows "(equal_ranges phys c (mask k) is type = Inl True \<longrightarrow> mtrr_ranges q c is type = CACHE_TYPE_UC \<and> mtrr_ranges phys c is type = CACHE_TYPE_UC) \<and>
    (equal_ranges phys c (mask k) is type = Inr t \<longrightarrow> mtrr_ranges q c is type = t \<and> mtrr_ranges phys c is type = t)"
  using assms(1)
proof (induction "is" arbitrary: type)
  case (Cons i "is")
  let ?m = "mtrr_physmask c i AND MSR_IA32_MTRR_PHYSMASK0_PHYSMASK_MASK"
  have IH: "(equal_ranges phys c (mask k) is ty = Inl True \<longrightarrow> mtrr_ranges q c is ty = CACHE_TYPE_UC \<and> mtrr_ranges phys c is ty = CACHE_TYPE_UC) \<and>
    (equal_ranges phys c (mask k) is ty = Inr t \<longrightarrow> mtrr_ranges q c is ty = t \<and> mtrr_ranges phys c is ty = t)" for ty
    using Cons.IH Cons.prems by simp
  show ?case
  proof (cases "mtrr_physmask c i AND MSR_IA32_MTRR_PHYSMASK0_V_BIT = 0")
    case True
    then show ?thesis using IH by simp
  next
    case v: False
    then obtain s where s: "?m = mask w AND NOT (mask s)" using assms(2) Cons.prems by (auto simp: contiguous_def)
    have low: "?m AND q = ?m AND phys" if "?m AND mask k = 0" by (rule and_mask_eq [OF that assms(4)])
    show ?thesis
    proof (cases "?m AND mtrr_physbase c i = ?m AND phys")
      case True
      then show ?thesis using v IH low by (simp add: Let_def)
    next
      case ne: False
      have "?m AND mtrr_physbase c i \<noteq> ?m AND q"
        if "\<not> (?m AND mask k \<noteq> 0 \<and> (?m AND mtrr_physbase c i) AND NOT (mask k) = phys AND NOT (mask k))"
        using that contiguous_no_match [OF s _ assms(4,3)] low ne by metis
      then show ?thesis using v ne IH by (auto simp: Let_def)
    qed
  qed
qed simp

lemma take_bit_32: "take_bit 32 (x :: u64) = x \<longleftrightarrow> x < 2 ^ 32"
  by (simp add: word_unat_eq_iff unsigned_take_bit_eq take_bit_nat_eq_self_iff word_less_nat_alt)

lemma page_bounds:
  fixes q phys :: u64
  assumes "q AND NOT (mask k) = phys"
  shows "phys \<le> q" "q \<le> phys OR mask k" "phys < 2 ^ 32 \<Longrightarrow> k \<le> 32 \<Longrightarrow> q < 2 ^ 32"
proof -
  have le: "a \<le> b" if "\<And>n. bit a n \<Longrightarrow> bit b n" for a b :: u64
  proof -
    have "a AND b = a" by (rule bit_eqI) (use that in \<open>auto simp: bit_and_iff\<close>)
    then have "uint a = uint a AND uint b" by (metis unsigned_and_eq)
    also have "\<dots> \<le> uint b" by (rule AND_upper2) simp
    finally show ?thesis by (simp add: word_le_def)
  qed
  show "phys \<le> q" by (rule le) (use assms in \<open>auto simp: bit_simps\<close>)
  show "q \<le> phys OR mask k"
  proof (rule le)
    fix n assume "bit q n"
    moreover have "n < 64" using bit_imp_le_length [OF \<open>bit q n\<close>] by simp
    ultimately show "bit (phys OR mask k) n" unfolding assms [symmetric] by (auto simp: bit_simps)
  qed
  assume p: "phys < 2 ^ 32" "k \<le> 32"
  have "take_bit 32 q = q"
  proof (rule bit_eqI)
    fix n
    have "\<not> bit q n" if "32 \<le> n"
    proof
      assume b: "bit q n"
      then have "n < 64" using bit_imp_le_length [OF b] by simp
      then have "bit phys n" using b that p(2) unfolding assms [symmetric] by (auto simp: bit_simps)
      moreover have "take_bit 32 phys = phys" using p(1) by (simp only: take_bit_32)
      ultimately show False using that by (metis bit_take_bit_iff not_le)
    qed
    then show "bit (take_bit 32 q) n = bit q n" by (cases "32 \<le> n") (auto simp: bit_take_bit_iff)
  qed
  then show "q < 2 ^ 32" by (simp only: take_bit_32)
qed

text \<open>
  C20. A large page is mapped with one type only if all its addresses have this type: if the range
  registers are contiguous and \<open>mtrr_type_equal\<close> accepts the aligned page of \<open>2 ^ k\<close> bytes at \<open>phys\<close>,
  then every address of the page has the same type as its first.
\<close>

theorem mtrr_type_equal_sound:
  assumes eq: "mtrr_type_equal phys c (mask k)" and k: "k \<le> 32" and al: "phys AND mask k = 0"
    and c: "contiguous w c" "phys AND NOT (mask w) = 0" and q: "q AND NOT (mask k) = phys"
  shows "get_mtrr_type q c pass = get_mtrr_type phys c pass"
proof -
  have al2: "phys AND NOT (mask k) = phys" using q by (metis and.assoc and.idem)
  note b = page_bounds [OF q]
  let ?top = "top_mem2 c AND MSR_AMD_TOP_MEM2_ADDR_MASK" and ?l = "[0..<GMTRR_VCNT]"
  note s = equal_ranges_sound [of ?l w c phys q k CACHE_TYPE_UC_MINUS, OF _ c]
  have E: "mtrr_def_type c AND MSR_IA32_MTRR_DEF_TYPE_E_BIT \<noteq> 0" using eq by (auto simp: mtrr_type_equal_def split: if_splits)
  have F: "\<not> (mtrr_def_type c AND MSR_IA32_MTRR_DEF_TYPE_FE_BIT \<noteq> 0 \<and> phys \<le> 0xFFFFF)"
    using eq by (auto simp: mtrr_type_equal_def split: if_splits)
  then have Fq: "\<not> (mtrr_def_type c AND MSR_IA32_MTRR_DEF_TYPE_FE_BIT \<noteq> 0 \<and> q \<le> 0xFFFFF)" using b(1) by auto
  have r: "mtrr_ranges q c ?l CACHE_TYPE_UC_MINUS = mtrr_ranges phys c ?l CACHE_TYPE_UC_MINUS"
    using eq E s [of _] q al2 by (auto simp: mtrr_type_equal_def split: if_splits sum.splits)
  show ?thesis
  proof (cases "mtrr_ranges phys c ?l CACHE_TYPE_UC_MINUS = CACHE_TYPE_UC_MINUS")
    case False
    then show ?thesis unfolding get_mtrr_type_def Let_def using E F Fq r by auto
  next
    case True
    then have "equal_ranges phys c (mask k) ?l CACHE_TYPE_UC_MINUS = Inr CACHE_TYPE_UC_MINUS"
      using eq E s q al2 by (auto simp: mtrr_type_equal_def CACHE_TYPE_UC_def CACHE_TYPE_UC_MINUS_def split: if_splits sum.splits)
    then have "phys \<ge> 0x100000000 \<and> syscfg c AND MSR_AMD_SYSCFG_TOM2FORCEMEMTYPEWB_BIT \<noteq> 0 \<and> phys < ?top \<longrightarrow> phys OR mask k < ?top"
      using eq E by (auto simp: mtrr_type_equal_def split: if_splits)
    moreover have "phys \<ge> 0x100000000 \<longleftrightarrow> q \<ge> 0x100000000" using b(1,3) k by (auto simp: not_le [symmetric])
    moreover have "phys < ?top \<Longrightarrow> phys OR mask k < ?top \<Longrightarrow> q < ?top" "q < ?top \<Longrightarrow> phys < ?top" using b(1,2) by auto
    ultimately show ?thesis unfolding get_mtrr_type_def Let_def using E F Fq r by auto
  qed
qed

text \<open>Registers with a write-back range of 2 GiB at address 0 and an uncached range of 1 MiB behind it.\<close>

definition example_regs :: cache_regs where
  "example_regs = \<lparr>pat_data = pat_default, mtrr_def_type = 0x800,
     mtrr_physbase = (\<lambda>i. if i = 0 then 6 else 0x80000000),
     mtrr_physmask = (\<lambda>i. if i = 0 then 0xF80000800 else if i = 1 then 0xFFFF00800 else 0),
     mtrr_fix = (\<lambda>_. 0), syscfg = 0, top_mem2 = 0\<rparr>"

lemma example_contiguous: "contiguous 36 example_regs"
  unfolding contiguous_def
proof (intro allI impI)
  fix i assume "i < GMTRR_VCNT" "mtrr_physmask example_regs i AND MSR_IA32_MTRR_PHYSMASK0_V_BIT \<noteq> 0"
  then consider "i = 0" | "i = 1" by (auto simp: example_regs_def split: if_splits)
  then show "\<exists>s. mtrr_physmask example_regs i AND MSR_IA32_MTRR_PHYSMASK0_PHYSMASK_MASK = mask 36 AND NOT (mask s)"
  proof cases
    case 1
    then show ?thesis
      by (intro exI [of _ 31]) (simp add: example_regs_def MSR_IA32_MTRR_PHYSMASK0_PHYSMASK_MASK_def mask_eq_exp_minus_1)
  next
    case 2
    then show ?thesis
      by (intro exI [of _ 20]) (simp add: example_regs_def MSR_IA32_MTRR_PHYSMASK0_PHYSMASK_MASK_def mask_eq_exp_minus_1)
  qed
qed

theorem mtrr_type_equal_sound_witness:
  "mtrr_type_equal 0x200000 example_regs (mask 21) \<and> get_mtrr_type 0x212345 example_regs False = CACHE_TYPE_WB"
proof -
  have e: "mtrr_type_equal 0x200000 example_regs (mask 21)" by code_simp
  have t: "get_mtrr_type 0x200000 example_regs False = CACHE_TYPE_WB" by code_simp
  have "get_mtrr_type 0x212345 example_regs False = get_mtrr_type 0x200000 example_regs False"
    by (rule mtrr_type_equal_sound [OF e _ _ example_contiguous]) (simp_all add: mask_eq_exp_minus_1)
  then show ?thesis using e t by simp
qed

text \<open>A register whose mask is bit 20 alone.\<close>

definition split_regs :: cache_regs where
  "split_regs = example_regs\<lparr>mtrr_def_type := 0x806,
     mtrr_physbase := (\<lambda>_. 0x100000), mtrr_physmask := (\<lambda>i. if i = 0 then 0x100800 else 0)\<rparr>"


section \<open>Registers of the guest\<close>

lemma set_g_simps [simp]:
  "currentcpu (set_g f st) = currentcpu st" "regs_g (current (set_g f st)) = f (regs_g (current st))"
  "pass_mtrrfix (current (set_g f st)) = pass_mtrrfix (current st)" "is_type_ok t (set_g f st) = is_type_ok t st"
  by (simp_all add: set_g_def is_type_ok_def)

definition gtype_ok :: "u8 \<Rightarrow> 'hw cache \<Rightarrow> bool" where
  "gtype_ok t st \<longleftrightarrow> is_type_ok t st \<and> t \<noteq> CACHE_TYPE_UC_MINUS"

definition guest_types_ok :: "'hw cache \<Rightarrow> bool" where
  "guest_types_ok st \<longleftrightarrow> (let r = regs_g (current st) in
     (\<forall>i < 8. is_type_ok (pat_data r i) st) \<and>
     gtype_ok (ucast (mtrr_def_type r AND MSR_IA32_MTRR_DEF_TYPE_TYPE_MASK)) st \<and>
     (\<forall>i < GMTRR_VCNT. gtype_ok (ucast (mtrr_physbase r i AND MSR_IA32_MTRR_PHYSBASE0_TYPE_MASK)) st) \<and>
     (\<forall>i < NUM_MTRR_FIX. \<forall>j < 8. gtype_ok (ucast (drop_bit (j * 8) (mtrr_fix r i))) st))"

lemma gtype_ok_set_g [simp]: "gtype_ok t (set_g f st) = gtype_ok t st"
  by (simp add: gtype_ok_def)

lemma types_def_type:
  assumes "guest_types_ok st" "set_gmtrr_def_type v st = Some st'"
  shows "guest_types_ok st'"
  using assms by (auto simp: guest_types_ok_def set_gmtrr_def_type_def Let_def gtype_ok_def split: if_splits)

lemma types_range:
  assumes "guest_types_ok st" "set_gmtrr_range n v st = Some st'"
  shows "guest_types_ok st'"
  using assms by (auto simp: guest_types_ok_def set_gmtrr_range_def Let_def gtype_ok_def split: if_splits)

lemma types_fix:
  assumes "guest_types_ok st" "set_gmtrr_fix wr n v st = Some st'" "\<not> pass_mtrrfix (current st)"
  shows "guest_types_ok st'"
  using assms by (auto simp: guest_types_ok_def set_gmtrr_fix_def Let_def gtype_ok_def list_ex_iff split: if_splits option.splits)

lemma types_gpat:
  assumes "guest_types_ok st" "set_gpat d st = Some st'"
  shows "guest_types_ok st'"
  using assms by (auto simp: guest_types_ok_def set_gpat_def Let_def gtype_ok_def list_ex_iff split: if_splits)

lemma types_wrmsr:
  assumes "guest_types_ok st" "cache_wrmsr wr n v st = Some st'"
  shows "guest_types_ok st'"
  using assms by (auto simp: guest_types_ok_def cache_wrmsr_def Let_def gtype_ok_def is_type_ok_def)

lemma host_types:
  assumes "currentcpu st = make_pat_value p" "pc_pat p" "mtrrcap p AND MSR_IA32_MTRRCAP_WC_BIT \<noteq> 0"
  shows "is_type_ok t st \<longleftrightarrow> t \<in> {0, 1, 4, 5, 6, 7}"
  using assms by (auto simp: is_type_ok_def make_pat_value_def Let_def pat_value_def pat_default_def upt_rec
      CACHE_TYPE_UC_def CACHE_TYPE_WC_def CACHE_TYPE_WT_def CACHE_TYPE_WP_def CACHE_TYPE_WB_def CACHE_TYPE_UC_MINUS_def)

text \<open>A processor with write combining and a guest in its initial state.\<close>

definition example_cpu :: cache_pcpu_data where
  "example_cpu = \<lparr>pc_pat = True, pc_mtrr = True, syscfg_exist = False, mtrrcap = 0x508, pat_index_from_type = (\<lambda>_. 0),
     regs_h = \<lparr>pat_data = (\<lambda>_. 0), mtrr_def_type = 0, mtrr_physbase = (\<lambda>_. 0), mtrr_physmask = (\<lambda>_. 0), mtrr_fix = (\<lambda>_. 0),
               syscfg = 0, top_mem2 = 0\<rparr>\<rparr>"

definition example_cache :: "unit cache" where
  "example_cache = \<lparr>currentcpu = make_pat_value example_cpu,
     current = \<lparr>regs_g = \<lparr>pat_data = (\<lambda>_. 6), mtrr_def_type = 0x800, mtrr_physbase = (\<lambda>_. 0), mtrr_physmask = (\<lambda>_. 0),
                          mtrr_fix = (\<lambda>_. 0), syscfg = 0, top_mem2 = 0\<rparr>, pass_mtrrfix = False\<rparr>, hw = ()\<rparr>"

lemma example_types_ok: "guest_types_ok example_cache"
proof -
  have c: "currentcpu example_cache = make_pat_value example_cpu" "pc_pat example_cpu"
      "mtrrcap example_cpu AND MSR_IA32_MTRRCAP_WC_BIT \<noteq> 0"
    by (simp_all add: example_cache_def example_cpu_def MSR_IA32_MTRRCAP_WC_BIT_def)
  have r: "regs_g (current example_cache) = \<lparr>pat_data = (\<lambda>_. 6), mtrr_def_type = 0x800, mtrr_physbase = (\<lambda>_. 0),
      mtrr_physmask = (\<lambda>_. 0), mtrr_fix = (\<lambda>_. 0), syscfg = 0, top_mem2 = 0\<rparr>" by (simp add: example_cache_def)
  show ?thesis
    by (simp add: guest_types_ok_def gtype_ok_def host_types [OF c] r MSR_IA32_MTRR_DEF_TYPE_TYPE_MASK_def CACHE_TYPE_UC_MINUS_def)
qed

text \<open>
  C22. The guest can never store a memory type that the table of the hypervisor cannot express, nor
  the reserved type in a range register: every write to a range register or to the page
  attribute table that is accepted keeps all types of the guest valid.
\<close>

theorem guest_types_kept:
  assumes "guest_types_ok st" "cache_set_gmtrr wr n v st = Some st' \<or> cache_set_gpat v st = Some st'"
  shows "guest_types_ok st'"
proof -
  have "guest_types_ok st'" if "set_gmtrr_fix wr n v st = Some st'"
  proof (cases "pass_mtrrfix (current st)")
    case True
    then show ?thesis using that types_wrmsr [OF assms(1)] by (simp add: set_gmtrr_fix_def)
  next
    case False
    then show ?thesis using types_fix [OF assms(1) that] by blast
  qed
  then show ?thesis
    using assms types_def_type types_range types_gpat
    by (auto simp: cache_set_gmtrr_def cache_set_gpat_def split: if_splits)
qed

theorem guest_types_kept_witness:
  "\<exists>st'. cache_set_gmtrr (\<lambda>_ _ _. None) 0x200 0x80000006 example_cache = Some st' \<and> guest_types_ok st'"
proof -
  have "cache_set_gmtrr (\<lambda>_ _ _. None) 0x200 0x80000006 example_cache \<noteq> None" by code_simp
  then obtain st' where "cache_set_gmtrr (\<lambda>_ _ _. None) 0x200 0x80000006 example_cache = Some st'" by blast
  then show ?thesis using guest_types_kept [OF example_types_ok] by blast
qed

section \<open>Reading back\<close>

lemma range_index_eq:
  assumes "MSR_IA32_MTRR_PHYSBASE0 \<le> n" "MSR_IA32_MTRR_PHYSBASE0 \<le> m" "range_index n = range_index m" "(n AND 1 = 0) = (m AND 1 = 0)"
  shows "n = m"
proof -
  have u: "unat (x - 0x200) = unat x - 512" if "0x200 \<le> x" for x :: u64
    using that by (simp add: unat_sub word_le_nat_alt)
  have d: "unat (drop_bit (Suc 0) x) = unat x div 2" for x :: u64 by (simp add: drop_bit_eq_div unat_div)
  have e: "(x AND 1 = 0) = even (unat x)" for x :: u64
    by (metis and_one_eq even_iff_mod_2_eq_zero even_of_nat of_nat_unat ucast_id even_word_iff odd_one)
  have "(unat n - 512) div 2 = (unat m - 512) div 2" "512 \<le> unat n" "512 \<le> unat m" "even (unat n) = even (unat m)"
    using assms u [of n] u [of m] by (simp_all add: range_index_def d e MSR_IA32_MTRR_PHYSBASE0_def word_le_nat_alt)
  then have "unat n = unat m" by presburger
  then show ?thesis by (simp add: word_unat_eq_iff)
qed

lemma fix_index_msr:
  assumes "get_index_from_mtrr_fix_msr_num n = Some i"
  shows "i < NUM_MTRR_FIX" "mtrr_fix_msr ! i = n"
  using assms by (auto simp: get_index_from_mtrr_fix_msr_num_def find_Some_iff)

lemma range_roundtrip:
  assumes "set_gmtrr_range n v st = Some st'" "MSR_IA32_MTRR_PHYSBASE0 \<le> n"
  shows "get_gmtrr_range n st' = Some v" "MSR_IA32_MTRR_PHYSBASE0 \<le> m \<Longrightarrow> m \<noteq> n \<Longrightarrow> get_gmtrr_range m st' = get_gmtrr_range m st"
    "get_gmtrr_def_type st' = get_gmtrr_def_type st" "get_gmtrr_fix rd m st' = get_gmtrr_fix rd m st"
    "pc_pat (currentcpu st') = pc_pat (currentcpu st)"
proof -
  show "get_gmtrr_range n st' = Some v" "get_gmtrr_def_type st' = get_gmtrr_def_type st" "get_gmtrr_fix rd m st' = get_gmtrr_fix rd m st"
    "pc_pat (currentcpu st') = pc_pat (currentcpu st)"
    using assms by (auto simp: set_gmtrr_range_def get_gmtrr_range_def get_gmtrr_def_type_def get_gmtrr_fix_def cache_rdmsr_def set_g_def
        Let_def split: if_splits)
  assume m: "MSR_IA32_MTRR_PHYSBASE0 \<le> m" "m \<noteq> n"
  then have "range_index m \<noteq> range_index n \<or> (m AND 1 = 0) \<noteq> (n AND 1 = 0)" using range_index_eq assms(2) by blast
  then show "get_gmtrr_range m st' = get_gmtrr_range m st"
    using assms(1) by (auto simp: set_gmtrr_range_def get_gmtrr_range_def Let_def split: if_splits)
qed

lemma def_type_roundtrip:
  assumes "set_gmtrr_def_type v st = Some st'"
  shows "get_gmtrr_def_type st' = Some v" "get_gmtrr_range m st' = get_gmtrr_range m st" "get_gmtrr_fix rd m st' = get_gmtrr_fix rd m st"
    "pc_pat (currentcpu st') = pc_pat (currentcpu st)"
  using assms by (auto simp: set_gmtrr_def_type_def get_gmtrr_range_def get_gmtrr_def_type_def get_gmtrr_fix_def cache_rdmsr_def set_g_def
      Let_def split: if_splits)

lemma fix_roundtrip:
  assumes "set_gmtrr_fix wr n v st = Some st'" "\<not> pass_mtrrfix (current st)"
  shows "get_gmtrr_fix rd n st' = Some v" "m \<noteq> n \<Longrightarrow> get_gmtrr_fix rd m st' = get_gmtrr_fix rd m st"
    "get_gmtrr_def_type st' = get_gmtrr_def_type st" "get_gmtrr_range m st' = get_gmtrr_range m st"
    "pc_pat (currentcpu st') = pc_pat (currentcpu st)"
proof -
  obtain i where i: "get_index_from_mtrr_fix_msr_num n = Some i" "st' = set_g (\<lambda>r. r\<lparr>mtrr_fix := (mtrr_fix r)(i := v)\<rparr>) st"
    using assms by (auto simp: set_gmtrr_fix_def split: if_splits option.splits)
  then show "get_gmtrr_fix rd n st' = Some v" "get_gmtrr_def_type st' = get_gmtrr_def_type st" "get_gmtrr_range m st' = get_gmtrr_range m st"
    "pc_pat (currentcpu st') = pc_pat (currentcpu st)"
    using assms(2) by (simp_all add: get_gmtrr_fix_def get_gmtrr_def_type_def get_gmtrr_range_def Let_def)
  assume "m \<noteq> n"
  then have "get_index_from_mtrr_fix_msr_num m \<noteq> Some i" using fix_index_msr(2) i(1) by blast
  then show "get_gmtrr_fix rd m st' = get_gmtrr_fix rd m st"
    using i(2) assms(2) by (cases "get_index_from_mtrr_fix_msr_num m") (simp_all add: get_gmtrr_fix_def)
qed



section \<open>Page-table bits\<close>

lemma mtrr_ranges_ok:
  assumes "guest_types_ok st" "\<forall>i \<in> set is. i < GMTRR_VCNT" "gtype_ok CACHE_TYPE_WT st" "gtype_ok CACHE_TYPE_UC st"
    "t = CACHE_TYPE_UC_MINUS \<or> gtype_ok t st"
  shows "mtrr_ranges phys (regs_g (current st)) is t = CACHE_TYPE_UC_MINUS \<or> gtype_ok (mtrr_ranges phys (regs_g (current st)) is t) st"
  using assms(2,5)
proof (induction "is" arbitrary: t)
  case (Cons i "is")
  let ?b = "ucast (mtrr_physbase (regs_g (current st)) i AND MSR_IA32_MTRR_PHYSBASE0_TYPE_MASK) :: u8"
  have b: "gtype_ok ?b st" using assms(1) Cons.prems(1) by (simp add: guest_types_ok_def Let_def)
  have IH: "u = CACHE_TYPE_UC_MINUS \<or> gtype_ok u st \<Longrightarrow> mtrr_ranges phys (regs_g (current st)) is u = CACHE_TYPE_UC_MINUS \<or>
     gtype_ok (mtrr_ranges phys (regs_g (current st)) is u) st" for u using Cons.IH Cons.prems(1) by simp
  show ?case using IH [OF Cons.prems(2)] IH [of CACHE_TYPE_WT] IH [of ?b] b assms(3,4) by (simp add: Let_def)
qed simp

lemma fix_index_less: "phys \<le> 0xFFFFF \<Longrightarrow> fix_index phys < 88"
proof -
  have m: "unat (drop_bit n (x AND m)) \<le> unat m div 2 ^ n" for n and x m :: u64
  proof -
    have "unat (x AND m) \<le> unat m" by (simp add: word_le_nat_alt [symmetric] word_and_le1)
    moreover have "unat (drop_bit n (x AND m)) = unat (x AND m) div 2 ^ n"
      by (simp only: unsigned_drop_bit_eq) (simp add: drop_bit_eq_div take_bit_nat_eq_self [OF unat_u64_less])
    ultimately show ?thesis by (simp add: div_le_mono)
  qed
  show ?thesis
    using m [of 12 phys "0x3F000"] m [of 14 phys "0x3C000"] m [of 16 phys "0x70000"] by (auto simp: fix_index_def)
qed

lemma get_mtrr_type_ok:
  assumes "guest_types_ok st" "gtype_ok CACHE_TYPE_WT st" "gtype_ok CACHE_TYPE_UC st" "gtype_ok CACHE_TYPE_WB st"
  shows "gtype_ok (get_mtrr_type phys (regs_g (current st)) pass) st"
proof -
  let ?r = "regs_g (current st)"
  have "gtype_ok (mtrr_fix_byte ?r (fix_index phys)) st" if "phys \<le> 0xFFFFF"
  proof -
    have "\<And>i j. i < 11 \<Longrightarrow> j < 8 \<Longrightarrow> gtype_ok (ucast (drop_bit (8 * j) (mtrr_fix ?r i))) st"
      using assms(1) by (simp add: guest_types_ok_def Let_def NUM_MTRR_FIX_def mult.commute)
    moreover have "fix_index phys div 8 < 11" "fix_index phys mod 8 < 8" using fix_index_less [OF that] by auto
    ultimately show ?thesis unfolding mtrr_fix_byte_def by blast
  qed
  moreover have "mtrr_ranges phys ?r [0..<GMTRR_VCNT] CACHE_TYPE_UC_MINUS = CACHE_TYPE_UC_MINUS \<or>
      gtype_ok (mtrr_ranges phys ?r [0..<GMTRR_VCNT] CACHE_TYPE_UC_MINUS) st"
    by (rule mtrr_ranges_ok [OF assms(1) _ assms(2,3)]) auto
  moreover have "gtype_ok (ucast (mtrr_def_type ?r AND MSR_IA32_MTRR_DEF_TYPE_TYPE_MASK)) st"
    using assms(1) by (simp add: guest_types_ok_def Let_def)
  ultimately show ?thesis using assms(3,4) by (auto simp: get_mtrr_type_def Let_def)
qed

lemma matrix_attr:
  assumes st: "currentcpu st = make_pat_value p" "pc_pat p" "mtrrcap p AND MSR_IA32_MTRRCAP_WC_BIT \<noteq> 0"
    and t: "t \<in> {0, 1, 4, 5, 6, 7}"
  shows "pat_data (regs_h (currentcpu st)) (attr_pat_index (attr_from_type t st)) = t"
  using t st by (auto simp: attr_from_type_def make_pat_value_def Let_def pat_value_def pat_default_def attr_pat_index_def upt_rec
      CACHE_TYPE_UC_def CACHE_TYPE_WC_def CACHE_TYPE_WT_def CACHE_TYPE_WP_def CACHE_TYPE_WB_def CACHE_TYPE_UC_MINUS_def
      PTE_PAT_BIT_def PTE_PCD_BIT_def PTE_PWT_BIT_def)



end
