(* ===== verification/Spec2Isabelle.thy ===== *)
theory Spec2Isabelle
  imports List1 Strtol CString Qsort Initfunc Vmm_mem Mm_pageinv Mempool Mm_allocinv Printf Msg Timer Cpu_mmu Cache
begin

text \<open>
  A verification library of the BitVisor hypervisor: its memory management, the code that hides
  the hypervisor from the guest, the walk of the guest's page tables, and the base library of
  \<^verbatim>\<open>src/core\<close>. Each theory models one component as executable definitions and proves the
  properties that make it correct. The ids in the text blocks number these properties.

  \<^bold>\<open>The program.\<close> BitVisor takes 128 MiB of memory at start-up, hides it from the guest by
  editing the memory map of the firmware, and runs one guest. Its core allocates memory from that
  region, registers message services between its processes, keeps timers, prints logs, and on
  every access to guest-linear memory walks the page tables of the guest. Its start-up code runs
  a sorted table of initialisation functions. The drivers, the network and the storage code are
  clients of this core.

  \<^bold>\<open>Conventions.\<close> The machine is a 64-bit one: \<open>int\<close> and \<open>unsigned int\<close> are 32-bit words,
  \<open>long\<close> and pointers are 64-bit words; sums wrap, and comparisons are signed where the source
  compares signed numbers. Code that may stop the hypervisor returns \<open>fault + 'a\<close>: a failed
  \<open>ASSERT\<close> is \<open>Assert_fail\<close>, a \<open>panic\<close> is \<open>Panic\<close> with the fixed part of its message, an access outside an
  array is \<open>Out_of_bounds\<close>, and taking a lock twice is \<open>Deadlock\<close>. Code between taking and
  releasing a lock is one step. Loops that may not end are partial functions with values in
  \<open>option\<close>, and a property that such a loop returns says that the value is not \<open>None\<close>.

  \<^bold>\<open>Theories.\<close>

  \<^item> \<open>Bv_Prelude\<close>: names of the integer types, the result type with its monad, reading and
    writing of words in byte memory, and lemmas on words and lists that several theories share.

  \<^item> \<open>List1\<close> models the intrusive lists of \<^verbatim>\<open>include/core/list.h\<close> (\<open>LIST1_ADD\<close>, \<open>LIST1_PUSH\<close>,
    \<open>LIST1_DEL\<close>, \<open>LIST1_POP\<close>) on an explicit store of links. The locale
    \<open>intrusive_list\<close> states the contract with sequences; its interpretation is the refinement of
    sequences by the pointer code. The other theories use sequences where the source uses
    these lists.

  \<^item> \<open>Strtol\<close> models \<^verbatim>\<open>core/strtol.c\<close>: values and rests of all numerals, saturation of \<open>strtol\<close>,
    and the wrap-around in \<open>strtoul\<close>.

  \<^item> \<open>CString\<close> models \<^verbatim>\<open>core/string.c\<close> with its word-sized accesses and shows that
    \<open>memset\<close> and \<open>memmove\<close> equal byte-by-byte definitions for all alignments and overlaps.

  \<^item> \<open>Qsort\<close> models \<^verbatim>\<open>core/qsort.c\<close>. The locale \<open>qsort_order\<close> is the contract of the comparison
    function, interpreted for the two comparison functions of the source.

  \<^item> \<open>Initfunc\<close> models \<^verbatim>\<open>core/initfunc.c\<close>: the order in which initialisation functions run.

  \<^item> \<open>Vmm_mem\<close> models \<^verbatim>\<open>core/x86/vmm_mem.c\<close>: reading the map of the firmware, placing the
    hypervisor, the map shown to the guest, allocation below 1 MiB and next to the hypervisor, and
    clearing guest memory. The main property is that no entry of the map shown to the guest
    meets the memory of the hypervisor.

  \<^item> \<open>Mm_page\<close> models the page allocator of \<^verbatim>\<open>core/mm.c\<close>, and \<open>Mm_pageinv\<close> its invariant:
    the blocks tile the memory, the free lists hold exactly the free blocks of their size and
    alignment, and free buddies are merged. Allocation, release and start-up are shown to
    keep it, with their effect on the sets of free and used pages.

  \<^item> \<open>Mm_alloc\<close> models the byte allocator of \<^verbatim>\<open>core/mm.c\<close> (\<open>alloc\<close>, \<open>free\<close>, \<open>realloc\<close>) and the
    functions on reserved pages. \<open>Mm_allocinv\<close> is its invariant: which chunks, cells and runs of
    pages are in use, that their regions are disjoint, and that the operations add and remove
    exactly one allocation. The pages are used through the lemmas of \<open>Mm_pageinv\<close> alone. \<open>realloc\<close> keeps
    the contents; a request of 2 GiB or more gets one page.

  \<^item> \<open>Mempool\<close> models the memory pools of \<^verbatim>\<open>core/mm.c\<close>: when the loop that sizes a block ends, and
    the missing update of a length that makes a pool hand out memory behind its block.

  \<^item> \<open>Printf\<close> models \<^verbatim>\<open>core/printf.c\<close>. The locale \<open>sink_spec\<close> is the contract of an output
    function, \<open>digit_table\<close> that of a table of digits; both are interpreted on the functions and
    tables of the source. Output to a buffer stays in the buffer, and integer
    conversions print the digits that \<open>Strtol\<close> reads back.

  \<^item> \<open>Msg\<close> models \<^verbatim>\<open>core/msg.c\<close>, refining a finite map from names to destinations.

  \<^item> \<open>Timer\<close> models \<^verbatim>\<open>core/timer.c\<close>: the reachable states keep the three lists a partition of the
    timers, and due timers are run. The clock is a parameter.

  \<^item> \<open>Pmap\<close> models the page-table cursor of \<^verbatim>\<open>core/x86/pmap.c\<close>, and \<open>Cpu_mmu\<close> the page walk and
    the accesses of \<^verbatim>\<open>core/x86/cpu_mmu.c\<close>. Other processors are an environment that may change
    guest memory between any two accesses. Whatever they do, a successful walk used only
    entries that were present and allowed the access; if they are quiet, the walk returns the
    translation that the tables define.

  \<^item> \<open>Cache\<close> models \<^verbatim>\<open>core/x86/cache.c\<close>: the memory types that the guest sets, the type of an
    address, and the page-table bits that give the guest this type. The registers of the
    processor are a parameter. A page accepted as large has one type if the range masks are
    contiguous, and need not have otherwise.

  \<^bold>\<open>Bounds.\<close> No definition uses fuel. The page walk is partial because it starts over when another
  processor changes an entry between its read and its compare-and-exchange; it is shown to return when
  the others are quiet. The traversals of the firmware's map are partial because a map may continue in
  a cycle; they are shown to end for the maps that the reader of the map builds. The loops that
  double a number of pages are partial because their 32-bit product may wrap. All other
  recursions are total.

  \<^bold>\<open>Parameters.\<close> The firmware's answers, the memory of the guest and the writes of other
  processors, the clock, the image boundaries set by the linker, and the functions that a table
  of initialisation functions or a message service calls, are arguments of the definitions.

  \<^bold>\<open>Not modelled.\<close> The main loops for VT-x and SVM, the instruction interpreter, shadow
  and nested paging, interrupt and processor start-up code, and the AArch64 port are written
  around privileged instructions, control structures and assembly, whose meaning is not part
  of the sources. Address spaces, threads and processes switch stacks and page tables in assembly. The
  drivers (PCI, ATA, NVMe, network, USB) depend on the behaviour of devices. OpenSSL, lwIP, mbedTLS,
  WireGuard, SQLite, lw9p and the EDK2 headers are third-party packages. The VPN, storage and
  identity services are clients of these packages. Boot loaders and tools do not run
  in the hypervisor. Within the modelled files, the two functions of \<^verbatim>\<open>cpu_mmu.c\<close> that copy a
  task-state segment, \<open>pmap_autoalloc\<close> and \<open>pmap_dump\<close>, \<open>update_mtrr_and_pat\<close>, and the \<open>mm_process\<close> functions of
  \<^verbatim>\<open>mm.c\<close> are left out.
\<close>

end
